(* ===== verification/Prelude.thy ===== *)
theory Prelude
  imports Main "HOL-Library.Word" "HOL-Library.List_Lexorder"
begin

text \<open>
  What every component shares: the machine integers of the Rust source as words, byte
  strings and their order (\<open><[u8] as Ord>::cmp\<close>), byte ranges of a buffer and the
  replacement of a range, the two byte orders with the conversions
  \<open>from_ne_bytes\<close>, \<open>to_ne_bytes\<close> and \<open>swap_bytes\<close>, and the interface
  \<open>int_codec\<close> under which the integer reads and writes of a page buffer are reasoned about.
\<close>

unbundle bit_operations_syntax

type_synonym u8 = "8 word"
type_synonym u16 = "16 word"
type_synonym u32 = "32 word"
type_synonym u64 = "64 word"
type_synonym bytes = "u8 list"

named_theorems sub_simps \<open>byte ranges of buffers\<close>
named_theorems word_sizes \<open>bounds of the values of words\<close>

section \<open>The result of a comparison\<close>

datatype ordering = Less | Equal | Greater

text \<open>Rust derives \<open>Ord\<close> for \<open>Ordering\<close> in the order of its constructors.\<close>

fun ordering_rank :: "ordering \<Rightarrow> nat" where
  "ordering_rank Less = 0"
| "ordering_rank Equal = 1"
| "ordering_rank Greater = 2"

lemma ordering_rank_inj: "ordering_rank a = ordering_rank b \<Longrightarrow> a = b"
  by (cases a; cases b) simp_all

instantiation ordering :: linorder
begin

definition less_eq_ordering :: "ordering \<Rightarrow> ordering \<Rightarrow> bool" where
  "less_eq_ordering a b \<longleftrightarrow> ordering_rank a \<le> ordering_rank b"

definition less_ordering :: "ordering \<Rightarrow> ordering \<Rightarrow> bool" where
  "less_ordering a b \<longleftrightarrow> ordering_rank a < ordering_rank b"

instance
  by standard
    (auto simp: less_eq_ordering_def less_ordering_def intro: ordering_rank_inj)

end

section \<open>Byte strings and their order\<close>

text \<open>
  \<open><[u8] as Ord>::cmp\<close>: the first differing byte decides, unsigned; a proper prefix is
  smaller.
\<close>

fun cmp_bytes :: "bytes \<Rightarrow> bytes \<Rightarrow> ordering" where
  "cmp_bytes [] [] = Equal"
| "cmp_bytes [] (y # ys) = Less"
| "cmp_bytes (x # xs) [] = Greater"
| "cmp_bytes (x # xs) (y # ys) =
     (if x < y then Less else if y < x then Greater else cmp_bytes xs ys)"

definition cmp_nat :: "nat \<Rightarrow> nat \<Rightarrow> ordering" where
  "cmp_nat a b = (if a < b then Less else if b < a then Greater else Equal)"

lemma cmp_bytes_Equal [simp]: "cmp_bytes xs ys = Equal \<longleftrightarrow> xs = ys"
  by (induction xs ys rule: cmp_bytes.induct) auto

lemma cmp_bytes_Less [simp]: "cmp_bytes xs ys = Less \<longleftrightarrow> xs < ys"
  by (induction xs ys rule: cmp_bytes.induct) auto

lemma cmp_bytes_Greater [simp]: "cmp_bytes xs ys = Greater \<longleftrightarrow> ys < xs"
  by (induction xs ys rule: cmp_bytes.induct) auto

lemma cmp_bytes_refl: "cmp_bytes xs xs = Equal"
  by simp

lemma cmp_bytes_append_same: "cmp_bytes (zs @ xs) (zs @ ys) = cmp_bytes xs ys"
  by (induction zs) auto

text \<open>\<open>Iterator::position\<close>.\<close>

fun position :: "('a \<Rightarrow> bool) \<Rightarrow> 'a list \<Rightarrow> nat option" where
  "position P [] = None"
| "position P (x # xs) = (if P x then Some 0 else map_option Suc (position P xs))"

section \<open>Ranges of a buffer\<close>

text \<open>
  \<open>sub xs off n\<close> is the range \<open>xs[off..off + n]\<close>, and \<open>splice xs off ys\<close> the buffer
  with the range of \<open>length ys\<close> bytes at \<open>off\<close> replaced by \<open>ys\<close>. Both are only
  used where the range lies in the buffer; the operations of the code check that and
  panic or return an error otherwise.
\<close>

definition sub :: "'a list \<Rightarrow> nat \<Rightarrow> nat \<Rightarrow> 'a list" where
  "sub xs off n = take n (drop off xs)"

definition splice :: "'a list \<Rightarrow> nat \<Rightarrow> 'a list \<Rightarrow> 'a list" where
  "splice xs off ys = take off xs @ ys @ drop (off + length ys) xs"

lemma length_sub [simp]: "off + n \<le> length xs \<Longrightarrow> length (sub xs off n) = n"
  by (simp add: sub_def)

lemma length_sub_le: "length (sub xs off n) \<le> n"
  by (simp add: sub_def)

lemma sub_zero [simp]: "sub xs off 0 = []"
  by (simp add: sub_def)

lemma sub_all [simp]: "sub xs 0 (length xs) = xs"
  by (simp add: sub_def)

lemma nth_sub: "i < n \<Longrightarrow> off + n \<le> length xs \<Longrightarrow> sub xs off n ! i = xs ! (off + i)"
  by (simp add: sub_def)

lemma length_splice [simp]:
  "off + length ys \<le> length xs \<Longrightarrow> length (splice xs off ys) = length xs"
  by (simp add: splice_def)

lemma nth_splice:
  "off + length ys \<le> length xs \<Longrightarrow> i < length xs \<Longrightarrow>
   splice xs off ys ! i =
     (if i < off then xs ! i else if i < off + length ys then ys ! (i - off) else xs ! i)"
  by (auto simp: splice_def nth_append min_def)

lemma splice_Nil [simp]: "splice xs off [] = xs"
  by (simp add: splice_def)

lemma splice_all: "length ys = length xs \<Longrightarrow> splice xs 0 ys = ys"
  by (simp add: splice_def)

lemma sub_splice_same [sub_simps]:
  "off + length ys \<le> length xs \<Longrightarrow> n = length ys \<Longrightarrow> sub (splice xs off ys) off n = ys"
  by (simp add: sub_def splice_def)

lemma sub_splice_other [sub_simps]:
  assumes "off + length ys \<le> length xs" and "o' + n \<le> off \<or> off + length ys \<le> o'"
  shows "sub (splice xs off ys) o' n = sub xs o' n"
proof (cases "o' + n \<le> length xs")
  case True
  show ?thesis
    using assms True by (intro nth_equalityI) (auto simp: nth_sub nth_splice)
next
  case False
  with assms have "off + length ys \<le> o'" by auto
  then have "drop o' (splice xs off ys) = drop o' xs"
    using assms(1) by (simp add: splice_def)
  then show ?thesis by (simp add: sub_def)
qed

lemma sub_splice_inside [sub_simps]:
  assumes "off + length ys \<le> length xs" and "off \<le> o'" and "o' + n \<le> off + length ys"
  shows "sub (splice xs off ys) o' n = sub ys (o' - off) n"
  using assms by (intro nth_equalityI) (auto simp: nth_sub nth_splice)

lemma sub_sub [sub_simps]: "i + m \<le> n \<Longrightarrow> sub (sub xs off n) i m = sub xs (off + i) m"
  by (simp add: sub_def take_drop add.commute min_def)

lemma sub_append_left [sub_simps]: "off + n \<le> length xs \<Longrightarrow> sub (xs @ ys) off n = sub xs off n"
  by (simp add: sub_def)

lemma sub_append_right [sub_simps]:
  "length xs \<le> off \<Longrightarrow> sub (xs @ ys) off n = sub ys (off - length xs) n"
  by (simp add: sub_def)

lemma sub_add: "sub xs off (n + m) = sub xs off n @ sub xs (off + n) m"
  by (simp add: sub_def take_add add.commute [of n off])

lemma sub_replicate [sub_simps]: "off + n \<le> m \<Longrightarrow> sub (replicate m x) off n = replicate n x"
  by (simp add: sub_def)

section \<open>Byte order\<close>

text \<open>
  The byte order of the host is a parameter of every function that converts between
  integers and bytes: the writer stores integers in the order of the machine it runs on,
  and the reader may run on a machine of the other order.
\<close>

datatype endian = Little | Big

fun flip :: "endian \<Rightarrow> endian" where
  "flip Little = Big"
| "flip Big = Little"

lemma flip_flip [simp]: "flip (flip h) = h"
  by (cases h) simp_all

lemma flip_neq [simp]: "flip h \<noteq> h" "h \<noteq> flip h"
  by (cases h; simp)+

lemma neq_flip: "h' \<noteq> h \<longleftrightarrow> h' = flip h"
  by (cases h; cases h') simp_all

definition in_order :: "endian \<Rightarrow> bytes \<Rightarrow> bytes" where
  "in_order h bs = (case h of Little \<Rightarrow> rev bs | Big \<Rightarrow> bs)"

lemma in_order_simps [simp]:
  "length (in_order h bs) = length bs"
  "in_order h (in_order h bs) = bs"
  "in_order (flip h) bs = in_order h (rev bs)"
  by (cases h; simp add: in_order_def)+

definition u16_of_be :: "bytes \<Rightarrow> u16" where
  "u16_of_be bs = push_bit 8 (ucast (bs ! 0)) OR ucast (bs ! 1)"

definition u16_to_be :: "u16 \<Rightarrow> bytes" where
  "u16_to_be w = [ucast (drop_bit 8 w), ucast w]"

definition u32_of_be :: "bytes \<Rightarrow> u32" where
  "u32_of_be bs = push_bit 24 (ucast (bs ! 0)) OR push_bit 16 (ucast (bs ! 1))
     OR push_bit 8 (ucast (bs ! 2)) OR ucast (bs ! 3)"

definition u32_to_be :: "u32 \<Rightarrow> bytes" where
  "u32_to_be w = [ucast (drop_bit 24 w), ucast (drop_bit 16 w), ucast (drop_bit 8 w), ucast w]"

definition u16_from_ne_bytes :: "endian \<Rightarrow> bytes \<Rightarrow> u16" where
  "u16_from_ne_bytes h bs = u16_of_be (in_order h bs)"

definition u16_to_ne_bytes :: "endian \<Rightarrow> u16 \<Rightarrow> bytes" where
  "u16_to_ne_bytes h w = in_order h (u16_to_be w)"

definition u16_swap_bytes :: "u16 \<Rightarrow> u16" where
  "u16_swap_bytes w = u16_of_be (rev (u16_to_be w))"

definition u32_from_ne_bytes :: "endian \<Rightarrow> bytes \<Rightarrow> u32" where
  "u32_from_ne_bytes h bs = u32_of_be (in_order h bs)"

definition u32_to_ne_bytes :: "endian \<Rightarrow> u32 \<Rightarrow> bytes" where
  "u32_to_ne_bytes h w = in_order h (u32_to_be w)"

definition u32_swap_bytes :: "u32 \<Rightarrow> u32" where
  "u32_swap_bytes w = u32_of_be (rev (u32_to_be w))"

lemma u16_of_to_be: "u16_of_be (u16_to_be w) = w"
  unfolding u16_of_be_def u16_to_be_def
  by (rule bit_word_eqI) (auto simp: bit_simps)

lemma u32_of_to_be: "u32_of_be (u32_to_be w) = w"
proof (rule bit_word_eqI)
  fix n assume "n < LENGTH(32)"
  then have n: "n < 32" by simp
  consider "n < 8" | "8 \<le> n" "n < 16" | "16 \<le> n" "n < 24" | "24 \<le> n" by linarith
  then show "bit (u32_of_be (u32_to_be w)) n = bit w n"
    using n by cases (auto simp: u32_of_be_def u32_to_be_def bit_simps)
qed

lemma length_u16_to_be [simp]: "length (u16_to_be w) = 2"
  by (simp add: u16_to_be_def)

lemma length_u32_to_be [simp]: "length (u32_to_be w) = 4"
  by (simp add: u32_to_be_def)

lemma u16_to_of_be: "length bs = 2 \<Longrightarrow> u16_to_be (u16_of_be bs) = bs"
proof -
  assume "length bs = 2"
  then obtain a b where bs: "bs = [a, b]"
    by (auto simp: length_Suc_conv numeral_2_eq_2)
  have "ucast (drop_bit 8 (u16_of_be bs)) = a" "ucast (u16_of_be bs) = b"
    unfolding bs u16_of_be_def
    by (rule bit_word_eqI; auto simp: bit_simps dest: bit_imp_le_length)+
  then show ?thesis by (simp add: u16_to_be_def bs)
qed

lemma u32_to_of_be: "length bs = 4 \<Longrightarrow> u32_to_be (u32_of_be bs) = bs"
proof -
  assume "length bs = 4"
  then obtain a b c d where bs: "bs = [a, b, c, d]"
    by (auto simp: length_Suc_conv numeral_eq_Suc)
  have "ucast (drop_bit 24 (u32_of_be bs)) = a" "ucast (drop_bit 16 (u32_of_be bs)) = b"
    "ucast (drop_bit 8 (u32_of_be bs)) = c" "ucast (u32_of_be bs) = d"
    unfolding bs u32_of_be_def
    by (rule bit_word_eqI; auto simp: bit_simps dest: bit_imp_le_length)+
  then show ?thesis by (simp add: u32_to_be_def bs)
qed

text \<open>
  The interface of a fixed-width integer: how a value is laid out in the order of a host
  and read back. Byte swapping is reading in the opposite order.
\<close>

locale int_codec =
  fixes width :: nat
    and enc :: "endian \<Rightarrow> 'w \<Rightarrow> bytes"
    and dec :: "endian \<Rightarrow> bytes \<Rightarrow> 'w"
    and swap :: "'w \<Rightarrow> 'w"
  assumes length_enc: "length (enc h w) = width"
    and dec_enc: "dec h (enc h w) = w"
    and enc_dec: "length bs = width \<Longrightarrow> enc h (dec h bs) = bs"
    and swap_dec: "length bs = width \<Longrightarrow> swap (dec h bs) = dec (flip h) bs"
begin

lemma enc_inj: "enc h v = enc h w \<Longrightarrow> v = w"
  by (metis dec_enc)

lemma read_back:
  "off + width \<le> length buf \<Longrightarrow> dec h (sub (splice buf off (enc h w)) off width) = w"
  by (simp add: sub_simps length_enc dec_enc)

lemma stored_iff:
  "off + width \<le> length buf \<Longrightarrow> sub buf off width = enc h w \<longleftrightarrow> dec h (sub buf off width) = w"
  by (metis dec_enc enc_dec length_sub)

lemma swapped_read:
  "swap (dec h (enc (flip h) w)) = w"
  by (simp add: swap_dec length_enc dec_enc)

end

lemma u16_swap_from: "length bs = 2 \<Longrightarrow> u16_swap_bytes (u16_from_ne_bytes h bs) = u16_from_ne_bytes (flip h) bs"
  by (cases h; simp add: u16_swap_bytes_def u16_from_ne_bytes_def u16_to_of_be in_order_def)

lemma u32_swap_from: "length bs = 4 \<Longrightarrow> u32_swap_bytes (u32_from_ne_bytes h bs) = u32_from_ne_bytes (flip h) bs"
  by (cases h; simp add: u32_swap_bytes_def u32_from_ne_bytes_def u32_to_of_be in_order_def)

interpretation u16c: int_codec 2 u16_to_ne_bytes u16_from_ne_bytes u16_swap_bytes
  by unfold_locales
    (simp_all add: u16_to_ne_bytes_def u16_from_ne_bytes_def u16_of_to_be u16_to_of_be,
      metis u16_swap_from u16_from_ne_bytes_def in_order_simps(3))

interpretation u32c: int_codec 4 u32_to_ne_bytes u32_from_ne_bytes u32_swap_bytes
  by unfold_locales
    (simp_all add: u32_to_ne_bytes_def u32_from_ne_bytes_def u32_of_to_be u32_to_of_be,
      metis u32_swap_from u32_from_ne_bytes_def in_order_simps(3))

lemmas codec_simps =
  u16c.length_enc u32c.length_enc u16c.dec_enc u32c.dec_enc u16c.swap_dec u32c.swap_dec

declare u16c.length_enc [simp] u32c.length_enc [simp] u16c.dec_enc [simp] u32c.dec_enc [simp]

text \<open>The order in which a reader of host \<open>h\<close> decodes a file, given its \<open>swap\<close> flag.\<close>

definition eff :: "endian \<Rightarrow> bool \<Rightarrow> endian" where
  "eff h swap = (if swap then flip h else h)"

lemma eff_simps [simp]: "eff h False = h" "eff h True = flip h"
  by (simp_all add: eff_def)

lemma eff_neq: "eff h (h \<noteq> h') = h'"
  by (cases h; cases h') (simp_all add: eff_def)

section \<open>Sizes of words\<close>

lemma unat_u8_bound [word_sizes]: "unat (w :: u8) < 256"
  using unsigned_less [of w] by simp

lemma unat_u16_bound [word_sizes]: "unat (w :: u16) < 65536"
  using unsigned_less [of w] by simp

lemma unat_u32_bound [word_sizes]: "unat (w :: u32) < 4294967296"
  using unsigned_less [of w] by simp

lemma unat_of_nat_u16 [simp]: "n < 65536 \<Longrightarrow> unat (of_nat n :: u16) = n"
  by (simp add: unat_of_nat take_bit_nat_eq_self)

lemma unat_of_nat_u32 [simp]: "n < 4294967296 \<Longrightarrow> unat (of_nat n :: u32) = n"
  by (simp add: unat_of_nat take_bit_nat_eq_self)

end
