(* ===== verification/Errors.thy ===== *)
theory Errors
  imports Prelude
begin

text \<open>
  The crate's error type (src/src/error.rs) and the outcome of an operation. A Rust function
  of type \<open>Result<T>\<close> returns \<open>Ok\<close> or \<open>Err\<close>; in addition it may panic (an index out
  of range, a failed assertion, a \<open>usize\<close> subtraction below zero), which is the third
  outcome here. \<open>and_then\<close> is the \<open>?\<close> operator: it stops at the first error or panic.
  \<open>usize\<close> values are natural numbers, of 64 bits where the code checks their overflow.
\<close>

text \<open>A file system: the contents of the files that exist.\<close>

type_synonym filesystem = "string \<Rightarrow> bytes option"

datatype io_error = NotFound | AlreadyExists | OtherIo nat

datatype error =
    Io io_error
  | ShortFile
  | BadMagic u32
  | BadVersion u32
  | BadPageSize u32
  | UnalignedFileLength u64 u32
  | UnsupportedFlags u32
  | PageOutOfBounds u32
  | CorruptPage u32 string
  | CorruptOverflow u32
  | EntryTooLarge nat nat

datatype 'a outcome = Ok 'a | Err error | Panic

named_theorems outcome_simps \<open>evaluation of fallible operations\<close>

definition and_then :: "'a outcome \<Rightarrow> ('a \<Rightarrow> 'b outcome) \<Rightarrow> 'b outcome" where
  "and_then m f = (case m of Ok a \<Rightarrow> f a | Err e \<Rightarrow> Err e | Panic \<Rightarrow> Panic)"

lemma and_then_simps [simp]:
  "and_then (Ok a) f = f a" "and_then (Err e) f = Err e" "and_then Panic f = Panic"
  by (simp_all add: and_then_def)

lemma and_then_eq_Ok: "and_then m f = Ok b \<longleftrightarrow> (\<exists>a. m = Ok a \<and> f a = Ok b)"
  by (cases m) auto

lemma and_then_eq_Err:
  "and_then m f = Err e \<longleftrightarrow> m = Err e \<or> (\<exists>a. m = Ok a \<and> f a = Err e)"
  by (cases m) auto

lemma and_then_eq_Panic:
  "and_then m f = Panic \<longleftrightarrow> m = Panic \<or> (\<exists>a. m = Ok a \<and> f a = Panic)"
  by (cases m) auto

lemma and_then_assoc: "and_then (and_then m f) g = and_then m (\<lambda>a. and_then (f a) g)"
  by (cases m) simp_all

lemma and_then_cong [cong]:
  "m = m' \<Longrightarrow> (\<And>a. m' = Ok a \<Longrightarrow> f a = g a) \<Longrightarrow> and_then m f = and_then m' g"
  by (cases m') simp_all

text \<open>Operations of the standard library that panic.\<close>

definition assert_that :: "bool \<Rightarrow> unit outcome" where
  "assert_that b = (if b then Ok () else Panic)"

definition usub :: "nat \<Rightarrow> nat \<Rightarrow> nat outcome" where
  "usub a b = (if b \<le> a then Ok (a - b) else Panic)"

definition index :: "'a list \<Rightarrow> nat \<Rightarrow> 'a outcome" where
  "index xs i = (if i < length xs then Ok (xs ! i) else Panic)"

definition store :: "'a list \<Rightarrow> nat \<Rightarrow> 'a \<Rightarrow> 'a list outcome" where
  \<comment> \<open>\<open>xs[i] = v\<close>\<close>
  "store xs i v = (if i < length xs then Ok (xs[i := v]) else Panic)"

definition index_range :: "'a list \<Rightarrow> nat \<Rightarrow> nat \<Rightarrow> 'a list outcome" where
  "index_range xs a b = (if a \<le> b \<and> b \<le> length xs then Ok (sub xs a (b - a)) else Panic)"

definition copy_from_slice :: "'a list \<Rightarrow> nat \<Rightarrow> nat \<Rightarrow> 'a list \<Rightarrow> 'a list outcome" where
  \<comment> \<open>\<open>xs[a..b].copy_from_slice(ys)\<close>\<close>
  "copy_from_slice xs a b ys =
     (if a \<le> b \<and> b \<le> length xs \<and> b - a = length ys then Ok (splice xs a ys) else Panic)"

definition copy_within :: "'a list \<Rightarrow> nat \<Rightarrow> nat \<Rightarrow> nat \<Rightarrow> 'a list outcome" where
  \<comment> \<open>\<open>xs.copy_within(a..b, d)\<close>\<close>
  "copy_within xs a b d =
     (if a \<le> b \<and> b \<le> length xs \<and> d + (b - a) \<le> length xs
      then Ok (splice xs d (sub xs a (b - a))) else Panic)"

text \<open>Operations of the standard library that return \<open>None\<close>.\<close>

definition get_range :: "'a list \<Rightarrow> nat \<Rightarrow> nat \<Rightarrow> 'a list option" where
  \<comment> \<open>\<open>xs.get(a..b)\<close>\<close>
  "get_range xs a b = (if a \<le> b \<and> b \<le> length xs then Some (sub xs a (b - a)) else None)"

definition checked_add :: "nat \<Rightarrow> nat \<Rightarrow> nat option" where
  "checked_add a b = (if a + b < 2 ^ 64 then Some (a + b) else None)"

definition ok_or :: "'a option \<Rightarrow> error \<Rightarrow> 'a outcome" where
  "ok_or x e = (case x of Some a \<Rightarrow> Ok a | None \<Rightarrow> Err e)"

text \<open>A \<open>for\<close> loop whose body may fail.\<close>

fun for_each :: "'a list \<Rightarrow> ('a \<Rightarrow> 's \<Rightarrow> 's outcome) \<Rightarrow> 's \<Rightarrow> 's outcome" where
  "for_each [] f s = Ok s"
| "for_each (x # xs) f s = and_then (f x s) (\<lambda>s'. for_each xs f s')"

lemma for_each_append:
  "for_each (xs @ ys) f s = and_then (for_each xs f s) (\<lambda>s'. for_each ys f s')"
  by (induction xs arbitrary: s) (simp_all add: and_then_assoc)

text \<open>An operation that only fails by returning an error.\<close>

definition no_panic :: "'a outcome \<Rightarrow> bool" where
  "no_panic m \<longleftrightarrow> m \<noteq> Panic"

lemma no_panic_Ok [simp]: "no_panic (Ok a)" "no_panic (Err e)" "\<not> no_panic Panic"
  by (simp_all add: no_panic_def)

lemma no_panic_and_then:
  "no_panic m \<Longrightarrow> (\<And>a. m = Ok a \<Longrightarrow> no_panic (f a)) \<Longrightarrow> no_panic (and_then m f)"
  by (cases m) auto

lemma no_panic_if: "(b \<Longrightarrow> no_panic x) \<Longrightarrow> (\<not> b \<Longrightarrow> no_panic y) \<Longrightarrow> no_panic (if b then x else y)"
  by simp

lemma no_panic_case_ordering:
  "(c = Less \<Longrightarrow> no_panic x) \<Longrightarrow> (c = Equal \<Longrightarrow> no_panic y) \<Longrightarrow> (c = Greater \<Longrightarrow> no_panic z) \<Longrightarrow>
   no_panic (case c of Less \<Rightarrow> x | Equal \<Rightarrow> y | Greater \<Rightarrow> z)"
  by (cases c) simp_all

lemmas no_panic_rules = no_panic_and_then no_panic_if no_panic_case_ordering

lemma no_panic_ok_or [simp]: "no_panic (ok_or x e)"
  by (simp add: ok_or_def split: option.split)

lemma assert_that_simps [simp]:
  "b \<Longrightarrow> assert_that b = Ok ()" "assert_that True = Ok ()" "assert_that False = Panic"
  by (simp_all add: assert_that_def)

lemma usub_simps [simp]: "b \<le> a \<Longrightarrow> usub a b = Ok (a - b)"
  by (simp add: usub_def)

lemma ok_or_simps [simp]: "ok_or (Some a) e = Ok a" "ok_or None e = Err e"
  by (simp_all add: ok_or_def)

lemma ok_or_eq_Ok [simp]: "ok_or x e = Ok a \<longleftrightarrow> x = Some a"
  by (simp add: ok_or_def split: option.split)

lemma checked_add_Some: "a + b < 2 ^ 64 \<Longrightarrow> checked_add a b = Some (a + b)"
  by (simp add: checked_add_def)

lemma checked_add_eq_Some: "checked_add a b = Some c \<Longrightarrow> c = a + b"
  by (simp add: checked_add_def split: if_splits)

end
