(* ===== verification/Display.thy ===== *)
theory Display
  imports Errors
begin

text \<open>
  The messages of the errors: the \<open>#[error(...)]\<close> attributes of src/src/error.rs, with the
  formatting of numbers of the standard library that they use. The message of an \<open>Io\<close>
  error is that of the operating system's error, which is an argument.
\<close>

section \<open>Numbers\<close>

definition digit :: "nat \<Rightarrow> char" where
  "digit d = ''0123456789abcdef'' ! d"

text \<open>The digits of a number to a base, without leading zeros.\<close>

fun digits :: "nat \<Rightarrow> nat \<Rightarrow> string" where
  "digits base n = (if base < 2 \<or> n < base then [digit n] else digits base (n div base) @ [digit (n mod base)])"

declare digits.simps [simp del]

abbreviation dec :: "nat \<Rightarrow> string" where "dec \<equiv> digits 10"

abbreviation hex :: "nat \<Rightarrow> string" where "hex \<equiv> digits 16"

definition pad_zero :: "nat \<Rightarrow> string \<Rightarrow> string" where
  "pad_zero width s = replicate (width - length s) (CHR ''0'') @ s"

section \<open>Messages\<close>

fun display :: "(io_error \<Rightarrow> string) \<Rightarrow> error \<Rightarrow> string" where
  "display io (Io e) = io e"
| "display io ShortFile = ''file shorter than btree meta page''"
| "display io (BadMagic magic) =
     ''not a btree 1.85 file: bad magic '' @ ''0x'' @ pad_zero 8 (hex (unat magic))"
| "display io (BadVersion version) = ''unsupported btree version '' @ dec (unat version) @ '' (expected 3)''"
| "display io (BadPageSize psize) = ''invalid page size '' @ dec (unat psize)"
| "display io (UnalignedFileLength len psize) =
     ''file length '' @ dec (unat len) @ '' is not a multiple of page size '' @ dec (unat psize)"
| "display io (UnsupportedFlags flags) = ''unsupported metadata flags '' @ ''0x'' @ hex (unat flags)"
| "display io (PageOutOfBounds pgno) = ''page '' @ dec (unat pgno) @ '' is past end of file''"
| "display io (CorruptPage pgno reason) = ''corrupt page '' @ dec (unat pgno) @ '': '' @ reason"
| "display io (CorruptOverflow pgno) = ''corrupt overflow chain starting at page '' @ dec (unat pgno)"
| "display io (EntryTooLarge key_len val_len) =
     ''entry too large for inline storage (key='' @ dec key_len @ ''B, val='' @ dec val_len @ ''B)''"

section \<open>Reading a message back\<close>

definition digit_value :: "char \<Rightarrow> nat" where
  "digit_value c = length (takeWhile (\<lambda>d. d \<noteq> c) ''0123456789abcdef'')"

definition number :: "nat \<Rightarrow> string \<Rightarrow> nat" where
  "number base s = foldl (\<lambda>n c. n * base + digit_value c) 0 s"

definition is_dec :: "char \<Rightarrow> bool" where
  "is_dec c \<longleftrightarrow> c \<in> set ''0123456789''"

lemma less_16: "d < 16 \<longleftrightarrow> d \<in> {0, 1, 2, 3, 4, 5, 6, 7, 8, 9, 10, 11, 12, 13, 14, 15 :: nat}"
  unfolding insert_iff empty_iff by presburger

lemma digit_value [simp]: "d < 16 \<Longrightarrow> digit_value (digit d) = d"
  unfolding less_16 by (auto simp: digit_value_def digit_def)

lemma digit_is_dec: "d < 10 \<Longrightarrow> is_dec (digit d)"
proof -
  assume "d < 10"
  then have "d \<in> {0, 1, 2, 3, 4, 5, 6, 7, 8, 9}" by auto
  then show ?thesis by (auto simp: is_dec_def digit_def)
qed

lemma number_snoc: "number base (s @ [c]) = number base s * base + digit_value c"
  by (simp add: number_def)

lemma number_digits: "2 \<le> base \<Longrightarrow> base \<le> 16 \<Longrightarrow> number base (digits base n) = n"
proof (induction base n rule: digits.induct)
  case (1 base n)
  have m: "n mod base < 16" using 1 by (metis less_le_trans mod_less_divisor not_numeral_le_zero gr0I)
  show ?case
  proof (cases "n < base")
    case True
    then have "digits base n = [digit n]" by (subst digits.simps) simp
    then show ?thesis using True 1 by (simp add: number_def)
  next
    case False
    then have d: "digits base n = digits base (n div base) @ [digit (n mod base)]"
      using 1 by (subst digits.simps) simp
    have "number base (digits base (n div base)) = n div base" using 1 False by simp
    then show ?thesis unfolding d number_snoc using m by simp
  qed
qed

lemma number_pad: "number base (pad_zero k s) = number base s"
proof -
  have z: "digit_value (CHR ''0'') = 0" by (simp add: digit_value_def)
  have "foldl (\<lambda>n c. n * base + digit_value c) 0 (replicate j (CHR ''0'')) = 0" for j
    by (induction j) (simp_all add: z)
  then show ?thesis by (simp add: number_def pad_zero_def)
qed

lemma digits_eq_iff [simp]: "2 \<le> base \<Longrightarrow> base \<le> 16 \<Longrightarrow> digits base m = digits base n \<longleftrightarrow> m = n"
  by (metis number_digits)

lemma pad_eq_iff: "pad_zero k (hex m) = pad_zero k (hex n) \<longleftrightarrow> m = n"
proof
  assume "pad_zero k (hex m) = pad_zero k (hex n)"
  then have "number 16 (pad_zero k (hex m)) = number 16 (pad_zero k (hex n))" by simp
  then show "m = n" by (simp add: number_pad number_digits)
qed simp

lemma dec_digits: "c \<in> set (dec n) \<Longrightarrow> is_dec c"
proof (induction n rule: less_induct)
  case (less n)
  show ?case
  proof (cases "n < 10")
    case True
    then show ?thesis using less.prems by (subst (asm) digits.simps) (simp add: digit_is_dec)
  next
    case False
    then show ?thesis using less.prems less.IH [of "n div 10"]
      by (subst (asm) digits.simps) (auto simp: digit_is_dec)
  qed
qed

text \<open>A decimal number ends where the first other character stands.\<close>

lemma dec_append_iff:
  assumes "\<not> is_dec c" "\<not> is_dec d"
  shows "dec m @ c # xs = dec n @ d # ys \<longleftrightarrow> m = n \<and> c = d \<and> xs = ys"
proof
  assume e: "dec m @ c # xs = dec n @ d # ys"
  have t: "takeWhile is_dec (dec k @ x # zs) = dec k" if "\<not> is_dec x" for k x zs
    using that dec_digits [of _ k] by (simp add: takeWhile_append2)
  have "dec m = dec n" using t [OF assms(1), of m xs] t [OF assms(2), of n ys] e by simp
  then show "m = n \<and> c = d \<and> xs = ys" using e by simp
qed simp

lemma unat_eq: "unat a = unat b \<longleftrightarrow> a = b"
  by (simp add: word_unat_eq_iff)

text \<open>
  C39: the messages are unambiguous. Two errors of the crate, other than the errors of the
  operating system, have the same message only if they are the same error with the same
  values.
\<close>

theorem messages_unambiguous:
  assumes "display io e = display io e'" "\<forall>x. e \<noteq> Io x" "\<forall>x. e' \<noteq> Io x"
  shows "e = e'"
proof -
  have stop: "\<not> is_dec CHR '' ''" "\<not> is_dec CHR '':''" "\<not> is_dec CHR ''B''" by (simp_all add: is_dec_def)
  show ?thesis
    using assms by (cases e; cases e')
      (simp_all add: stop dec_append_iff pad_eq_iff unat_eq)
qed

lemma messages_unambiguous_witness:
  "display (\<lambda>_. []) (BadMagic 0xFF) = ''not a btree 1.85 file: bad magic 0x000000ff'' \<and>
    display (\<lambda>_. []) (BadMagic 0xFF) \<noteq> display (\<lambda>_. []) (BadMagic 0xFE)"
proof -
  have "display (\<lambda>_. []) (BadMagic 0xFF) = ''not a btree 1.85 file: bad magic 0x000000ff''"
    by code_simp
  then show ?thesis using messages_unambiguous [of "\<lambda>_. []" "BadMagic 0xFF" "BadMagic 0xFE"] by auto
qed

end
