(* ===== verification/Format.thy ===== *)
theory Format
  imports Errors
begin

text \<open>
  On-disk constants and layout helpers (src/src/format.rs): the numbers of the file format,
  the alignment of entries and the decoded meta page with its parser.
\<close>

definition BTREE_MAGIC :: u32 where "BTREE_MAGIC = 0x00053162"
definition BTREE_VERSION :: u32 where "BTREE_VERSION = 3"
definition MIN_PSIZE :: nat where "MIN_PSIZE = 512"
definition MAX_PSIZE :: nat where "MAX_PSIZE = 32768"
definition P_INVALID :: u32 where "P_INVALID = 0"
definition P_ROOT :: u32 where "P_ROOT = 1"
definition P_BINTERNAL :: u32 where "P_BINTERNAL = 0x01"
definition P_BLEAF :: u32 where "P_BLEAF = 0x02"
definition P_OVERFLOW :: u32 where "P_OVERFLOW = 0x04"
definition P_TYPE :: u32 where "P_TYPE = 0x1f"
definition P_BIGDATA :: u8 where "P_BIGDATA = 0x01"
definition P_BIGKEY :: u8 where "P_BIGKEY = 0x02"
definition B_NODUPS :: u32 where "B_NODUPS = 0x0020"
definition R_RECNO :: u32 where "R_RECNO = 0x0080"
definition SAVEMETA :: u32 where "SAVEMETA = (B_NODUPS OR R_RECNO)"
definition META_SIZE :: nat where "META_SIZE = 24"
definition PAGE_HEADER_SIZE :: nat where "PAGE_HEADER_SIZE = 4 * 4 + 2 * 2"
definition NOVFLSIZE :: nat where "NOVFLSIZE = 8"
definition BLEAF_HEADER_SIZE :: nat where "BLEAF_HEADER_SIZE = 4 + 4 + 1"
definition BINTERNAL_HEADER_SIZE :: nat where "BINTERNAL_HEADER_SIZE = 4 + 4 + 1"
definition ENTRY_ALIGN :: nat where "ENTRY_ALIGN = 4"

lemmas format_defs =
  BTREE_MAGIC_def BTREE_VERSION_def MIN_PSIZE_def MAX_PSIZE_def P_INVALID_def P_ROOT_def
  P_BINTERNAL_def P_BLEAF_def P_OVERFLOW_def P_TYPE_def P_BIGDATA_def P_BIGKEY_def
  B_NODUPS_def R_RECNO_def SAVEMETA_def META_SIZE_def PAGE_HEADER_SIZE_def NOVFLSIZE_def
  BLEAF_HEADER_SIZE_def BINTERNAL_HEADER_SIZE_def ENTRY_ALIGN_def

lemma sizes [simp]:
  "MIN_PSIZE = 512" "MAX_PSIZE = 32768" "META_SIZE = 24" "PAGE_HEADER_SIZE = 20"
  "NOVFLSIZE = 8" "BLEAF_HEADER_SIZE = 9" "BINTERNAL_HEADER_SIZE = 9"
  by (simp_all add: format_defs)

text \<open>
  \<open>(n + ENTRY_ALIGN - 1) & !(ENTRY_ALIGN - 1)\<close>: on an unsigned number, clearing the bits
  of a mask \<open>m\<close> subtracts \<open>n & m\<close>.
\<close>

definition align_entry :: "nat \<Rightarrow> nat" where
  "align_entry n =
     (let m = n + ENTRY_ALIGN - 1 in m - (m AND (ENTRY_ALIGN - 1)))"

lemma align_entry_eq: "align_entry n = (n + 3) div 4 * 4"
proof -
  have "m AND 3 = m mod 4" for m :: nat
    using take_bit_eq_mask [of 2 m] by (simp add: take_bit_eq_mod mask_eq_exp_minus_1)
  then show ?thesis
    by (simp add: align_entry_def ENTRY_ALIGN_def Let_def minus_mod_eq_div_mult [symmetric] add.commute)
qed

lemma align_entry_ge: "n \<le> align_entry n"
  unfolding align_entry_eq by linarith

lemma align_entry_less: "align_entry n < n + 4"
  unfolding align_entry_eq by linarith

lemma align_entry_mono: "m \<le> n \<Longrightarrow> align_entry m \<le> align_entry n"
  unfolding align_entry_eq by (simp add: div_le_mono)

lemma align_entry_idem [simp]: "align_entry (align_entry n) = align_entry n"
  unfolding align_entry_eq by simp

lemma align_entry_dvd [simp]: "4 dvd align_entry n"
  unfolding align_entry_eq by simp

lemma align_entry_pos: "0 < n \<Longrightarrow> 4 \<le> align_entry n"
  unfolding align_entry_eq by presburger

text \<open>The decoded subset of the \<open>BTMETA\<close> page (page 0).\<close>

record meta =
  m_magic :: u32
  m_version :: u32
  m_psize :: u32
  m_flags :: u32

definition meta_word :: "endian \<Rightarrow> bytes \<Rightarrow> bool \<Rightarrow> nat \<Rightarrow> u32" where
  "meta_word h buf swap off =
     (let b = [buf ! off, buf ! (off + 1), buf ! (off + 2), buf ! (off + 3)]
      in if swap then u32_swap_bytes (u32_from_ne_bytes h b) else u32_from_ne_bytes h b)"

text \<open>\<open>Meta::parse\<close>: its argument is an array of exactly \<open>META_SIZE\<close> bytes.\<close>

definition meta_parse :: "endian \<Rightarrow> bytes \<Rightarrow> meta \<times> bool" where
  "meta_parse h buf =
     (let native_magic = u32_from_ne_bytes h [buf ! 0, buf ! 1, buf ! 2, buf ! 3];
          swap = (native_magic \<noteq> BTREE_MAGIC);
          r = meta_word h buf swap
      in (\<lparr>m_magic = r 0, m_version = r 4, m_psize = r 8, m_flags = r 20\<rparr>, swap))"

lemma four_bytes:
  "off + 4 \<le> length buf \<Longrightarrow>
   [buf ! off, buf ! (off + 1), buf ! (off + 2), buf ! (off + 3)] = sub buf off 4"
  by (rule nth_equalityI) (auto simp: nth_sub less_Suc_eq numeral_eq_Suc)

lemma two_bytes:
  "off + 2 \<le> length buf \<Longrightarrow> [buf ! off, buf ! (off + 1)] = sub buf off 2"
  by (rule nth_equalityI) (auto simp: nth_sub less_Suc_eq numeral_eq_Suc)

lemma meta_word_eq:
  "off + 4 \<le> length buf \<Longrightarrow>
   meta_word h buf swap off = u32_from_ne_bytes (eff h swap) (sub buf off 4)"
  unfolding meta_word_def Let_def by (simp only: four_bytes) (simp add: u32c.swap_dec)

end
