(* ===== verification/Page.thy ===== *)
theory Page
  imports Format
begin

text \<open>
  Decoding of btree pages (src/src/page.rs): the validated view of one page and the decoders
  of its entries. Every read is bounds-checked by the code; what the code indexes without a
  check is a \<open>Panic\<close> of the model when the index is out of range.
\<close>

section \<open>Reads\<close>

definition read_u16_bytes :: "endian \<Rightarrow> bytes \<Rightarrow> bool \<Rightarrow> u16" where
  "read_u16_bytes h b swap =
     (let v = u16_from_ne_bytes h b in if swap then u16_swap_bytes v else v)"

definition read_u32_bytes :: "endian \<Rightarrow> bytes \<Rightarrow> bool \<Rightarrow> u32" where
  "read_u32_bytes h b swap =
     (let v = u32_from_ne_bytes h b in if swap then u32_swap_bytes v else v)"

definition read_u16 :: "endian \<Rightarrow> bytes \<Rightarrow> nat \<Rightarrow> bool \<Rightarrow> u16 outcome" where
  "read_u16 h buf off swap =
     and_then (index buf off) (\<lambda>b0. and_then (index buf (off + 1)) (\<lambda>b1.
     Ok (read_u16_bytes h [b0, b1] swap)))"

definition read_u32 :: "endian \<Rightarrow> bytes \<Rightarrow> nat \<Rightarrow> bool \<Rightarrow> u32 outcome" where
  "read_u32 h buf off swap =
     and_then (index buf off) (\<lambda>b0. and_then (index buf (off + 1)) (\<lambda>b1.
     and_then (index buf (off + 2)) (\<lambda>b2. and_then (index buf (off + 3)) (\<lambda>b3.
     Ok (read_u32_bytes h [b0, b1, b2, b3] swap)))))"

section \<open>The page view\<close>

record page_view =
  pv_pgno :: u32
  pv_prev_pg :: u32
  pv_next_pg :: u32
  pv_bytes :: bytes
  pv_swap :: bool
  pv_flags :: u32
  pv_nentries :: nat

datatype item_ref = Inline (item_off: u32) (item_len: u32) | Overflow (ovfl_pgno: u32) (ovfl_size: u32)

record leaf_entry =
  le_key :: item_ref
  le_data :: item_ref

record internal_entry =
  ie_key :: item_ref
  ie_child :: u32

definition pv_parse :: "endian \<Rightarrow> u32 \<Rightarrow> bytes \<Rightarrow> bool \<Rightarrow> page_view outcome" where
  "pv_parse h pgno buf swap =
     (if length buf < PAGE_HEADER_SIZE then
        Err (CorruptPage pgno ''page shorter than header'')
      else
        and_then (read_u32 h buf 4 swap) (\<lambda>prev_pg.
        and_then (read_u32 h buf 8 swap) (\<lambda>next_pg.
        and_then (read_u32 h buf 12 swap) (\<lambda>flags.
        and_then (read_u16 h buf 16 swap) (\<lambda>lower16.
        and_then (read_u16 h buf 18 swap) (\<lambda>upper16.
        let lower = unat lower16; upper = unat upper16 in
        if lower < PAGE_HEADER_SIZE \<or> upper > length buf \<or> lower > upper
           \<or> (lower - PAGE_HEADER_SIZE) mod 2 \<noteq> 0 then
          Err (CorruptPage pgno ''page bounds inconsistent'')
        else if \<not> (flags AND P_TYPE = P_BINTERNAL \<or> flags AND P_TYPE = P_BLEAF
                   \<or> flags AND P_TYPE = P_OVERFLOW) then
          Err (CorruptPage pgno ''unsupported page type'')
        else
          Ok \<lparr>pv_pgno = pgno, pv_prev_pg = prev_pg, pv_next_pg = next_pg, pv_bytes = buf,
              pv_swap = swap, pv_flags = flags,
              pv_nentries = (lower - PAGE_HEADER_SIZE) div 2\<rparr>))))))"

definition pv_is_leaf :: "page_view \<Rightarrow> bool" where
  "pv_is_leaf v \<longleftrightarrow> pv_flags v AND P_BLEAF \<noteq> 0"

definition pv_is_internal :: "page_view \<Rightarrow> bool" where
  "pv_is_internal v \<longleftrightarrow> pv_flags v AND P_BINTERNAL \<noteq> 0"

definition pv_is_overflow :: "page_view \<Rightarrow> bool" where
  "pv_is_overflow v \<longleftrightarrow> pv_flags v AND P_OVERFLOW \<noteq> 0"

definition pv_overflow_payload :: "page_view \<Rightarrow> bytes outcome" where
  "pv_overflow_payload v =
     index_range (pv_bytes v) PAGE_HEADER_SIZE (length (pv_bytes v))"

definition pv_corrupt :: "page_view \<Rightarrow> string \<Rightarrow> error" where
  "pv_corrupt v reason = CorruptPage (pv_pgno v) reason"

definition pv_inline :: "page_view \<Rightarrow> item_ref \<Rightarrow> bytes outcome" where
  "pv_inline v item =
     (case item of
        Inline off len \<Rightarrow>
          let start = unat off in
          and_then (ok_or (checked_add start (unat len))
              (pv_corrupt v ''inline offset + length overflows'')) (\<lambda>end.
          ok_or (get_range (pv_bytes v) start end)
            (pv_corrupt v ''inline offset out of range''))
      | Overflow _ _ \<Rightarrow> Err (pv_corrupt v ''expected inline item, found overflow''))"

definition pv_byte_at :: "page_view \<Rightarrow> nat \<Rightarrow> u8 outcome" where
  "pv_byte_at v off =
     (if off < length (pv_bytes v) then Ok (pv_bytes v ! off)
      else Err (pv_corrupt v ''byte read out of range''))"

definition pv_u16_at :: "endian \<Rightarrow> page_view \<Rightarrow> nat \<Rightarrow> u16 outcome" where
  "pv_u16_at h v off =
     and_then (ok_or (checked_add off 2) (pv_corrupt v ''u16 offset overflows'')) (\<lambda>end.
     and_then (ok_or (get_range (pv_bytes v) off end) (pv_corrupt v ''u16 read out of range'')) (\<lambda>b.
     Ok (read_u16_bytes h b (pv_swap v))))"

definition pv_u32_at :: "endian \<Rightarrow> page_view \<Rightarrow> nat \<Rightarrow> u32 outcome" where
  "pv_u32_at h v off =
     and_then (ok_or (checked_add off 4) (pv_corrupt v ''u32 offset overflows'')) (\<lambda>end.
     and_then (ok_or (get_range (pv_bytes v) off end) (pv_corrupt v ''u32 read out of range'')) (\<lambda>b.
     Ok (read_u32_bytes h b (pv_swap v))))"

definition pv_entry_offset :: "endian \<Rightarrow> page_view \<Rightarrow> nat \<Rightarrow> nat outcome" where
  "pv_entry_offset h v idx =
     (if idx \<ge> pv_nentries v then Err (pv_corrupt v ''entry index out of range'')
      else and_then (pv_u16_at h v (PAGE_HEADER_SIZE + idx * 2)) (\<lambda>o16. Ok (unat o16)))"

definition pv_decode_item :: "endian \<Rightarrow> page_view \<Rightarrow> nat \<Rightarrow> nat \<Rightarrow> bool \<Rightarrow> item_ref outcome" where
  "pv_decode_item h v off len big =
     (if \<not> big then Ok (Inline (of_nat off) (of_nat len))
      else if len < NOVFLSIZE then Err (pv_corrupt v ''overflow ref too short'')
      else and_then (pv_u32_at h v off) (\<lambda>pgno.
           and_then (pv_u32_at h v (off + 4)) (\<lambda>size.
           Ok (Overflow pgno size))))"

definition pv_leaf_entry :: "endian \<Rightarrow> page_view \<Rightarrow> nat \<Rightarrow> leaf_entry outcome" where
  "pv_leaf_entry h v idx =
     and_then (pv_entry_offset h v idx) (\<lambda>off.
     and_then (pv_u32_at h v off) (\<lambda>ksize32.
     and_then (pv_u32_at h v (off + 4)) (\<lambda>dsize32.
     and_then (pv_byte_at v (off + 8)) (\<lambda>eflags.
     let ksize = unat ksize32; dsize = unat dsize32; payload = off + BLEAF_HEADER_SIZE in
     and_then (ok_or (Option.bind (checked_add payload ksize) (\<lambda>p. checked_add p dsize))
         (pv_corrupt v ''leaf payload length overflows'')) (\<lambda>payload_end.
     if payload_end > length (pv_bytes v) then Err (pv_corrupt v ''leaf payload out of range'')
     else
       and_then (pv_decode_item h v payload ksize (eflags AND P_BIGKEY \<noteq> 0)) (\<lambda>key.
       and_then (pv_decode_item h v (payload + ksize) dsize (eflags AND P_BIGDATA \<noteq> 0)) (\<lambda>data.
       Ok \<lparr>le_key = key, le_data = data\<rparr>)))))))"

definition pv_internal_entry :: "endian \<Rightarrow> page_view \<Rightarrow> nat \<Rightarrow> internal_entry outcome" where
  "pv_internal_entry h v idx =
     and_then (pv_entry_offset h v idx) (\<lambda>off.
     and_then (pv_u32_at h v off) (\<lambda>ksize32.
     and_then (pv_u32_at h v (off + 4)) (\<lambda>child.
     and_then (pv_byte_at v (off + 8)) (\<lambda>eflags.
     let ksize = unat ksize32; payload = off + BINTERNAL_HEADER_SIZE in
     and_then (ok_or (checked_add payload ksize)
         (pv_corrupt v ''internal payload length overflows'')) (\<lambda>payload_end.
     if payload_end > length (pv_bytes v) then Err (pv_corrupt v ''internal payload out of range'')
     else
       and_then (pv_decode_item h v payload ksize (eflags AND P_BIGKEY \<noteq> 0)) (\<lambda>key.
       Ok \<lparr>ie_key = key, ie_child = child\<rparr>))))))"

end
