(* ===== verification/Search.thy ===== *)
theory Search
  imports Errors
begin

text \<open>
  The binary search of \<open>__bt_search\<close>, which the crate runs in four places: over the
  entries of a leaf (\<open>Db::search_leaf\<close>, \<open>leaf_search\<close>) and over the separators of an
  internal page (\<open>Db::descend_internal\<close>, \<open>descend_internal_pick\<close>). The four loops have
  the same body and differ in how the entry at an index is decoded and compared, which is
  the argument \<open>probe\<close>.
\<close>

function bsearch :: "(nat \<Rightarrow> ordering outcome) \<Rightarrow> nat \<Rightarrow> nat \<Rightarrow> (bool \<times> nat) outcome" where
  "bsearch probe base lim =
     (if lim > 0 then
        let idx = base + lim div 2 in
        and_then (probe idx) (\<lambda>cmp. case cmp of
          Equal \<Rightarrow> Ok (True, idx)
        | Greater \<Rightarrow> bsearch probe (idx + 1) ((lim - 1) div 2)
        | Less \<Rightarrow> bsearch probe base (lim div 2))
      else Ok (False, base))"
  by pat_completeness auto
termination
  by (relation "measure (\<lambda>(probe, base, lim). lim)") auto

declare bsearch.simps [simp del]

text \<open>The slot to descend into, after the search of an internal page.\<close>

definition chosen_slot :: "bool \<times> nat \<Rightarrow> nat" where
  "chosen_slot r = (case r of (matched, i) \<Rightarrow> if matched then i else if i = 0 then 0 else i - 1)"

lemma bsearch_no_panic:
  "(\<And>i. no_panic (probe i)) \<Longrightarrow> no_panic (bsearch probe base lim)"
proof (induction probe base lim rule: bsearch.induct)
  case (1 probe base lim)
  then show ?case
    by (subst bsearch.simps) (auto simp: Let_def intro!: no_panic_and_then split: ordering.split)
qed

lemma bsearch_found_in_range:
  "bsearch probe base lim = Ok (True, i) \<Longrightarrow>
   base \<le> i \<and> i < base + lim \<and> probe i = Ok Equal"
proof (induction probe base lim rule: bsearch.induct)
  case (1 probe base lim)
  let ?idx = "base + lim div 2"
  from "1.prems" have lim: "lim > 0"
    by (subst (asm) bsearch.simps) (simp split: if_splits)
  with "1.prems" obtain c where c: "probe ?idx = Ok c"
    and step: "(case c of Equal \<Rightarrow> Ok (True, ?idx)
        | Greater \<Rightarrow> bsearch probe (?idx + 1) ((lim - 1) div 2)
        | Less \<Rightarrow> bsearch probe base (lim div 2)) = Ok (True, i)"
    by (subst (asm) bsearch.simps) (auto simp: and_then_eq_Ok Let_def)
  show ?case
  proof (cases c)
    case Less
    with step "1.IH"(1) [OF lim refl] show ?thesis by auto
  next
    case Equal
    with step c lim show ?thesis by simp
  next
    case Greater
    with step "1.IH"(2) [OF lim refl] lim show ?thesis by auto
  qed
qed

text \<open>
  The contract of a search: the pages on which it is run (\<open>searchable\<close>), how many entries
  they have, and what comparing a key with entry \<open>i\<close> gives (\<open>side\<close>). Entries before
  one the key is not below are below the key.
\<close>

locale ordered_probe =
  fixes searchable :: "'p \<Rightarrow> bool"
    and entries :: "'p \<Rightarrow> nat"
    and side :: "'p \<Rightarrow> 'k \<Rightarrow> nat \<Rightarrow> ordering"
    and probe :: "'p \<Rightarrow> 'k \<Rightarrow> nat \<Rightarrow> ordering outcome"
  assumes probe_ok: "searchable p \<Longrightarrow> i < entries p \<Longrightarrow> probe p k i = Ok (side p k i)"
    and side_mono: "searchable p \<Longrightarrow> i < j \<Longrightarrow> j < entries p \<Longrightarrow> side p k j \<noteq> Less \<Longrightarrow>
      side p k i = Greater"
begin

lemma side_above: "searchable p \<Longrightarrow> i < j \<Longrightarrow> j < entries p \<Longrightarrow> side p k i \<noteq> Greater \<Longrightarrow>
   side p k j = Less"
  using side_mono by blast

lemma search_invariant:
  assumes "searchable p" and "base + lim \<le> entries p"
    and "\<And>i. i < base \<Longrightarrow> side p k i = Greater"
    and "\<And>i. base + lim \<le> i \<Longrightarrow> i < entries p \<Longrightarrow> side p k i = Less"
  shows "\<exists>r. bsearch (probe p k) base lim = Ok r \<and>
     (case r of (found, i) \<Rightarrow>
        if found then i < entries p \<and> side p k i = Equal
        else i \<le> entries p \<and> (\<forall>j < i. side p k j = Greater) \<and>
             (\<forall>j. i \<le> j \<longrightarrow> j < entries p \<longrightarrow> side p k j = Less))"
  using assms
proof (induction "probe p k" base lim rule: bsearch.induct)
  case (1 base lim)
  let ?idx = "base + lim div 2"
  show ?case
  proof (cases "lim > 0")
    case False
    with "1.prems" show ?thesis
      by (subst bsearch.simps) auto
  next
    case True
    then have idx: "?idx < base + lim" by auto
    with "1.prems" have pr: "probe p k ?idx = Ok (side p k ?idx)"
      by (intro probe_ok) auto
    show ?thesis
    proof (cases "side p k ?idx")
      case Less
      then have up: "\<And>i. base + lim div 2 \<le> i \<Longrightarrow> i < entries p \<Longrightarrow> side p k i = Less"
        using side_above [OF \<open>searchable p\<close>] by (metis le_neq_implies_less ordering.distinct(3))
      have "base + lim div 2 \<le> entries p" using "1.prems"(2) by auto
      from "1.hyps"(1) [OF True refl "1.prems"(1) this "1.prems"(3) up]
      show ?thesis using True pr Less by (subst bsearch.simps) (simp add: Let_def)
    next
      case Equal
      then show ?thesis
        using True pr idx "1.prems"(2) by (subst bsearch.simps) (simp add: Let_def)
    next
      case Greater
      have low: "\<And>i. i < ?idx + 1 \<Longrightarrow> side p k i = Greater"
      proof -
        fix i assume "i < ?idx + 1"
        then consider "i = ?idx" | "i < ?idx" by linarith
        then show "side p k i = Greater"
          using Greater side_mono [OF \<open>searchable p\<close>, of i ?idx k] idx "1.prems"(2) by cases auto
      qed
      have sum: "?idx + 1 + (lim - 1) div 2 = base + lim" using True by linarith
      from "1.hyps"(2) [OF True refl "1.prems"(1) _ low] "1.prems"(2,4)
      show ?thesis unfolding sum
        using True pr Greater by (subst bsearch.simps) (simp add: Let_def)
    qed
  qed
qed

text \<open>The result of a search over the whole page.\<close>

lemma search_result:
  assumes "searchable p"
  obtains i where "bsearch (probe p k) 0 (entries p) = Ok (True, i)" "i < entries p"
      "side p k i = Equal"
  | i where "bsearch (probe p k) 0 (entries p) = Ok (False, i)" "i \<le> entries p"
      "\<And>j. j < i \<Longrightarrow> side p k j = Greater"
      "\<And>j. i \<le> j \<Longrightarrow> j < entries p \<Longrightarrow> side p k j = Less"
  using search_invariant [OF assms, of 0 "entries p" k] by (auto split: if_splits)

end

end
