(* ===== verification/Db.thy ===== *)
theory Db
  imports Page Search
begin

text \<open>
  The database handle (src/src/db.rs): validation of the meta page, page access, tree
  descent, overflow chains. The file system is a map from paths to contents, and
  \<open>Mmap::map\<close> of the package memmap2, whose code is not in the repository, is the argument
  \<open>mmap_map\<close>. A descent that follows the child links of a file for ever does not return,
  so \<open>search\<close> and \<open>get\<close> have an optional result.
\<close>

record db =
  db_mmap :: bytes
  db_psize :: nat
  db_swap :: bool

record position =
  pos_pgno :: u32
  pos_index :: nat

section \<open>Opening\<close>

text \<open>The part of \<open>Db::open\<close> after the file is mapped.\<close>

definition open_mapped :: "endian \<Rightarrow> bytes \<Rightarrow> db outcome" where
  "open_mapped h mmap =
     (if length mmap < META_SIZE then Err ShortFile
      else
        let (meta, swap) = meta_parse h (sub mmap 0 META_SIZE) in
        if m_magic meta \<noteq> BTREE_MAGIC then Err (BadMagic (m_magic meta))
        else if m_version meta \<noteq> BTREE_VERSION then Err (BadVersion (m_version meta))
        else
          let psize = unat (m_psize meta) in
          if \<not> (MIN_PSIZE \<le> psize \<and> psize \<le> MAX_PSIZE) \<or> psize AND 1 \<noteq> 0 then
            Err (BadPageSize (m_psize meta))
          else if m_flags meta AND NOT SAVEMETA \<noteq> 0 \<or> m_flags meta AND R_RECNO \<noteq> 0 then
            Err (UnsupportedFlags (m_flags meta))
          else if length mmap mod psize \<noteq> 0 then
            Err (UnalignedFileLength (of_nat (length mmap)) (m_psize meta))
          else Ok \<lparr>db_mmap = mmap, db_psize = psize, db_swap = swap\<rparr>)"

definition db_open ::
  "endian \<Rightarrow> (bytes \<Rightarrow> io_error + bytes) \<Rightarrow> filesystem \<Rightarrow> string \<Rightarrow> db outcome" where
  "db_open h mmap_map fs path =
     (case fs path of
        None \<Rightarrow> Err (Io NotFound)
      | Some file \<Rightarrow>
          (case mmap_map file of
             Inl e \<Rightarrow> Err (Io e)
           | Inr mmap \<Rightarrow> open_mapped h mmap))"

definition db_page :: "db \<Rightarrow> u32 \<Rightarrow> bytes outcome" where
  "db_page d pgno =
     (let start = unat pgno * db_psize d; end = start + db_psize d
      in ok_or (get_range (db_mmap d) start end) (PageOutOfBounds pgno))"

definition db_view :: "endian \<Rightarrow> db \<Rightarrow> u32 \<Rightarrow> page_view outcome" where
  \<comment> \<open>\<open>PageView::parse(pgno, self.page(pgno)?, self.swap)?\<close>\<close>
  "db_view h d pgno = and_then (db_page d pgno) (\<lambda>b. pv_parse h pgno b (db_swap d))"

section \<open>Overflow chains\<close>

text \<open>
  \<open>compare_overflow\<close> and \<open>fetch_overflow\<close> make progress by \<open>payload_per_page\<close> bytes in
  every round. It is positive in every handle that \<open>Db::open\<close> returns, whose page size is
  at least 512; the case of zero, where the loops of the code would make no progress, is
  excluded by a panic so that the functions are total.
\<close>

lemma overflow_progress:
  "p \<noteq> 0 \<Longrightarrow> c < t \<Longrightarrow> t - (c + min (t - c) p) < t - (c :: nat)"
  by linarith

function compare_overflow_loop ::
  "endian \<Rightarrow> db \<Rightarrow> bytes \<Rightarrow> u32 \<Rightarrow> nat \<Rightarrow> nat \<Rightarrow> u32 \<Rightarrow> nat \<Rightarrow> ordering outcome" where
  "compare_overflow_loop h d key start_pgno payload_per_page tot pgno consumed =
     (if payload_per_page = 0 then Panic
      else if consumed < tot then
        if pgno = P_INVALID then Err (CorruptOverflow start_pgno)
        else
          and_then (db_view h d pgno) (\<lambda>view.
          if \<not> pv_is_overflow view then Err (CorruptOverflow start_pgno)
          else
            let take_n = min (tot - consumed) payload_per_page in
            and_then (pv_overflow_payload view) (\<lambda>payload.
            if take_n > length payload then Err (CorruptOverflow start_pgno)
            else
              let other = take take_n payload in
              if consumed \<ge> length key then Ok Less
              else
                let key_rest = drop consumed key; cmp_len = min (length key_rest) (length other) in
                (case cmp_bytes (take cmp_len key_rest) (take cmp_len other) of
                   Less \<Rightarrow> Ok Less
                 | Greater \<Rightarrow> Ok Greater
                 | Equal \<Rightarrow>
                     if length key_rest < length other then Ok Less
                     else compare_overflow_loop h d key start_pgno payload_per_page tot
                            (pv_next_pg view) (consumed + take_n))))
      else Ok (cmp_nat (length key) tot))"
  by pat_completeness auto
termination
  apply (relation "measure (\<lambda>(h, d, key, start_pgno, ppp, tot, pgno, consumed). tot - consumed)")
  subgoal by simp
  subgoal by (simp only: in_measure case_prod_conv) (rule overflow_progress)
  done

declare compare_overflow_loop.simps [simp del]

definition compare_overflow :: "endian \<Rightarrow> db \<Rightarrow> bytes \<Rightarrow> u32 \<Rightarrow> u32 \<Rightarrow> ordering outcome" where
  "compare_overflow h d key start_pgno sz =
     and_then (usub (db_psize d) PAGE_HEADER_SIZE) (\<lambda>payload_per_page.
     compare_overflow_loop h d key start_pgno payload_per_page (unat sz) start_pgno 0)"

function fetch_overflow_loop ::
  "endian \<Rightarrow> db \<Rightarrow> u32 \<Rightarrow> nat \<Rightarrow> u32 \<Rightarrow> nat \<Rightarrow> bytes \<Rightarrow> bytes outcome" where
  "fetch_overflow_loop h d start_pgno payload_per_page pgno remaining out =
     (if payload_per_page = 0 then Panic
      else if remaining > 0 then
        if pgno = P_INVALID then Err (CorruptOverflow start_pgno)
        else
          and_then (db_view h d pgno) (\<lambda>view.
          if \<not> pv_is_overflow view then Err (CorruptOverflow start_pgno)
          else
            let take_n = min remaining payload_per_page in
            and_then (pv_overflow_payload view) (\<lambda>payload.
            if take_n > length payload then Err (CorruptOverflow start_pgno)
            else fetch_overflow_loop h d start_pgno payload_per_page (pv_next_pg view)
                   (remaining - take_n) (out @ take take_n payload)))
      else Ok out)"
  by pat_completeness auto
termination
  apply (relation "measure (\<lambda>(h, d, start_pgno, ppp, pgno, remaining, out). remaining)")
  subgoal by simp
  subgoal by (simp only: in_measure case_prod_conv)
  done

declare fetch_overflow_loop.simps [simp del]

definition fetch_overflow :: "endian \<Rightarrow> db \<Rightarrow> u32 \<Rightarrow> u32 \<Rightarrow> bytes outcome" where
  "fetch_overflow h d start_pgno sz =
     and_then (usub (db_psize d) PAGE_HEADER_SIZE) (\<lambda>payload_per_page.
     fetch_overflow_loop h d start_pgno payload_per_page start_pgno (unat sz) [])"

definition materialise :: "endian \<Rightarrow> db \<Rightarrow> page_view \<Rightarrow> item_ref \<Rightarrow> bytes outcome" where
  "materialise h d view item =
     (case item of
        Inline _ _ \<Rightarrow> pv_inline view item
      | Overflow pgno sz \<Rightarrow> fetch_overflow h d pgno sz)"

definition compare_item :: "endian \<Rightarrow> db \<Rightarrow> bytes \<Rightarrow> page_view \<Rightarrow> item_ref \<Rightarrow> ordering outcome" where
  "compare_item h d key view item =
     (case item of
        Inline _ _ \<Rightarrow> and_then (pv_inline view item) (\<lambda>b. Ok (cmp_bytes key b))
      | Overflow pgno sz \<Rightarrow> compare_overflow h d key pgno sz)"

section \<open>Descent\<close>

definition leaf_probe :: "endian \<Rightarrow> db \<Rightarrow> page_view \<Rightarrow> bytes \<Rightarrow> nat \<Rightarrow> ordering outcome" where
  "leaf_probe h d view key idx =
     and_then (pv_leaf_entry h view idx) (\<lambda>entry. compare_item h d key view (le_key entry))"

definition search_leaf :: "endian \<Rightarrow> db \<Rightarrow> page_view \<Rightarrow> bytes \<Rightarrow> position option outcome" where
  "search_leaf h d view key =
     and_then (bsearch (leaf_probe h d view key) 0 (pv_nentries view)) (\<lambda>(found, idx).
     Ok (if found then Some \<lparr>pos_pgno = pv_pgno view, pos_index = idx\<rparr> else None))"

definition internal_probe ::
  "endian \<Rightarrow> db \<Rightarrow> page_view \<Rightarrow> bool \<Rightarrow> bytes \<Rightarrow> nat \<Rightarrow> ordering outcome" where
  "internal_probe h d view leftmost_spine key idx =
     and_then (pv_internal_entry h view idx) (\<lambda>entry.
     if idx = 0 \<and> leftmost_spine then Ok Greater
     else compare_item h d key view (ie_key entry))"

definition descend_internal :: "endian \<Rightarrow> db \<Rightarrow> page_view \<Rightarrow> bytes \<Rightarrow> u32 outcome" where
  "descend_internal h d view key =
     (let leftmost_spine = (pv_prev_pg view = P_INVALID) in
      and_then (bsearch (internal_probe h d view leftmost_spine key) 0 (pv_nentries view)) (\<lambda>r.
      and_then (pv_internal_entry h view (chosen_slot r)) (\<lambda>entry. Ok (ie_child entry))))"

partial_function (option) search_from ::
  "endian \<Rightarrow> db \<Rightarrow> bytes \<Rightarrow> u32 \<Rightarrow> position option outcome option" where
  "search_from h d key pgno =
     (case db_view h d pgno of
        Err e \<Rightarrow> Some (Err e)
      | Panic \<Rightarrow> Some Panic
      | Ok view \<Rightarrow>
          if pv_is_leaf view then Some (search_leaf h d view key)
          else if \<not> pv_is_internal view then
            Some (Err (CorruptPage pgno ''non-internal page during descent''))
          else
            (case descend_internal h d view key of
               Err e \<Rightarrow> Some (Err e)
             | Panic \<Rightarrow> Some Panic
             | Ok child \<Rightarrow> search_from h d key child))"

declare search_from.simps [code]

definition search :: "endian \<Rightarrow> db \<Rightarrow> bytes \<Rightarrow> position option outcome option" where
  "search h d key = search_from h d key P_ROOT"

definition db_get :: "endian \<Rightarrow> db \<Rightarrow> bytes \<Rightarrow> bytes option outcome option" where
  "db_get h d key =
     (case search h d key of
        None \<Rightarrow> None
      | Some r \<Rightarrow> Some (and_then r (\<lambda>found.
          (case found of
             None \<Rightarrow> Ok None
           | Some pos \<Rightarrow>
               and_then (db_view h d (pos_pgno pos)) (\<lambda>view.
               and_then (pv_leaf_entry h view (pos_index pos)) (\<lambda>entry.
               and_then (materialise h d view (le_data entry)) (\<lambda>v. Ok (Some v))))))))"

end
