(* ===== verification/Iter.thy ===== *)
theory Iter
  imports Db
begin

text \<open>
  The forward sequential scan (src/src/iter.rs). The iterator borrows the database and keeps
  a state: not started, positioned on an entry of a loaded leaf, or finished. \<open>next\<close> returns
  the item (\<open>None\<close> at the end) and the iterator afterwards; walking the leaf chain or the
  left spine of a damaged file may not return, which is the outer \<open>None\<close>.
\<close>

record cursor =
  cur_view :: page_view
  cur_index :: nat

datatype iter_state = Pristine | Active cursor | Done

record iter =
  it_db :: db
  it_state :: iter_state

record entry =
  entry_key :: bytes
  entry_value :: bytes

definition into_parts :: "entry \<Rightarrow> bytes \<times> bytes" where
  "into_parts e = (entry_key e, entry_value e)"

definition iter_new :: "db \<Rightarrow> iter" where
  "iter_new d = \<lparr>it_db = d, it_state = Pristine\<rparr>"

partial_function (option) initial_state_from ::
  "endian \<Rightarrow> db \<Rightarrow> u32 \<Rightarrow> iter_state outcome option" where
  "initial_state_from h d pgno =
     (case db_view h d pgno of
        Err e \<Rightarrow> Some (Err e)
      | Panic \<Rightarrow> Some Panic
      | Ok view \<Rightarrow>
          if pv_nentries view = 0 then Some (Ok Done)
          else if pv_is_leaf view then Some (Ok (Active \<lparr>cur_view = view, cur_index = 0\<rparr>))
          else if \<not> pv_is_internal view then
            Some (Err (CorruptPage pgno ''non-internal page during seq descent''))
          else
            (case pv_internal_entry h view 0 of
               Err e \<Rightarrow> Some (Err e)
             | Panic \<Rightarrow> Some Panic
             | Ok entry \<Rightarrow> initial_state_from h d (ie_child entry)))"

declare initial_state_from.simps [code]

definition initial_state :: "endian \<Rightarrow> iter \<Rightarrow> iter_state outcome option" where
  "initial_state h it = initial_state_from h (it_db it) P_ROOT"

partial_function (option) advance_leaf ::
  "endian \<Rightarrow> db \<Rightarrow> u32 \<Rightarrow> iter_state outcome option" where
  "advance_leaf h d next_pg =
     (if next_pg \<noteq> P_INVALID then
        (case db_view h d next_pg of
           Err e \<Rightarrow> Some (Err e)
         | Panic \<Rightarrow> Some Panic
         | Ok view \<Rightarrow>
             if \<not> pv_is_leaf view then
               Some (Err (CorruptPage next_pg ''seq sibling is not a leaf''))
             else if pv_nentries view > 0 then
               Some (Ok (Active \<lparr>cur_view = view, cur_index = 0\<rparr>))
             else advance_leaf h d (pv_next_pg view))
      else Some (Ok Done))"

declare advance_leaf.simps [code]

text \<open>
  \<open>yield_current\<close>, with the state the iterator is left in. The caller has already replaced
  the state by \<open>Done\<close>, which stays when an error is returned.
\<close>

definition yield_current ::
  "endian \<Rightarrow> db \<Rightarrow> cursor \<Rightarrow> (entry outcome \<times> iter_state) option" where
  "yield_current h d cur =
     (case and_then (pv_leaf_entry h (cur_view cur) (cur_index cur)) (\<lambda>leaf.
           and_then (materialise h d (cur_view cur) (le_key leaf)) (\<lambda>key.
           and_then (materialise h d (cur_view cur) (le_data leaf)) (\<lambda>value.
           Ok \<lparr>entry_key = key, entry_value = value\<rparr>))) of
        Err e \<Rightarrow> Some (Err e, Done)
      | Panic \<Rightarrow> Some (Panic, Done)
      | Ok ent \<Rightarrow>
          if cur_index cur + 1 < pv_nentries (cur_view cur) then
            Some (Ok ent, Active (cur\<lparr>cur_index := cur_index cur + 1\<rparr>))
          else
            (case advance_leaf h d (pv_next_pg (cur_view cur)) of
               None \<Rightarrow> None
             | Some (Ok st) \<Rightarrow> Some (Ok ent, st)
             | Some (Err e) \<Rightarrow> Some (Err e, Done)
             | Some Panic \<Rightarrow> Some (Panic, Done)))"

partial_function (option) iter_next :: "endian \<Rightarrow> iter \<Rightarrow> (entry outcome option \<times> iter) option" where
  "iter_next h it =
     (case it_state it of
        Done \<Rightarrow> Some (None, it)
      | Pristine \<Rightarrow>
          (case initial_state h it of
             None \<Rightarrow> None
           | Some (Ok st) \<Rightarrow> iter_next h (it\<lparr>it_state := st\<rparr>)
           | Some (Err e) \<Rightarrow> Some (Some (Err e), it\<lparr>it_state := Done\<rparr>)
           | Some Panic \<Rightarrow> Some (Some Panic, it\<lparr>it_state := Done\<rparr>))
      | Active cur \<Rightarrow>
          (case yield_current h (it_db it) cur of
             None \<Rightarrow> None
           | Some (r, st) \<Rightarrow> Some (Some r, it\<lparr>it_state := st\<rparr>)))"

declare iter_next.simps [code]

text \<open>
  A \<open>for\<close> loop over the database: the items of the first \<open>n\<close> calls of \<open>next\<close>, up to the
  end of the iteration.
\<close>

fun iter_collect :: "nat \<Rightarrow> endian \<Rightarrow> iter \<Rightarrow> (entry outcome list \<times> bool) option" where
  "iter_collect 0 h it = Some ([], False)"
| "iter_collect (Suc n) h it =
     (case iter_next h it of
        None \<Rightarrow> None
      | Some (None, it') \<Rightarrow> Some ([], True)
      | Some (Some r, it') \<Rightarrow>
          (case iter_collect n h it' of
             None \<Rightarrow> None
           | Some (rs, fin) \<Rightarrow> Some (r # rs, fin)))"

end
