(* ===== verification/Dump.thy ===== *)
theory Dump
  imports Iter
begin

text \<open>
  The example program src/examples/dump.rs: print all entries of a file, or the value of one
  key. The arguments, the file system and the standard output are explicit; the result is the
  exit code or the error that \<open>main\<close> returns with its context. Standard output is a state
  with the functions that write to it and flush it, which may fail.
\<close>

section \<open>Text of the standard library\<close>

definition ascii :: "string \<Rightarrow> bytes" where
  "ascii s = map of_char s"

text \<open>
  \<open>String::from_utf8_lossy\<close> (and \<open>OsStr::to_string_lossy\<close> on Unix): the length of the next
  character, or of the invalid sequence, at the front of the bytes and whether it is valid;
  every invalid sequence becomes U+FFFD.
\<close>

definition byte_or_zero :: "bytes \<Rightarrow> nat \<Rightarrow> u8" where
  "byte_or_zero bs i = (if i < length bs then bs ! i else 0)"

definition is_cont :: "u8 \<Rightarrow> bool" where
  "is_cont b \<longleftrightarrow> 0x80 \<le> b \<and> b \<le> 0xBF"

definition second_of_three :: "u8 \<Rightarrow> u8 \<Rightarrow> bool" where
  "second_of_three b c \<longleftrightarrow>
     (if b = 0xE0 then 0xA0 \<le> c \<and> c \<le> 0xBF
      else if b = 0xED then 0x80 \<le> c \<and> c \<le> 0x9F
      else is_cont c)"

definition second_of_four :: "u8 \<Rightarrow> u8 \<Rightarrow> bool" where
  "second_of_four b c \<longleftrightarrow>
     (if b = 0xF0 then 0x90 \<le> c \<and> c \<le> 0xBF
      else if b = 0xF4 then 0x80 \<le> c \<and> c \<le> 0x8F
      else is_cont c)"

definition utf8_step :: "u8 \<Rightarrow> bytes \<Rightarrow> nat \<times> bool" where
  "utf8_step b rest =
     (let c1 = byte_or_zero rest 0; c2 = byte_or_zero rest 1; c3 = byte_or_zero rest 2 in
      if b < 0x80 then (1, True)
      else if 0xC2 \<le> b \<and> b \<le> 0xDF then
        (if is_cont c1 then (2, True) else (1, False))
      else if 0xE0 \<le> b \<and> b \<le> 0xEF then
        (if \<not> second_of_three b c1 then (1, False)
         else if is_cont c2 then (3, True) else (2, False))
      else if 0xF0 \<le> b \<and> b \<le> 0xF4 then
        (if \<not> second_of_four b c1 then (1, False)
         else if \<not> is_cont c2 then (2, False)
         else if is_cont c3 then (4, True) else (3, False))
      else (1, False))"

function utf8_lossy :: "bytes \<Rightarrow> bytes" where
  "utf8_lossy [] = []"
| "utf8_lossy (b # rest) =
     (case utf8_step b rest of (n, valid) \<Rightarrow>
        (if valid then take n (b # rest) else [0xEF, 0xBF, 0xBD]) @ utf8_lossy (drop (n - 1) rest))"
  by pat_completeness auto
termination by (relation "measure length") auto

lemma utf8_lossy_ascii: "list_all (\<lambda>b. b < 0x80) bs \<Longrightarrow> utf8_lossy bs = bs"
  by (induction bs) (simp_all add: utf8_step_def Let_def)

section \<open>Output\<close>

text \<open>
  \<open>out_write\<close> writes all of the bytes, \<open>out_flush\<close> flushes; an error is returned with the
  state it leaves.
\<close>

record 'w sink =
  out_write :: "'w \<Rightarrow> bytes \<Rightarrow> io_error option \<times> 'w"
  out_flush :: "'w \<Rightarrow> io_error option \<times> 'w"

fun write_seq :: "'w sink \<Rightarrow> 'w \<Rightarrow> bytes list \<Rightarrow> io_error option \<times> 'w" where
  "write_seq s out [] = (None, out)"
| "write_seq s out (b # bs) =
     (case out_write s out b of
        (Some e, out') \<Rightarrow> (Some e, out')
      | (None, out') \<Rightarrow> write_seq s out' bs)"

definition trim_nul :: "bytes \<Rightarrow> bytes" where
  "trim_nul bs = (if bs \<noteq> [] \<and> last bs = 0 then butlast bs else bs)"

definition write_pair :: "'w sink \<Rightarrow> 'w \<Rightarrow> bytes \<Rightarrow> bytes \<Rightarrow> io_error option \<times> 'w" where
  "write_pair s out key val =
     write_seq s out [ascii ''file: '', trim_nul key, ascii '' pkg: '', trim_nul val, [10]]"

section \<open>The program\<close>

datatype error_context = Opening bytes | Looking_Up bytes | Iterating | Writing | Flushing

datatype cause = Crate_Error error | Io_Error io_error

datatype exit = Exit_Code nat | Failed error_context cause | Panicked

text \<open>
  \<open>Db::iter\<close>, \<open>IntoIterator for &Db\<close>, and the loop over the entries with the final flush.
  On an early return the buffered writer is dropped, which flushes it and ignores an error.
\<close>

definition db_iter :: "db \<Rightarrow> iter" where
  "db_iter d = iter_new d"

definition into_iter :: "db \<Rightarrow> iter" where
  "into_iter d = db_iter d"

definition dropped :: "'w sink \<Rightarrow> 'w \<Rightarrow> 'w" where
  "dropped s out = snd (out_flush s out)"

partial_function (option) dump_entries ::
  "endian \<Rightarrow> 'w sink \<Rightarrow> iter \<Rightarrow> 'w \<Rightarrow> (exit \<times> 'w) option" where
  "dump_entries h s it out =
     (case iter_next h it of
        None \<Rightarrow> None
      | Some (None, it') \<Rightarrow>
          (case out_flush s out of
             (Some e, out') \<Rightarrow> Some (Failed Flushing (Io_Error e), dropped s out')
           | (None, out') \<Rightarrow> Some (Exit_Code 0, out'))
      | Some (Some (Err e), it') \<Rightarrow> Some (Failed Iterating (Crate_Error e), dropped s out)
      | Some (Some Panic, it') \<Rightarrow> Some (Panicked, dropped s out)
      | Some (Some (Ok ent), it') \<Rightarrow>
          (case write_pair s out (entry_key ent) (entry_value ent) of
             (Some e, out') \<Rightarrow> Some (Failed Writing (Io_Error e), dropped s out')
           | (None, out') \<Rightarrow> dump_entries h s it' out'))"

definition dump_key :: "endian \<Rightarrow> 'w sink \<Rightarrow> db \<Rightarrow> bytes \<Rightarrow> 'w \<Rightarrow> (exit \<times> 'w) option" where
  "dump_key h s d k out =
     (case db_get h d (utf8_lossy k @ [0]) of
        None \<Rightarrow> None
      | Some (Err e) \<Rightarrow> Some (Failed (Looking_Up (utf8_lossy k)) (Crate_Error e), out)
      | Some Panic \<Rightarrow> Some (Panicked, out)
      | Some (Ok None) \<Rightarrow> Some (Exit_Code 1, out)
      | Some (Ok (Some v)) \<Rightarrow>
          (case out_write s out (utf8_lossy (trim_nul v) @ [10]) of
             (Some e, out') \<Rightarrow> Some (Panicked, out')
           | (None, out') \<Rightarrow> Some (Exit_Code 0, out')))"

text \<open>The name of a file from the bytes of an argument.\<close>

definition os_path :: "bytes \<Rightarrow> string" where
  "os_path bs = map (\<lambda>b. char_of (unat b)) bs"

text \<open>
  \<open>main\<close>: the arguments after the program name, standard output, and what is written to
  standard error.
\<close>

definition usage :: bytes where
  "usage = ascii ''usage: dump <file.db> [key]'' @ [10]"

definition dump_main ::
  "endian \<Rightarrow> (bytes \<Rightarrow> io_error + bytes) \<Rightarrow> filesystem \<Rightarrow> 'w sink \<Rightarrow> bytes list \<Rightarrow> 'w \<Rightarrow>
   (exit \<times> 'w \<times> bytes) option" where
  "dump_main h mmap_map fs s args out =
     (case args of
        [] \<Rightarrow> Some (Exit_Code 2, out, usage)
      | path # rest \<Rightarrow>
          if length rest > 1 then Some (Exit_Code 2, out, usage)
          else
            (case db_open h mmap_map fs (os_path path) of
               Err e \<Rightarrow> Some (Failed (Opening (utf8_lossy path)) (Crate_Error e), out, [])
             | Panic \<Rightarrow> Some (Panicked, out, [])
             | Ok d \<Rightarrow>
                 map_option (\<lambda>(r, out'). (r, out', []))
                   (case rest of
                      k # _ \<Rightarrow> dump_key h s d k out
                    | [] \<Rightarrow> dump_entries h s (into_iter d) out)))"

end
