(* ===== verification/Page_Buf.thy ===== *)
theory Page_Buf
  imports Format
begin

text \<open>
  Typed views over a writer-owned page buffer (src/src/writer/page_buf.rs). A \<open>PageBufRef\<close>
  or \<open>PageBufMut\<close> is the byte buffer of one page: a reader takes the buffer, a setter
  returns the changed buffer. The assertions of the code are unconditional and panic.
\<close>

definition pb_read_u16 :: "endian \<Rightarrow> bytes \<Rightarrow> nat \<Rightarrow> u16 outcome" where
  "pb_read_u16 h buf off =
     and_then (index buf off) (\<lambda>b0. and_then (index buf (off + 1)) (\<lambda>b1.
     Ok (u16_from_ne_bytes h [b0, b1])))"

definition pb_read_u32 :: "endian \<Rightarrow> bytes \<Rightarrow> nat \<Rightarrow> u32 outcome" where
  "pb_read_u32 h buf off =
     and_then (index buf off) (\<lambda>b0. and_then (index buf (off + 1)) (\<lambda>b1.
     and_then (index buf (off + 2)) (\<lambda>b2. and_then (index buf (off + 3)) (\<lambda>b3.
     Ok (u32_from_ne_bytes h [b0, b1, b2, b3])))))"

definition pb_write_u16 :: "endian \<Rightarrow> bytes \<Rightarrow> nat \<Rightarrow> u16 \<Rightarrow> bytes outcome" where
  "pb_write_u16 h buf off v = copy_from_slice buf off (off + 2) (u16_to_ne_bytes h v)"

definition pb_write_u32 :: "endian \<Rightarrow> bytes \<Rightarrow> nat \<Rightarrow> u32 \<Rightarrow> bytes outcome" where
  "pb_write_u32 h buf off v = copy_from_slice buf off (off + 4) (u32_to_ne_bytes h v)"

definition page_offset_as_u16 :: "nat \<Rightarrow> u16 outcome" where
  "page_offset_as_u16 off =
     and_then (assert_that (off \<le> MAX_PSIZE)) (\<lambda>_.
     if off < 2 ^ 16 then Ok (of_nat off) else Panic)"

section \<open>Reading the header and the slots\<close>

definition pb_prev_pg :: "endian \<Rightarrow> bytes \<Rightarrow> u32 outcome" where
  "pb_prev_pg h buf = pb_read_u32 h buf 4"

definition pb_next_pg :: "endian \<Rightarrow> bytes \<Rightarrow> u32 outcome" where
  "pb_next_pg h buf = pb_read_u32 h buf 8"

definition pb_flags :: "endian \<Rightarrow> bytes \<Rightarrow> u32 outcome" where
  "pb_flags h buf = pb_read_u32 h buf 12"

definition pb_lower :: "endian \<Rightarrow> bytes \<Rightarrow> nat outcome" where
  "pb_lower h buf = and_then (pb_read_u16 h buf 16) (\<lambda>v. Ok (unat v))"

definition pb_upper :: "endian \<Rightarrow> bytes \<Rightarrow> nat outcome" where
  "pb_upper h buf = and_then (pb_read_u16 h buf 18) (\<lambda>v. Ok (unat v))"

definition pb_nentries :: "endian \<Rightarrow> bytes \<Rightarrow> nat outcome" where
  "pb_nentries h buf =
     and_then (pb_lower h buf) (\<lambda>lower.
     and_then (usub lower PAGE_HEADER_SIZE) (\<lambda>d. Ok (d div 2)))"

definition pb_free_space :: "endian \<Rightarrow> bytes \<Rightarrow> nat outcome" where
  "pb_free_space h buf =
     and_then (pb_upper h buf) (\<lambda>upper. and_then (pb_lower h buf) (\<lambda>lower. usub upper lower))"

definition pb_is_leaf :: "endian \<Rightarrow> bytes \<Rightarrow> bool outcome" where
  "pb_is_leaf h buf = and_then (pb_flags h buf) (\<lambda>f. Ok (f AND P_BLEAF \<noteq> 0))"

definition pb_is_rightmost :: "endian \<Rightarrow> bytes \<Rightarrow> bool outcome" where
  "pb_is_rightmost h buf = and_then (pb_next_pg h buf) (\<lambda>p. Ok (p = P_INVALID))"

definition pb_linp :: "endian \<Rightarrow> bytes \<Rightarrow> nat \<Rightarrow> u16 outcome" where
  "pb_linp h buf i = pb_read_u16 h buf (PAGE_HEADER_SIZE + i * 2)"

section \<open>Writing the header and the slots\<close>

definition pb_set_pgno :: "endian \<Rightarrow> bytes \<Rightarrow> u32 \<Rightarrow> bytes outcome" where
  "pb_set_pgno h buf v = pb_write_u32 h buf 0 v"

definition pb_set_prev_pg :: "endian \<Rightarrow> bytes \<Rightarrow> u32 \<Rightarrow> bytes outcome" where
  "pb_set_prev_pg h buf v = pb_write_u32 h buf 4 v"

definition pb_set_next_pg :: "endian \<Rightarrow> bytes \<Rightarrow> u32 \<Rightarrow> bytes outcome" where
  "pb_set_next_pg h buf v = pb_write_u32 h buf 8 v"

definition pb_set_flags :: "endian \<Rightarrow> bytes \<Rightarrow> u32 \<Rightarrow> bytes outcome" where
  "pb_set_flags h buf v = pb_write_u32 h buf 12 v"

definition pb_set_lower :: "endian \<Rightarrow> bytes \<Rightarrow> nat \<Rightarrow> bytes outcome" where
  "pb_set_lower h buf v =
     and_then (assert_that (v \<le> MAX_PSIZE)) (\<lambda>_.
     and_then (page_offset_as_u16 v) (\<lambda>v16. pb_write_u16 h buf 16 v16))"

definition pb_set_upper :: "endian \<Rightarrow> bytes \<Rightarrow> nat \<Rightarrow> bytes outcome" where
  "pb_set_upper h buf v =
     and_then (assert_that (v \<le> MAX_PSIZE)) (\<lambda>_.
     and_then (page_offset_as_u16 v) (\<lambda>v16. pb_write_u16 h buf 18 v16))"

definition pb_set_linp :: "endian \<Rightarrow> bytes \<Rightarrow> nat \<Rightarrow> nat \<Rightarrow> bytes outcome" where
  "pb_set_linp h buf i v =
     and_then (assert_that (v < MAX_PSIZE)) (\<lambda>_.
     and_then (page_offset_as_u16 v) (\<lambda>v16. pb_write_u16 h buf (PAGE_HEADER_SIZE + i * 2) v16))"

section \<open>Reserving a slot\<close>

definition pb_reserve_slot :: "endian \<Rightarrow> bytes \<Rightarrow> nat \<Rightarrow> nat \<Rightarrow> (bytes \<times> nat) outcome" where
  "pb_reserve_slot h buf idx nbytes =
     and_then (pb_nentries h buf) (\<lambda>n.
     and_then (assert_that (idx \<le> n)) (\<lambda>_.
     and_then (assert_that (nbytes = align_entry nbytes)) (\<lambda>_.
     and_then (pb_free_space h buf) (\<lambda>free.
     and_then (assert_that (free \<ge> nbytes + 2)) (\<lambda>_.
     and_then (pb_lower h buf) (\<lambda>lower.
     and_then (pb_upper h buf) (\<lambda>upper.
     and_then
       (if idx < n then
          let start = PAGE_HEADER_SIZE + idx * 2; end = PAGE_HEADER_SIZE + n * 2
          in copy_within buf start end (start + 2)
        else Ok buf) (\<lambda>buf1.
     and_then (usub upper nbytes) (\<lambda>new_upper.
     and_then (pb_set_linp h buf1 idx new_upper) (\<lambda>buf2.
     and_then (pb_set_lower h buf2 (lower + 2)) (\<lambda>buf3.
     and_then (pb_set_upper h buf3 new_upper) (\<lambda>buf4.
     Ok (buf4, new_upper)))))))))))))"

section \<open>Reads and writes as ranges\<close>

text \<open>
  Each accessor is a read or a replacement of a fixed range. These equations are what the
  proofs about pages use instead of the definitions.
\<close>

lemma index_four:
  "off + 4 \<le> length buf \<Longrightarrow>
   and_then (index buf off) (\<lambda>b0. and_then (index buf (off + 1)) (\<lambda>b1.
   and_then (index buf (off + 2)) (\<lambda>b2. and_then (index buf (off + 3)) (\<lambda>b3. f [b0, b1, b2, b3]))))
   = f (sub buf off 4)"
  using four_bytes [of off buf] by (simp add: index_def)

lemma index_two:
  "off + 2 \<le> length buf \<Longrightarrow>
   and_then (index buf off) (\<lambda>b0. and_then (index buf (off + 1)) (\<lambda>b1. f [b0, b1]))
   = f (sub buf off 2)"
  using two_bytes [of off buf] by (simp add: index_def)

lemma pb_read_u16_eq:
  "off + 2 \<le> length buf \<Longrightarrow> pb_read_u16 h buf off = Ok (u16_from_ne_bytes h (sub buf off 2))"
  unfolding pb_read_u16_def by (rule index_two)

lemma pb_read_u32_eq:
  "off + 4 \<le> length buf \<Longrightarrow> pb_read_u32 h buf off = Ok (u32_from_ne_bytes h (sub buf off 4))"
  unfolding pb_read_u32_def by (rule index_four)

lemma pb_write_u16_eq:
  "off + 2 \<le> length buf \<Longrightarrow> pb_write_u16 h buf off v = Ok (splice buf off (u16_to_ne_bytes h v))"
  by (simp add: pb_write_u16_def copy_from_slice_def)

lemma pb_write_u32_eq:
  "off + 4 \<le> length buf \<Longrightarrow> pb_write_u32 h buf off v = Ok (splice buf off (u32_to_ne_bytes h v))"
  by (simp add: pb_write_u32_def copy_from_slice_def)

end
