(* ===== verification/Page_Facts.thy ===== *)
theory Page_Facts
  imports Page Page_Buf
begin

text \<open>
  What the accessors of both page views read: a header field or a slot is the integer at a
  fixed range of the buffer, in the byte order of the file. The validated view of the reader
  and the trusting view of the writer are two ways to get at the same fields.
\<close>

section \<open>Header fields\<close>

definition hd_pgno :: "endian \<Rightarrow> bytes \<Rightarrow> u32" where
  "hd_pgno e buf = u32_from_ne_bytes e (sub buf 0 4)"

definition hd_prev :: "endian \<Rightarrow> bytes \<Rightarrow> u32" where
  "hd_prev e buf = u32_from_ne_bytes e (sub buf 4 4)"

definition hd_next :: "endian \<Rightarrow> bytes \<Rightarrow> u32" where
  "hd_next e buf = u32_from_ne_bytes e (sub buf 8 4)"

definition hd_flags :: "endian \<Rightarrow> bytes \<Rightarrow> u32" where
  "hd_flags e buf = u32_from_ne_bytes e (sub buf 12 4)"

definition hd_lower :: "endian \<Rightarrow> bytes \<Rightarrow> nat" where
  "hd_lower e buf = unat (u16_from_ne_bytes e (sub buf 16 2))"

definition hd_upper :: "endian \<Rightarrow> bytes \<Rightarrow> nat" where
  "hd_upper e buf = unat (u16_from_ne_bytes e (sub buf 18 2))"

definition hd_linp :: "endian \<Rightarrow> bytes \<Rightarrow> nat \<Rightarrow> nat" where
  "hd_linp e buf i = unat (u16_from_ne_bytes e (sub buf (20 + 2 * i) 2))"

lemmas hd_defs = hd_pgno_def hd_prev_def hd_next_def hd_flags_def hd_lower_def hd_upper_def hd_linp_def

lemma hd_bounds [word_sizes]: "hd_lower e buf < 65536" "hd_upper e buf < 65536" "hd_linp e buf i < 65536"
  by (simp_all add: hd_defs word_sizes)

section \<open>The view of the reader\<close>

lemma read_u16_bytes_eq: "length b = 2 \<Longrightarrow> read_u16_bytes h b swap = u16_from_ne_bytes (eff h swap) b"
  by (simp add: read_u16_bytes_def u16c.swap_dec Let_def)

lemma read_u32_bytes_eq: "length b = 4 \<Longrightarrow> read_u32_bytes h b swap = u32_from_ne_bytes (eff h swap) b"
  by (simp add: read_u32_bytes_def u32c.swap_dec Let_def)

lemma read_u16_eq:
  "off + 2 \<le> length buf \<Longrightarrow> read_u16 h buf off swap = Ok (u16_from_ne_bytes (eff h swap) (sub buf off 2))"
  using index_two [of off buf "\<lambda>b. Ok (read_u16_bytes h b swap)"]
  by (simp add: read_u16_def read_u16_bytes_eq)

lemma read_u32_eq:
  "off + 4 \<le> length buf \<Longrightarrow> read_u32 h buf off swap = Ok (u32_from_ne_bytes (eff h swap) (sub buf off 4))"
  using index_four [of off buf "\<lambda>b. Ok (read_u32_bytes h b swap)"]
  by (simp add: read_u32_def read_u32_bytes_eq)

text \<open>The header check of \<open>PageView::parse\<close>.\<close>

definition page_bounds_ok :: "endian \<Rightarrow> bytes \<Rightarrow> bool" where
  "page_bounds_ok e buf \<longleftrightarrow>
     20 \<le> hd_lower e buf \<and> hd_lower e buf \<le> hd_upper e buf \<and> hd_upper e buf \<le> length buf
     \<and> even (hd_lower e buf - 20)"

definition page_type_ok :: "u32 \<Rightarrow> bool" where
  "page_type_ok flags \<longleftrightarrow> flags AND P_TYPE \<in> {P_BINTERNAL, P_BLEAF, P_OVERFLOW}"

definition view_of :: "endian \<Rightarrow> u32 \<Rightarrow> bytes \<Rightarrow> bool \<Rightarrow> page_view" where
  "view_of h pgno buf swap =
     (let e = eff h swap in
      \<lparr>pv_pgno = pgno, pv_prev_pg = hd_prev e buf, pv_next_pg = hd_next e buf, pv_bytes = buf,
       pv_swap = swap, pv_flags = hd_flags e buf, pv_nentries = (hd_lower e buf - 20) div 2\<rparr>)"

lemma pv_parse_eq:
  "pv_parse h pgno buf swap =
     (if length buf < 20 then Err (CorruptPage pgno ''page shorter than header'')
      else if \<not> page_bounds_ok (eff h swap) buf then
        Err (CorruptPage pgno ''page bounds inconsistent'')
      else if \<not> page_type_ok (hd_flags (eff h swap) buf) then
        Err (CorruptPage pgno ''unsupported page type'')
      else Ok (view_of h pgno buf swap))"
proof (cases "length buf < 20")
  case True
  then show ?thesis by (simp add: pv_parse_def)
next
  case False
  have b: "(l < 20 \<or> u > n \<or> l > u \<or> (l - 20) mod 2 \<noteq> 0) \<longleftrightarrow>
      \<not> (20 \<le> l \<and> l \<le> u \<and> u \<le> n \<and> even (l - 20))" for l u n :: nat
    by (auto simp: even_iff_mod_2_eq_zero not_less not_le)
  have "page_type_ok f \<longleftrightarrow>
      (f AND P_TYPE = P_BINTERNAL \<or> f AND P_TYPE = P_BLEAF \<or> f AND P_TYPE = P_OVERFLOW)" for f
    by (simp add: page_type_ok_def)
  then show ?thesis
    using False b unfolding pv_parse_def page_bounds_ok_def view_of_def hd_defs
    by (simp add: read_u32_eq read_u16_eq Let_def)
qed

lemma pv_parse_OkD:
  assumes "pv_parse h pgno buf swap = Ok v"
  shows "v = view_of h pgno buf swap" "20 \<le> length buf" "page_bounds_ok (eff h swap) buf"
    "page_type_ok (hd_flags (eff h swap) buf)"
  using assms by (auto simp: pv_parse_eq split: if_splits)

lemma view_of_simps [simp]:
  "pv_pgno (view_of h pgno buf swap) = pgno"
  "pv_bytes (view_of h pgno buf swap) = buf"
  "pv_swap (view_of h pgno buf swap) = swap"
  "pv_prev_pg (view_of h pgno buf swap) = hd_prev (eff h swap) buf"
  "pv_next_pg (view_of h pgno buf swap) = hd_next (eff h swap) buf"
  "pv_flags (view_of h pgno buf swap) = hd_flags (eff h swap) buf"
  "pv_nentries (view_of h pgno buf swap) = (hd_lower (eff h swap) buf - 20) div 2"
  by (simp_all add: view_of_def Let_def)

section \<open>The view of the writer\<close>

lemma pb_header [simp]:
  assumes "20 \<le> length buf"
  shows "pb_prev_pg h buf = Ok (hd_prev h buf)" "pb_next_pg h buf = Ok (hd_next h buf)"
    "pb_flags h buf = Ok (hd_flags h buf)" "pb_lower h buf = Ok (hd_lower h buf)"
    "pb_upper h buf = Ok (hd_upper h buf)"
    "pb_is_leaf h buf = Ok (hd_flags h buf AND P_BLEAF \<noteq> 0)"
    "pb_is_rightmost h buf = Ok (hd_next h buf = P_INVALID)"
  using assms
  by (simp_all add: pb_prev_pg_def pb_next_pg_def pb_flags_def pb_lower_def pb_upper_def
      pb_is_leaf_def pb_is_rightmost_def pb_read_u32_eq pb_read_u16_eq hd_defs)

lemma pb_nentries_eq:
  "20 \<le> length buf \<Longrightarrow> 20 \<le> hd_lower h buf \<Longrightarrow> pb_nentries h buf = Ok ((hd_lower h buf - 20) div 2)"
  by (simp add: pb_nentries_def)

lemma pb_free_space_eq:
  "20 \<le> length buf \<Longrightarrow> hd_lower h buf \<le> hd_upper h buf \<Longrightarrow>
   pb_free_space h buf = Ok (hd_upper h buf - hd_lower h buf)"
  by (simp add: pb_free_space_def)

lemma pb_linp_eq:
  "22 + 2 * i \<le> length buf \<Longrightarrow>
   pb_linp h buf i = Ok (u16_from_ne_bytes h (sub buf (20 + 2 * i) 2))"
  by (simp add: pb_linp_def pb_read_u16_eq mult.commute)

section \<open>Decoding never panics\<close>

named_theorems no_panic_intros \<open>operations that return instead of panicking\<close>

lemma pv_parse_no_panic [no_panic_intros]: "no_panic (pv_parse h pgno buf swap)"
  by (simp add: pv_parse_eq)

lemma pv_inline_no_panic [no_panic_intros]: "no_panic (pv_inline v item)"
  by (auto simp: pv_inline_def Let_def intro!: no_panic_and_then split: item_ref.split)

lemma pv_byte_at_no_panic [no_panic_intros]: "no_panic (pv_byte_at v off)"
  by (simp add: pv_byte_at_def)

lemma pv_u16_at_no_panic [no_panic_intros]: "no_panic (pv_u16_at h v off)"
  by (auto simp: pv_u16_at_def intro!: no_panic_and_then)

lemma pv_u32_at_no_panic [no_panic_intros]: "no_panic (pv_u32_at h v off)"
  by (auto simp: pv_u32_at_def intro!: no_panic_and_then)

lemma pv_entry_offset_no_panic [no_panic_intros]: "no_panic (pv_entry_offset h v idx)"
  by (auto simp: pv_entry_offset_def intro!: no_panic_and_then no_panic_intros)

lemma pv_decode_item_no_panic [no_panic_intros]: "no_panic (pv_decode_item h v off len big)"
  by (auto simp: pv_decode_item_def intro!: no_panic_and_then no_panic_intros)

lemma pv_leaf_entry_no_panic [no_panic_intros]: "no_panic (pv_leaf_entry h v idx)"
  unfolding pv_leaf_entry_def Let_def
  by (intro no_panic_and_then no_panic_intros no_panic_ok_or)
    (auto intro!: no_panic_and_then no_panic_intros)

lemma pv_internal_entry_no_panic [no_panic_intros]: "no_panic (pv_internal_entry h v idx)"
  unfolding pv_internal_entry_def Let_def
  by (intro no_panic_and_then no_panic_intros no_panic_ok_or)
    (auto intro!: no_panic_and_then no_panic_intros)

lemma pv_overflow_payload_no_panic:
  "20 \<le> length (pv_bytes v) \<Longrightarrow> no_panic (pv_overflow_payload v)"
  by (simp add: pv_overflow_payload_def index_range_def)

section \<open>Entries\<close>

lemma pv_u32_at_eq:
  "off + 4 \<le> length (pv_bytes v) \<Longrightarrow> length (pv_bytes v) < 2 ^ 64 \<Longrightarrow>
   pv_u32_at h v off = Ok (u32_from_ne_bytes (eff h (pv_swap v)) (sub (pv_bytes v) off 4))"
  by (simp add: pv_u32_at_def checked_add_Some get_range_def read_u32_bytes_eq)

lemma pv_u16_at_eq:
  "off + 2 \<le> length (pv_bytes v) \<Longrightarrow> length (pv_bytes v) < 2 ^ 64 \<Longrightarrow>
   pv_u16_at h v off = Ok (u16_from_ne_bytes (eff h (pv_swap v)) (sub (pv_bytes v) off 2))"
  by (simp add: pv_u16_at_def checked_add_Some get_range_def read_u16_bytes_eq)

lemma pv_byte_at_eq:
  "off < length (pv_bytes v) \<Longrightarrow> pv_byte_at v off = Ok (pv_bytes v ! off)"
  by (simp add: pv_byte_at_def)

lemma pv_entry_offset_eq:
  "i < pv_nentries v \<Longrightarrow> 22 + 2 * i \<le> length (pv_bytes v) \<Longrightarrow> length (pv_bytes v) < 2 ^ 64 \<Longrightarrow>
   pv_entry_offset h v i = Ok (hd_linp (eff h (pv_swap v)) (pv_bytes v) i)"
  by (simp add: pv_entry_offset_def pv_u16_at_eq hd_linp_def mult.commute)

lemma pv_inline_eq:
  "unat off + unat len \<le> length (pv_bytes v) \<Longrightarrow> length (pv_bytes v) < 2 ^ 64 \<Longrightarrow>
   pv_inline v (Inline off len) = Ok (sub (pv_bytes v) (unat off) (unat len))"
  by (simp add: pv_inline_def checked_add_Some get_range_def)

end
