(* ===== verification/Split_Plan.thy ===== *)
theory Split_Plan
  imports Format
begin

text \<open>
  Decisions of a page split (src/src/writer/mod.rs): how many entries go to the left page
  and on which side the new entry lands (\<open>SplitPlan\<close>, \<open>psplit_loop\<close>), the length to
  which a separator key is cut (\<open>bt_defpfx\<close>), and the separator that a split hands to the
  parent page (\<open>Separator\<close>).
\<close>

section \<open>The split plan\<close>

record split_plan =
  left_slots :: nat
  right_target :: bool

definition h_in_l :: "split_plan \<Rightarrow> nat outcome" where
  "h_in_l plan = (if right_target plan then Ok (left_slots plan) else usub (left_slots plan) 1)"

definition l_skip :: "split_plan \<Rightarrow> nat \<Rightarrow> nat option" where
  "l_skip plan skip = (if right_target plan then None else Some skip)"

definition r_skip :: "split_plan \<Rightarrow> nat \<Rightarrow> nat option outcome" where
  "r_skip plan skip =
     (if right_target plan then and_then (usub skip (left_slots plan)) (\<lambda>d. Ok (Some d))
      else Ok None)"

definition target_slot :: "split_plan \<Rightarrow> nat \<Rightarrow> nat outcome" where
  "target_slot plan skip =
     (if right_target plan then usub skip (left_slots plan) else Ok skip)"

text \<open>
  The loop over the entries of the page being split: \<open>used\<close> bytes and \<open>off\<close> slots have
  gone left, \<open>nxt\<close> is the next entry of the old page.
\<close>

function psplit_iter ::
  "nat \<Rightarrow> nat \<Rightarrow> nat \<Rightarrow> nat \<Rightarrow> nat \<Rightarrow> (nat \<Rightarrow> nat outcome) \<Rightarrow> nat \<Rightarrow> nat \<Rightarrow> nat \<Rightarrow> nat outcome" where
  "psplit_iter full half skip ilen topn entry_size used nxt off =
     (if nxt \<ge> topn then Ok off
      else
        and_then (if skip = off then Ok ilen else entry_size nxt) (\<lambda>nbytes.
        if (skip \<le> off \<and> used + nbytes + 2 \<ge> full) \<or> nxt + 1 = topn then Ok off
        else if used + nbytes + 2 \<ge> half then Ok (off + 1)
        else psplit_iter full half skip ilen topn entry_size (used + nbytes + 2)
               (if skip \<noteq> off then nxt + 1 else nxt) (off + 1)))"
  by pat_completeness auto
termination
  by (relation "measure (\<lambda>(full, half, skip, ilen, topn, es, used, nxt, off).
        2 * (topn - nxt) + (if off \<le> skip then 1 else 0))") auto

declare psplit_iter.simps [simp del]

definition psplit_loop ::
  "nat \<Rightarrow> nat \<Rightarrow> nat \<Rightarrow> nat \<Rightarrow> (nat \<Rightarrow> nat outcome) \<Rightarrow> split_plan outcome" where
  "psplit_loop skip ilen psize topn entry_size =
     and_then (usub psize PAGE_HEADER_SIZE) (\<lambda>full.
     let half = full div 2 in
     and_then (psplit_iter full half skip ilen topn entry_size 0 0 0) (\<lambda>off.
     Ok \<lparr>left_slots = off, right_target = (skip \<ge> off)\<rparr>))"

section \<open>Separators\<close>

definition bt_defpfx :: "bytes \<Rightarrow> bytes \<Rightarrow> nat" where
  "bt_defpfx a b =
     (case position (\<lambda>(x, y). x \<noteq> y) (zip a b) of
        Some i \<Rightarrow> i + 1
      | None \<Rightarrow> if length a < length b then length a + 1 else length a)"

datatype separator =
    SepLeaf (sep_key: bytes) (sep_child: u32) (l_last_key: bytes)
  | SepInternal (sep_key: bytes) (sep_child: u32) (sep_ksize: nat)

definition encoded_size :: "separator \<Rightarrow> u32 \<Rightarrow> nat \<Rightarrow> nat \<times> nat" where
  "encoded_size sep parent_prev_pg skip =
     (case sep of
        SepInternal _ _ ksize \<Rightarrow> (ksize, align_entry (BINTERNAL_HEADER_SIZE + ksize))
      | SepLeaf key _ last_key \<Rightarrow>
          let full = length key;
              full_nbytes = align_entry (BINTERNAL_HEADER_SIZE + full);
              allow_pfx = (parent_prev_pg \<noteq> P_INVALID \<or> skip > 1)
          in if \<not> allow_pfx then (full, full_nbytes)
             else
               let pfx_len = bt_defpfx last_key key;
                   compressed = align_entry (BINTERNAL_HEADER_SIZE + pfx_len)
               in if compressed < full_nbytes then (pfx_len, compressed)
                  else (full, full_nbytes))"

end
