(* ===== verification/Entries.thy ===== *)
theory Entries
  imports Page Page_Buf Search Split_Plan
begin

text \<open>
  The functions of src/src/writer/mod.rs on one page buffer: building pages, writing,
  copying and deleting entries, searching a page, and turning the root into an internal
  page of two entries.
\<close>

section \<open>Primitive reads and writes\<close>

definition len_as_u32 :: "nat \<Rightarrow> u32 outcome" where
  "len_as_u32 len =
     and_then (assert_that (len \<le> MAX_PSIZE)) (\<lambda>_.
     if len < 2 ^ 32 then Ok (of_nat len) else Panic)"

definition psize_as_u32 :: "nat \<Rightarrow> u32 outcome" where
  "psize_as_u32 psize =
     and_then (assert_that (psize \<le> MAX_PSIZE)) (\<lambda>_.
     if psize < 2 ^ 32 then Ok (of_nat psize) else Panic)"

definition write_u32 :: "endian \<Rightarrow> bytes \<Rightarrow> nat \<Rightarrow> u32 \<Rightarrow> bytes outcome" where
  "write_u32 h buf off value = copy_from_slice buf off (off + 4) (u32_to_ne_bytes h value)"

definition read_u32_at :: "endian \<Rightarrow> bytes \<Rightarrow> nat \<Rightarrow> u32 outcome" where
  "read_u32_at h buf off =
     and_then (index_range buf off (off + 4)) (\<lambda>b. Ok (u32_from_ne_bytes h b))"

definition write_bleaf_inline :: "endian \<Rightarrow> bytes \<Rightarrow> nat \<Rightarrow> bytes \<Rightarrow> bytes \<Rightarrow> bytes outcome" where
  "write_bleaf_inline h buf off key val =
     and_then (len_as_u32 (length key)) (\<lambda>klen.
     and_then (write_u32 h buf off klen) (\<lambda>b1.
     and_then (len_as_u32 (length val)) (\<lambda>vlen.
     and_then (write_u32 h b1 (off + 4) vlen) (\<lambda>b2.
     and_then (store b2 (off + 8) 0) (\<lambda>b3.
     let key_pos = off + BLEAF_HEADER_SIZE in
     and_then (copy_from_slice b3 key_pos (key_pos + length key) key) (\<lambda>b4.
     let val_pos = key_pos + length key in
     copy_from_slice b4 val_pos (val_pos + length val) val))))))"

definition write_binternal_inline ::
  "endian \<Rightarrow> bytes \<Rightarrow> nat \<Rightarrow> nat \<Rightarrow> bytes \<Rightarrow> u32 \<Rightarrow> bytes outcome" where
  "write_binternal_inline h buf off ksize key child =
     and_then (assert_that (length key \<ge> ksize)) (\<lambda>_.
     and_then (len_as_u32 ksize) (\<lambda>klen.
     and_then (write_u32 h buf off klen) (\<lambda>b1.
     and_then (write_u32 h b1 (off + 4) child) (\<lambda>b2.
     and_then (store b2 (off + 8) 0) (\<lambda>b3.
     let key_pos = off + BINTERNAL_HEADER_SIZE in
     and_then (index_range key 0 ksize) (\<lambda>k.
     copy_from_slice b3 key_pos (key_pos + ksize) k))))))"

section \<open>Fresh pages\<close>

definition empty_page :: "endian \<Rightarrow> u32 \<Rightarrow> nat \<Rightarrow> u32 \<Rightarrow> bytes outcome" where
  "empty_page h pgno psize flags =
     and_then (pb_set_pgno h (replicate psize 0) pgno) (\<lambda>b1.
     and_then (pb_set_flags h b1 flags) (\<lambda>b2.
     and_then (pb_set_lower h b2 PAGE_HEADER_SIZE) (\<lambda>b3.
     pb_set_upper h b3 psize)))"

definition empty_leaf :: "endian \<Rightarrow> u32 \<Rightarrow> nat \<Rightarrow> bytes outcome" where
  "empty_leaf h pgno psize = empty_page h pgno psize P_BLEAF"

definition empty_internal :: "endian \<Rightarrow> u32 \<Rightarrow> nat \<Rightarrow> bytes outcome" where
  "empty_internal h pgno psize = empty_page h pgno psize P_BINTERNAL"

definition build_meta :: "endian \<Rightarrow> nat \<Rightarrow> u32 \<Rightarrow> u32 \<Rightarrow> u32 \<Rightarrow> bytes outcome" where
  "build_meta h psize free nrecs flags =
     and_then (write_u32 h (replicate psize 0) 0 BTREE_MAGIC) (\<lambda>p1.
     and_then (write_u32 h p1 4 BTREE_VERSION) (\<lambda>p2.
     and_then (psize_as_u32 psize) (\<lambda>psize32.
     and_then (write_u32 h p2 8 psize32) (\<lambda>p3.
     and_then (write_u32 h p3 12 free) (\<lambda>p4.
     and_then (write_u32 h p4 16 nrecs) (\<lambda>p5.
     write_u32 h p5 20 flags))))))"

section \<open>Leaf entries\<close>

definition insert_leaf_entry :: "endian \<Rightarrow> bytes \<Rightarrow> nat \<Rightarrow> bytes \<Rightarrow> bytes \<Rightarrow> bytes outcome" where
  "insert_leaf_entry h page idx key val =
     (let nbytes = align_entry (BLEAF_HEADER_SIZE + length key + length val) in
      and_then (pb_reserve_slot h page idx nbytes) (\<lambda>(page1, new_upper).
      write_bleaf_inline h page1 new_upper key val))"

definition write_entry_at_slot :: "endian \<Rightarrow> bytes \<Rightarrow> nat \<Rightarrow> bytes \<Rightarrow> bytes \<Rightarrow> bytes outcome" where
  "write_entry_at_slot h dst slot key val =
     (let nbytes = align_entry (BLEAF_HEADER_SIZE + length key + length val) in
      and_then (pb_upper h dst) (\<lambda>upper.
      and_then (usub upper nbytes) (\<lambda>new_upper.
      and_then (pb_set_upper h dst new_upper) (\<lambda>d1.
      and_then (pb_set_linp h d1 slot new_upper) (\<lambda>d2.
      write_bleaf_inline h d2 new_upper key val)))))"

definition entry_nbytes :: "endian \<Rightarrow> page_view \<Rightarrow> nat \<Rightarrow> nat outcome" where
  "entry_nbytes h view idx =
     and_then (pv_leaf_entry h view idx) (\<lambda>entry.
     and_then (pv_inline view (le_key entry)) (\<lambda>key.
     and_then (pv_inline view (le_data entry)) (\<lambda>val.
     Ok (align_entry (BLEAF_HEADER_SIZE + length key + length val)))))"

definition copy_one :: "endian \<Rightarrow> page_view \<Rightarrow> nat \<Rightarrow> nat \<Rightarrow> bytes \<Rightarrow> bytes outcome" where
  "copy_one h view src_idx dst_slot dst =
     and_then (pv_leaf_entry h view src_idx) (\<lambda>entry.
     and_then (pv_inline view (le_key entry)) (\<lambda>key.
     and_then (pv_inline view (le_data entry)) (\<lambda>val.
     let nbytes = align_entry (BLEAF_HEADER_SIZE + length key + length val) in
     and_then (pb_upper h dst) (\<lambda>upper.
     and_then (usub upper nbytes) (\<lambda>new_upper.
     and_then (pb_set_upper h dst new_upper) (\<lambda>d1.
     and_then (pb_set_linp h d1 dst_slot new_upper) (\<lambda>d2.
     write_bleaf_inline h d2 new_upper key val)))))))"

text \<open>
  The loop of \<open>copy_entries\<close> and of \<open>copy_internal_entries\<close>, which differ in the
  function that copies one entry: the slot \<open>reserve_at\<close> is left for the new entry.
\<close>

definition copy_step ::
  "(nat \<Rightarrow> nat \<Rightarrow> bytes \<Rightarrow> bytes outcome) \<Rightarrow> nat option \<Rightarrow> nat \<Rightarrow> nat \<times> bytes \<Rightarrow> (nat \<times> bytes) outcome" where
  "copy_step copy reserve_at src_idx st =
     (case st of (slot, d) \<Rightarrow>
        let slot' = (if Some slot = reserve_at then slot + 1 else slot) in
        and_then (copy src_idx slot' d) (\<lambda>d'. Ok (slot' + 1, d')))"

definition copy_range ::
  "(nat \<Rightarrow> nat \<Rightarrow> bytes \<Rightarrow> bytes outcome) \<Rightarrow> endian \<Rightarrow> nat \<Rightarrow> nat \<Rightarrow> nat option \<Rightarrow> bytes \<Rightarrow> bytes outcome" where
  "copy_range copy h a b reserve_at dst =
     and_then (for_each [a..<b] (copy_step copy reserve_at) (0, dst)) (\<lambda>(slot, d).
     let slot' = (if Some slot = reserve_at then slot + 1 else slot) in
     pb_set_lower h d (PAGE_HEADER_SIZE + slot' * 2))"

definition copy_entries ::
  "endian \<Rightarrow> page_view \<Rightarrow> nat \<Rightarrow> nat \<Rightarrow> nat option \<Rightarrow> bytes \<Rightarrow> bytes outcome" where
  "copy_entries h view a b reserve_at dst = copy_range (copy_one h view) h a b reserve_at dst"

definition delete_leaf_entry :: "endian \<Rightarrow> bytes \<Rightarrow> nat \<Rightarrow> bytes outcome" where
  "delete_leaf_entry h page idx =
     and_then (pb_lower h page) (\<lambda>lower.
     and_then (pb_upper h page) (\<lambda>upper.
     and_then (pb_nentries h page) (\<lambda>n.
     and_then (pb_linp h page idx) (\<lambda>offset16.
     let offset = unat offset16 in
     and_then (read_u32_at h page offset) (\<lambda>ksize32.
     and_then (read_u32_at h page (offset + 4)) (\<lambda>dsize32.
     let nbytes = align_entry (BLEAF_HEADER_SIZE + unat ksize32 + unat dsize32) in
     and_then (copy_within page upper offset (upper + nbytes)) (\<lambda>page1.
     and_then (for_each [0..<idx] (\<lambda>i p.
         and_then (pb_linp h p i) (\<lambda>v.
         if unat v < offset then pb_set_linp h p i (unat v + nbytes) else Ok p)) page1) (\<lambda>page2.
     and_then (usub n 1) (\<lambda>last.
     and_then (for_each [idx..<last] (\<lambda>i p.
         and_then (pb_linp h p (i + 1)) (\<lambda>v.
         pb_set_linp h p i (if unat v < offset then unat v + nbytes else unat v))) page2) (\<lambda>page3.
     and_then (usub lower 2) (\<lambda>lower'.
     and_then (pb_set_lower h page3 lower') (\<lambda>page4.
     pb_set_upper h page4 (upper + nbytes)))))))))))))"

definition leaf_first_key :: "endian \<Rightarrow> bytes \<Rightarrow> bytes outcome" where
  "leaf_first_key h page =
     and_then (pv_parse h 0 page False) (\<lambda>view.
     and_then (pv_leaf_entry h view 0) (\<lambda>entry. pv_inline view (le_key entry)))"

definition leaf_last_key :: "endian \<Rightarrow> bytes \<Rightarrow> bytes outcome" where
  "leaf_last_key h page =
     and_then (pv_parse h 0 page False) (\<lambda>view.
     and_then (usub (pv_nentries view) 1) (\<lambda>last.
     and_then (pv_leaf_entry h view last) (\<lambda>entry. pv_inline view (le_key entry))))"

definition w_leaf_probe :: "endian \<Rightarrow> page_view \<Rightarrow> bytes \<Rightarrow> nat \<Rightarrow> ordering outcome" where
  "w_leaf_probe h view key idx =
     and_then (pv_leaf_entry h view idx) (\<lambda>entry.
     and_then (pv_inline view (le_key entry)) (\<lambda>entry_key. Ok (cmp_bytes key entry_key)))"

definition leaf_search :: "endian \<Rightarrow> u32 \<Rightarrow> bytes \<Rightarrow> bytes \<Rightarrow> (bool \<times> nat) outcome" where
  "leaf_search h pgno page key =
     and_then (pv_parse h pgno page False) (\<lambda>view.
     bsearch (w_leaf_probe h view key) 0 (pv_nentries view))"

definition compute_psplit_split_leaf ::
  "endian \<Rightarrow> page_view \<Rightarrow> nat \<Rightarrow> nat \<Rightarrow> nat \<Rightarrow> split_plan outcome" where
  "compute_psplit_split_leaf h view skip ilen psize =
     psplit_loop skip ilen psize (pv_nentries view) (entry_nbytes h view)"

section \<open>Internal entries\<close>

definition w_internal_probe ::
  "endian \<Rightarrow> page_view \<Rightarrow> bool \<Rightarrow> bytes \<Rightarrow> nat \<Rightarrow> ordering outcome" where
  "w_internal_probe h view leftmost key mid =
     and_then (pv_internal_entry h view mid) (\<lambda>entry.
     if mid = 0 \<and> leftmost then Ok Greater
     else and_then (pv_inline view (ie_key entry)) (\<lambda>k. Ok (cmp_bytes key k)))"

definition descend_internal_pick :: "endian \<Rightarrow> page_view \<Rightarrow> bytes \<Rightarrow> bool \<Rightarrow> nat outcome" where
  "descend_internal_pick h view key leftmost =
     and_then (bsearch (w_internal_probe h view leftmost key) 0 (pv_nentries view)) (\<lambda>r.
     Ok (chosen_slot r))"

definition internal_entry_nbytes :: "endian \<Rightarrow> page_view \<Rightarrow> nat \<Rightarrow> nat outcome" where
  "internal_entry_nbytes h view idx =
     and_then (pv_internal_entry h view idx) (\<lambda>entry.
     and_then (pv_inline view (ie_key entry)) (\<lambda>key.
     Ok (align_entry (BINTERNAL_HEADER_SIZE + length key))))"

definition compute_psplit_split_internal ::
  "endian \<Rightarrow> page_view \<Rightarrow> nat \<Rightarrow> nat \<Rightarrow> nat \<Rightarrow> split_plan outcome" where
  "compute_psplit_split_internal h view skip ilen psize =
     psplit_loop skip ilen psize (pv_nentries view) (internal_entry_nbytes h view)"

definition copy_internal_one :: "endian \<Rightarrow> page_view \<Rightarrow> nat \<Rightarrow> nat \<Rightarrow> bytes \<Rightarrow> bytes outcome" where
  "copy_internal_one h view src_idx dst_slot dst =
     and_then (pv_internal_entry h view src_idx) (\<lambda>entry.
     and_then (pv_inline view (ie_key entry)) (\<lambda>key.
     let nbytes = align_entry (BINTERNAL_HEADER_SIZE + length key) in
     and_then (pb_upper h dst) (\<lambda>upper.
     and_then (usub upper nbytes) (\<lambda>new_upper.
     and_then (pb_set_upper h dst new_upper) (\<lambda>d1.
     and_then (pb_set_linp h d1 dst_slot new_upper) (\<lambda>d2.
     write_binternal_inline h d2 new_upper (length key) key (ie_child entry)))))))"

definition copy_internal_entries ::
  "endian \<Rightarrow> page_view \<Rightarrow> nat \<Rightarrow> nat \<Rightarrow> nat option \<Rightarrow> bytes \<Rightarrow> bytes outcome" where
  "copy_internal_entries h view a b reserve_at dst =
     copy_range (copy_internal_one h view) h a b reserve_at dst"

definition write_internal_entry_at_slot ::
  "endian \<Rightarrow> bytes \<Rightarrow> nat \<Rightarrow> nat \<Rightarrow> bytes \<Rightarrow> u32 \<Rightarrow> bytes outcome" where
  "write_internal_entry_at_slot h dst slot nksize key child =
     (let nbytes = align_entry (BINTERNAL_HEADER_SIZE + nksize) in
      and_then (pb_upper h dst) (\<lambda>upper.
      and_then (usub upper nbytes) (\<lambda>new_upper.
      and_then (pb_set_upper h dst new_upper) (\<lambda>d1.
      and_then (pb_set_linp h d1 slot new_upper) (\<lambda>d2.
      write_binternal_inline h d2 new_upper nksize key child)))))"

definition insert_internal_in_place ::
  "endian \<Rightarrow> bytes \<Rightarrow> nat \<Rightarrow> nat \<Rightarrow> bytes \<Rightarrow> u32 \<Rightarrow> bytes outcome" where
  "insert_internal_in_place h page skip nksize key child =
     (let nbytes = align_entry (BINTERNAL_HEADER_SIZE + nksize) in
      and_then (pb_reserve_slot h page skip nbytes) (\<lambda>(page1, new_upper).
      write_binternal_inline h page1 new_upper nksize key child))"

definition first_internal_key :: "endian \<Rightarrow> bytes \<Rightarrow> bytes outcome" where
  "first_internal_key h page =
     and_then (pv_parse h 0 page False) (\<lambda>view.
     and_then (pv_internal_entry h view 0) (\<lambda>entry. pv_inline view (ie_key entry)))"

definition convert_root_to_internal ::
  "endian \<Rightarrow> bytes \<Rightarrow> nat \<Rightarrow> u32 \<Rightarrow> u32 \<Rightarrow> bytes \<Rightarrow> bytes outcome" where
  "convert_root_to_internal h p psize l_pgno r_pgno r_first_key =
     and_then (usub psize (align_entry BINTERNAL_HEADER_SIZE)) (\<lambda>upper0.
     and_then (usub upper0 (align_entry (BINTERNAL_HEADER_SIZE + length r_first_key))) (\<lambda>upper1.
     and_then (write_binternal_inline h p upper0 0 [] l_pgno) (\<lambda>p1.
     and_then (write_binternal_inline h p1 upper1 (length r_first_key) r_first_key r_pgno) (\<lambda>p2.
     and_then (pb_set_linp h p2 0 upper0) (\<lambda>p3.
     and_then (pb_set_linp h p3 1 upper1) (\<lambda>p4.
     and_then (pb_set_lower h p4 (PAGE_HEADER_SIZE + 4)) (\<lambda>p5.
     and_then (pb_set_upper h p5 upper1) (\<lambda>p6.
     and_then (pb_flags h p6) (\<lambda>flags.
     pb_set_flags h p6 ((flags AND NOT P_TYPE) OR P_BINTERNAL))))))))))"

end
