(* ===== verification/Slots.thy ===== *)
theory Slots
  imports Page_Facts Entries "HOL-Library.Multiset"
begin

text \<open>
  What the bytes of a page hold. A page is a header, an array of 2-byte offsets growing up and
  entries growing down; \<open>holds h buf L U ents\<close> says that in \<open>buf\<close> every slot \<open>i\<close> of
  \<open>ents\<close> points at the bytes of its entry, that the entries do not overlap, and that they
  fill the space from \<open>U\<close> to the end exactly (with each entry rounded up to 4 bytes), the
  slots lying below \<open>L\<close>. \<open>page_holds\<close> is the same for a finished page, whose \<open>lower\<close>
  and \<open>upper\<close> fields agree with its entries. All page operations are described by what
  they do to the list of entries.
\<close>

definition esize :: "bytes \<Rightarrow> nat" where
  "esize e = align_entry (length e)"

definition holds :: "endian \<Rightarrow> bytes \<Rightarrow> nat \<Rightarrow> nat \<Rightarrow> (nat \<times> bytes) list \<Rightarrow> bool" where
  "holds h buf L U ents \<longleftrightarrow>
     20 \<le> L \<and> L \<le> U \<and> U \<le> length buf \<and> length buf \<le> MAX_PSIZE \<and>
     distinct (map fst ents) \<and>
     (\<forall>(i, e) \<in> set ents. 22 + 2 * i \<le> L \<and> e \<noteq> [] \<and> U \<le> hd_linp h buf i \<and>
        hd_linp h buf i + esize e \<le> length buf \<and> sub buf (hd_linp h buf i) (length e) = e) \<and>
     (\<forall>(i, e) \<in> set ents. \<forall>(j, e') \<in> set ents. i \<noteq> j \<longrightarrow>
        hd_linp h buf i + esize e \<le> hd_linp h buf j \<or> hd_linp h buf j + esize e' \<le> hd_linp h buf i) \<and>
     U + (\<Sum>(i, e) \<leftarrow> ents. esize e) = length buf"

definition page_holds :: "endian \<Rightarrow> bytes \<Rightarrow> bytes list \<Rightarrow> bool" where
  "page_holds h buf encs \<longleftrightarrow>
     hd_lower h buf = 20 + 2 * length encs \<and>
     holds h buf (hd_lower h buf) (hd_upper h buf) (List.enumerate 0 encs)"

lemma esize_ge: "length e \<le> esize e"
  by (simp add: esize_def align_entry_ge)

lemma esize_pos: "e \<noteq> [] \<Longrightarrow> 4 \<le> esize e"
  by (simp add: esize_def align_entry_pos)

section \<open>The basic facts\<close>

lemma holdsD:
  assumes "holds h buf L U ents"
  shows "20 \<le> L" "L \<le> U" "U \<le> length buf" "length buf \<le> MAX_PSIZE" "distinct (map fst ents)"
    and "U + (\<Sum>(i, e) \<leftarrow> ents. esize e) = length buf"
  using assms by (simp_all add: holds_def)

lemma holds_slotD:
  assumes "holds h buf L U ents" and "(i, e) \<in> set ents"
  shows "22 + 2 * i \<le> L" "e \<noteq> []" "U \<le> hd_linp h buf i"
    "hd_linp h buf i + esize e \<le> length buf" "sub buf (hd_linp h buf i) (length e) = e"
  using assms by (auto simp: holds_def)

lemma holdsI:
  assumes "20 \<le> L" "L \<le> U" "U \<le> length buf" "length buf \<le> MAX_PSIZE" "distinct (map fst ents)"
    and "\<And>i e. (i, e) \<in> set ents \<Longrightarrow> 22 + 2 * i \<le> L \<and> e \<noteq> [] \<and> U \<le> hd_linp h buf i \<and>
        hd_linp h buf i + esize e \<le> length buf \<and> sub buf (hd_linp h buf i) (length e) = e"
    and "\<And>i e j e'. (i, e) \<in> set ents \<Longrightarrow> (j, e') \<in> set ents \<Longrightarrow> i \<noteq> j \<Longrightarrow>
        hd_linp h buf i + esize e \<le> hd_linp h buf j \<or> hd_linp h buf j + esize e' \<le> hd_linp h buf i"
    and "U + (\<Sum>(i, e) \<leftarrow> ents. esize e) = length buf"
  shows "holds h buf L U ents"
  unfolding holds_def
proof (intro conjI)
  show "\<forall>(i, e) \<in> set ents. 22 + 2 * i \<le> L \<and> e \<noteq> [] \<and> U \<le> hd_linp h buf i \<and>
      hd_linp h buf i + esize e \<le> length buf \<and> sub buf (hd_linp h buf i) (length e) = e"
    by clarify (drule assms(6), simp)
  show "\<forall>(i, e) \<in> set ents. \<forall>(j, e') \<in> set ents. i \<noteq> j \<longrightarrow>
      hd_linp h buf i + esize e \<le> hd_linp h buf j \<or> hd_linp h buf j + esize e' \<le> hd_linp h buf i"
    by (clarify) (metis assms(7))
qed (use assms in simp_all)

lemma holds_nonempty: "holds h buf L U ents \<Longrightarrow> (i, []) \<notin> set ents"
  using holds_slotD(2) by blast

lemma holds_disjointD:
  assumes "holds h buf L U ents" and "(i, e) \<in> set ents" "(j, e') \<in> set ents" "i \<noteq> j"
  shows "hd_linp h buf i + esize e \<le> hd_linp h buf j \<or> hd_linp h buf j + esize e' \<le> hd_linp h buf i"
  using assms unfolding holds_def by fast

lemma holds_perm:
  assumes "mset ents = mset ents'"
  shows "holds h buf L U ents \<longleftrightarrow> holds h buf L U ents'"
proof -
  have s: "set ents = set ents'" using assms by (rule mset_eq_setD)
  have d: "distinct (map fst ents) = distinct (map fst ents')"
    using assms by (metis mset_eq_imp_distinct_iff mset_map)
  have "(\<Sum>(i, e) \<leftarrow> ents. esize e) = (\<Sum>(i, e) \<leftarrow> ents'. esize e)"
    using assms by (metis mset_map sum_mset_sum_list)
  with s d show ?thesis by (simp add: holds_def)
qed

lemma holds_empty:
  "20 \<le> L \<Longrightarrow> L \<le> length buf \<Longrightarrow> length buf \<le> MAX_PSIZE \<Longrightarrow> holds h buf L (length buf) []"
  by (simp add: holds_def)

text \<open>
  A change of the buffer that keeps the payload of the page and moves the slots: slot \<open>i\<close> of
  the old page is slot \<open>r i\<close> of the new one.
\<close>

lemma holds_move:
  assumes H: "holds h buf L U ents"
    and len: "length buf' = length buf"
    and L': "20 \<le> L'" "L' \<le> U"
    and slots: "\<And>i e. (i, e) \<in> set ents \<Longrightarrow> 22 + 2 * r i \<le> L' \<and> hd_linp h buf' (r i) = hd_linp h buf i"
    and payload: "\<And>i e. (i, e) \<in> set ents \<Longrightarrow>
      sub buf' (hd_linp h buf i) (length e) = sub buf (hd_linp h buf i) (length e)"
    and inj: "inj_on r (fst ` set ents)"
  shows "holds h buf' L' U (map (\<lambda>(i, e). (r i, e)) ents)"
proof (rule holdsI)
  have fst_eq: "map fst (map (\<lambda>(i, e). (r i, e)) ents) = map r (map fst ents)"
    by (induction ents) auto
  show "distinct (map fst (map (\<lambda>(i, e). (r i, e)) ents))"
    unfolding fst_eq using holdsD(5) [OF H] inj by (simp add: distinct_map del: map_map)
  have "(\<Sum>(i, e) \<leftarrow> map (\<lambda>(i, e). (r i, e)) ents. esize e) = (\<Sum>(i, e) \<leftarrow> ents. esize e)"
    by (induction ents) auto
  then show "U + (\<Sum>(i, e) \<leftarrow> map (\<lambda>(i, e). (r i, e)) ents. esize e) = length buf'"
    using holdsD(6) [OF H] len by simp
next
  fix i e assume "(i, e) \<in> set (map (\<lambda>(i, e). (r i, e)) ents)"
  then obtain i0 where i0: "(i0, e) \<in> set ents" "i = r i0" by auto
  then show "22 + 2 * i \<le> L' \<and> e \<noteq> [] \<and> U \<le> hd_linp h buf' i \<and>
      hd_linp h buf' i + esize e \<le> length buf' \<and> sub buf' (hd_linp h buf' i) (length e) = e"
    using slots [OF i0(1)] payload [OF i0(1)] holds_slotD [OF H i0(1)] len by simp
  fix j e' assume "(j, e') \<in> set (map (\<lambda>(i, e). (r i, e)) ents)" "i \<noteq> j"
  then obtain j0 where j0: "(j0, e') \<in> set ents" "j = r j0" by auto
  with i0 \<open>i \<noteq> j\<close> have "i0 \<noteq> j0" by auto
  then show "hd_linp h buf' i + esize e \<le> hd_linp h buf' j \<or> hd_linp h buf' j + esize e' \<le> hd_linp h buf' i"
    using slots [OF i0(1)] slots [OF j0(1)] holds_disjointD [OF H i0(1) j0(1)] i0 j0 by simp
qed (use holdsD [OF H] len L' in auto)

lemma holds_frame:
  assumes "holds h buf L U ents" "length buf' = length buf" "20 \<le> L'" "L' \<le> U"
    and "\<And>i e. (i, e) \<in> set ents \<Longrightarrow> 22 + 2 * i \<le> L' \<and> hd_linp h buf' i = hd_linp h buf i"
    and "\<And>i e. (i, e) \<in> set ents \<Longrightarrow>
      sub buf' (hd_linp h buf i) (length e) = sub buf (hd_linp h buf i) (length e)"
  shows "holds h buf' L' U ents"
  using holds_move [OF assms(1-4), where r = id] assms(5,6) by simp

text \<open>Adding one entry below all the others.\<close>

lemma holds_add:
  assumes H: "holds h buf L U ents" and "e \<noteq> []"
    and slot: "22 + 2 * i \<le> L" "i \<notin> fst ` set ents"
    and room: "L + esize e \<le> U"
    and at: "hd_linp h buf i = U - esize e" "sub buf (U - esize e) (length e) = e"
  shows "holds h buf L (U - esize e) ((i, e) # ents)"
proof (rule holdsI)
  have low: "hd_linp h buf i + esize e \<le> hd_linp h buf j" if "(j, e') \<in> set ents" for j e'
    using holds_slotD(3) [OF H that] room at by simp
  fix j e' assume j: "(j, e') \<in> set ((i, e) # ents)"
  then show "22 + 2 * j \<le> L \<and> e' \<noteq> [] \<and> U - esize e \<le> hd_linp h buf j \<and>
      hd_linp h buf j + esize e' \<le> length buf \<and> sub buf (hd_linp h buf j) (length e') = e'"
  proof (cases "(j, e') = (i, e)")
    case True
    then show ?thesis using assms holdsD(3) [OF H] by simp
  next
    case False
    with j have "(j, e') \<in> set ents" by auto
    from holds_slotD [OF H this] room show ?thesis by simp
  qed
  fix j2 e2 assume "(j2, e2) \<in> set ((i, e) # ents)" "j \<noteq> j2"
  with j show "hd_linp h buf j + esize e' \<le> hd_linp h buf j2 \<or> hd_linp h buf j2 + esize e2 \<le> hd_linp h buf j"
    using low holds_disjointD [OF H, of j e' j2 e2] by auto
next
  show "U - esize e + (\<Sum>(i, e) \<leftarrow> (i, e) # ents. esize e) = length buf"
    using holdsD(6) [OF H] room by simp
qed (use holdsD [OF H] slot room in auto)

section \<open>Writes to a page, as equations\<close>

definition wr16 :: "endian \<Rightarrow> bytes \<Rightarrow> nat \<Rightarrow> nat \<Rightarrow> bytes" where
  "wr16 h buf off v = splice buf off (u16_to_ne_bytes h (of_nat v))"

definition wr32 :: "endian \<Rightarrow> bytes \<Rightarrow> nat \<Rightarrow> u32 \<Rightarrow> bytes" where
  "wr32 h buf off v = splice buf off (u32_to_ne_bytes h v)"

lemma length_wr [simp]:
  "off + 2 \<le> length buf \<Longrightarrow> length (wr16 h buf off v) = length buf"
  "off + 4 \<le> length buf \<Longrightarrow> length (wr32 h buf off w) = length buf"
  by (simp_all add: wr16_def wr32_def)

lemma sub_wr16 [sub_simps]:
  "off + 2 \<le> length buf \<Longrightarrow> o' + n \<le> off \<or> off + 2 \<le> o' \<Longrightarrow> sub (wr16 h buf off v) o' n = sub buf o' n"
  by (simp add: wr16_def sub_splice_other)

lemma sub_wr32 [sub_simps]:
  "off + 4 \<le> length buf \<Longrightarrow> o' + n \<le> off \<or> off + 4 \<le> o' \<Longrightarrow> sub (wr32 h buf off v) o' n = sub buf o' n"
  by (simp add: wr32_def sub_splice_other)

lemma get_wr16 [simp]:
  "off + 2 \<le> length buf \<Longrightarrow> v < 65536 \<Longrightarrow> unat (u16_from_ne_bytes h (sub (wr16 h buf off v) off 2)) = v"
  by (simp add: wr16_def u16c.read_back)

lemma get_wr32 [simp]:
  "off + 4 \<le> length buf \<Longrightarrow> u32_from_ne_bytes h (sub (wr32 h buf off v) off 4) = v"
  by (simp add: wr32_def u32c.read_back)

lemma page_offset_as_u16_eq: "v \<le> 32768 \<Longrightarrow> page_offset_as_u16 v = Ok (of_nat v)"
  by (simp add: page_offset_as_u16_def)

lemma pb_set_eqs:
  assumes "20 \<le> length buf"
  shows "pb_set_pgno h buf w = Ok (wr32 h buf 0 w)" "pb_set_prev_pg h buf w = Ok (wr32 h buf 4 w)"
    "pb_set_next_pg h buf w = Ok (wr32 h buf 8 w)" "pb_set_flags h buf w = Ok (wr32 h buf 12 w)"
    "v \<le> 32768 \<Longrightarrow> pb_set_lower h buf v = Ok (wr16 h buf 16 v)"
    "v \<le> 32768 \<Longrightarrow> pb_set_upper h buf v = Ok (wr16 h buf 18 v)"
  using assms
  by (simp_all add: pb_set_pgno_def pb_set_prev_pg_def pb_set_next_pg_def pb_set_flags_def
      pb_set_lower_def pb_set_upper_def pb_write_u32_eq pb_write_u16_eq wr32_def wr16_def
      page_offset_as_u16_eq)

lemma pb_set_linp_eq:
  "22 + 2 * i \<le> length buf \<Longrightarrow> v < 32768 \<Longrightarrow> pb_set_linp h buf i v = Ok (wr16 h buf (20 + 2 * i) v)"
  by (simp add: pb_set_linp_def pb_write_u16_eq wr16_def page_offset_as_u16_eq mult.commute)

lemma hd_wr_lower [simp]:
  assumes "20 \<le> length buf"
  shows "v < 65536 \<Longrightarrow> hd_lower h (wr16 h buf 16 v) = v" "hd_upper h (wr16 h buf 16 v) = hd_upper h buf"
    "hd_linp h (wr16 h buf 16 v) i = hd_linp h buf i"
  using assms by (simp_all add: hd_defs sub_simps)

lemma hd_wr_upper [simp]:
  assumes "20 \<le> length buf"
  shows "v < 65536 \<Longrightarrow> hd_upper h (wr16 h buf 18 v) = v" "hd_lower h (wr16 h buf 18 v) = hd_lower h buf"
    "hd_linp h (wr16 h buf 18 v) i = hd_linp h buf i"
  using assms by (simp_all add: hd_defs sub_simps)

lemma hd_wr_linp:
  assumes "22 + 2 * j \<le> length buf"
  shows "v < 65536 \<Longrightarrow> hd_linp h (wr16 h buf (20 + 2 * j) v) i = (if i = j then v else hd_linp h buf i)"
    "hd_lower h (wr16 h buf (20 + 2 * j) v) = hd_lower h buf"
    "hd_upper h (wr16 h buf (20 + 2 * j) v) = hd_upper h buf"
proof -
  show "v < 65536 \<Longrightarrow> hd_linp h (wr16 h buf (20 + 2 * j) v) i = (if i = j then v else hd_linp h buf i)"
  proof (cases "i = j")
    case True
    then show "v < 65536 \<Longrightarrow> ?thesis" using assms by (simp add: hd_linp_def)
  next
    case False
    then have "20 + 2 * i + 2 \<le> 20 + 2 * j \<or> 20 + 2 * j + 2 \<le> 20 + 2 * i" by linarith
    then show ?thesis using assms False by (simp add: hd_linp_def sub_wr16)
  qed
qed (use assms in \<open>simp_all add: hd_defs sub_simps\<close>)

lemma hd_splice:
  assumes "off + length ys \<le> length buf"
  shows "20 \<le> off \<Longrightarrow> hd_lower h (splice buf off ys) = hd_lower h buf"
    "20 \<le> off \<Longrightarrow> hd_upper h (splice buf off ys) = hd_upper h buf"
    "22 + 2 * i \<le> off \<Longrightarrow> hd_linp h (splice buf off ys) i = hd_linp h buf i"
  using assms by (simp_all add: hd_defs sub_simps)

text \<open>
  The first sixteen bytes of a page name it: its number, its siblings and its type. Page
  editing leaves them alone.
\<close>

definition ident :: "bytes \<Rightarrow> bytes" where
  "ident buf = sub buf 0 16"

lemma ident_hd:
  assumes "ident buf' = ident buf"
  shows "hd_pgno h buf' = hd_pgno h buf" "hd_prev h buf' = hd_prev h buf"
    "hd_next h buf' = hd_next h buf" "hd_flags h buf' = hd_flags h buf"
proof -
  have "hd_pgno h b = u32_from_ne_bytes h (sub (ident b) 0 4)"
    "hd_prev h b = u32_from_ne_bytes h (sub (ident b) 4 4)"
    "hd_next h b = u32_from_ne_bytes h (sub (ident b) 8 4)"
    "hd_flags h b = u32_from_ne_bytes h (sub (ident b) 12 4)" for b
    by (simp_all add: ident_def sub_sub hd_defs)
  with assms show "hd_pgno h buf' = hd_pgno h buf" "hd_prev h buf' = hd_prev h buf"
    "hd_next h buf' = hd_next h buf" "hd_flags h buf' = hd_flags h buf"
    by simp_all
qed

lemma ident_wr16 [simp]: "16 \<le> off \<Longrightarrow> off + 2 \<le> length buf \<Longrightarrow> ident (wr16 h buf off v) = ident buf"
  by (simp add: ident_def sub_simps)

lemma ident_splice [simp]:
  "16 \<le> off \<Longrightarrow> off + length ys \<le> length buf \<Longrightarrow> ident (splice buf off ys) = ident buf"
  by (simp add: ident_def sub_simps)

end
