(* ===== verification/Encodings.thy ===== *)
theory Encodings
  imports Slots
begin

text \<open>
  The bytes of an entry: what \<open>write_bleaf_inline\<close> and \<open>write_binternal_inline\<close> write, and
  that the decoders of the reader read it back, on a host of either byte order.
\<close>

definition enc_bleaf :: "endian \<Rightarrow> bytes \<times> bytes \<Rightarrow> bytes" where
  "enc_bleaf h kv = u32_to_ne_bytes h (of_nat (length (fst kv))) @
     u32_to_ne_bytes h (of_nat (length (snd kv))) @ [0] @ fst kv @ snd kv"

definition enc_bint :: "endian \<Rightarrow> bytes \<times> u32 \<Rightarrow> bytes" where
  "enc_bint h kc = u32_to_ne_bytes h (of_nat (length (fst kc))) @
     u32_to_ne_bytes h (snd kc) @ [0] @ fst kc"

definition leaf_bytes :: "bytes \<times> bytes \<Rightarrow> nat" where
  "leaf_bytes kv = align_entry (9 + length (fst kv) + length (snd kv))"

definition int_bytes :: "bytes \<times> u32 \<Rightarrow> nat" where
  "int_bytes kc = align_entry (9 + length (fst kc))"

lemma length_enc [simp]:
  "length (enc_bleaf h kv) = 9 + length (fst kv) + length (snd kv)"
  "length (enc_bint h kc) = 9 + length (fst kc)"
  by (simp_all add: enc_bleaf_def enc_bint_def)

lemma enc_nonempty [simp]: "enc_bleaf h kv \<noteq> []" "enc_bint h kc \<noteq> []"
  by (simp_all add: enc_bleaf_def enc_bint_def)

lemma esize_enc [simp]: "esize (enc_bleaf h kv) = leaf_bytes kv" "esize (enc_bint h kc) = int_bytes kc"
  by (simp_all add: esize_def leaf_bytes_def int_bytes_def)

section \<open>Writing\<close>

lemma splice_splice_next:
  assumes "off + length xs + length ys \<le> length buf" and "off' = off + length xs"
  shows "splice (splice buf off xs) off' ys = splice buf off (xs @ ys)"
proof -
  have "take (off + length xs) (splice buf off xs) = take off buf @ xs"
    using assms by (simp add: splice_def)
  moreover have "drop (off + length xs + length ys) (splice buf off xs)
      = drop (off + (length xs + length ys)) buf"
    using assms by (simp add: splice_def add.commute add.left_commute)
  ultimately show ?thesis
    unfolding assms(2)
    by (simp add: splice_def [of "splice buf off xs"] splice_def [of buf off "xs @ ys"] ac_simps)
qed

lemma list_update_splice: "i < length xs \<Longrightarrow> xs[i := v] = splice xs i [v]"
  by (simp add: splice_def upd_conv_take_nth_drop)

lemma len_as_u32_eq: "n \<le> 32768 \<Longrightarrow> len_as_u32 n = Ok (of_nat n)"
  by (simp add: len_as_u32_def)

lemma write_bleaf_inline_eq:
  assumes "off + 9 + length k + length v \<le> length buf" and "length k \<le> 32768" "length v \<le> 32768"
  shows "write_bleaf_inline h buf off k v = Ok (splice buf off (enc_bleaf h (k, v)))"
  using assms
  by (simp add: write_bleaf_inline_def len_as_u32_eq write_u32_def copy_from_slice_def store_def
      list_update_splice splice_splice_next enc_bleaf_def add.assoc)

lemma write_binternal_inline_eq:
  assumes "off + 9 + n \<le> length buf" and "n \<le> length k" "n \<le> 32768"
  shows "write_binternal_inline h buf off n k c = Ok (splice buf off (enc_bint h (take n k, c)))"
  using assms
  by (simp add: write_binternal_inline_def len_as_u32_eq write_u32_def copy_from_slice_def store_def
      index_range_def list_update_splice splice_splice_next enc_bint_def add.assoc sub_def min_def)

section \<open>Reading back\<close>

lemma sub_parts:
  assumes "sub buf o' (length (xs @ ys)) = xs @ ys" "o' + length (xs @ ys) \<le> length buf"
  shows "sub buf o' (length xs) = xs" "sub buf (o' + length xs) (length ys) = ys"
  using assms by (simp_all add: sub_add)

lemma parts4:
  assumes "sub buf o' (length e) = e" "e = a @ b @ [z] @ c" "o' + length e \<le> length buf"
    "length a = 4" "length b = 4"
  shows "sub buf o' 4 = a" "sub buf (o' + 4) 4 = b" "buf ! (o' + 8) = z" "sub buf (o' + 9) (length c) = c"
proof -
  have 1: "sub buf o' (length a) = a" "sub buf (o' + length a) (length (b @ [z] @ c)) = b @ [z] @ c"
    using sub_parts [of buf o' a "b @ [z] @ c"] assms by simp_all
  have 2: "sub buf (o' + length a) (length b) = b"
    "sub buf (o' + length a + length b) (length ([z] @ c)) = [z] @ c"
    using sub_parts [of buf "o' + length a" b "[z] @ c"] 1 assms by simp_all
  have 3: "sub buf (o' + length a + length b) (length [z]) = [z]"
    "sub buf (o' + length a + length b + length [z]) (length c) = c"
    using sub_parts [of buf "o' + length a + length b" "[z]" c] 2 assms by simp_all
  show "sub buf o' 4 = a" "sub buf (o' + 4) 4 = b" "sub buf (o' + 9) (length c) = c"
    using 1 2 3 assms by (simp_all add: add.assoc add.commute [of 9])
  have "sub buf (o' + 8) 1 ! 0 = z" using 3(1) assms by (simp add: add.assoc)
  then show "buf ! (o' + 8) = z" using assms by (simp add: nth_sub)
qed

text \<open>What is stored at a slot of a page.\<close>

lemma page_holds_slot:
  assumes "page_holds h buf encs" "i < length encs"
  shows "22 + 2 * i \<le> length buf" "20 \<le> length buf" "length buf \<le> 32768"
    "hd_linp h buf i + length (encs ! i) \<le> length buf"
    "sub buf (hd_linp h buf i) (length (encs ! i)) = encs ! i"
    "22 + 2 * i \<le> hd_linp h buf i"
proof -
  have H: "holds h buf (hd_lower h buf) (hd_upper h buf) (List.enumerate 0 encs)"
    using assms(1) unfolding page_holds_def by blast
  have "(i, encs ! i) \<in> set (List.enumerate 0 encs)"
    using assms(2) by (simp add: in_set_enumerate_eq)
  note s = holds_slotD [OF H this]
  show "22 + 2 * i \<le> length buf" "20 \<le> length buf" "length buf \<le> 32768"
    "22 + 2 * i \<le> hd_linp h buf i"
    using s holdsD [OF H] by auto
  show "hd_linp h buf i + length (encs ! i) \<le> length buf"
    using s(4) esize_ge [of "encs ! i"] by simp
  show "sub buf (hd_linp h buf i) (length (encs ! i)) = encs ! i" by (rule s(5))
qed

lemma page_holds_header:
  assumes "page_holds h buf encs"
  shows "hd_lower h buf = 20 + 2 * length encs" "hd_lower h buf \<le> hd_upper h buf"
    "hd_upper h buf \<le> length buf" "length buf \<le> 32768" "20 \<le> length buf"
    "page_bounds_ok h buf" "hd_upper h buf + (\<Sum>e \<leftarrow> encs. esize e) = length buf"
proof -
  have H: "holds h buf (hd_lower h buf) (hd_upper h buf) (List.enumerate 0 encs)"
    and l: "hd_lower h buf = 20 + 2 * length encs"
    using assms unfolding page_holds_def by blast+
  have "(\<Sum>(i, e) \<leftarrow> List.enumerate n encs. esize e) = (\<Sum>e \<leftarrow> encs. esize e)" for n
    by (induction encs arbitrary: n) simp_all
  with H l show "hd_lower h buf = 20 + 2 * length encs" "hd_lower h buf \<le> hd_upper h buf"
    "hd_upper h buf \<le> length buf" "length buf \<le> 32768" "20 \<le> length buf"
    "hd_upper h buf + (\<Sum>e \<leftarrow> encs. esize e) = length buf"
    using holdsD [OF H] by simp_all
  then show "page_bounds_ok h buf" by (simp add: page_bounds_ok_def)
qed

text \<open>
  Parsing a page that holds entries: the view has one entry per slot, and each decoder finds
  the parts of the entry it reads.
\<close>

lemma parse_page_holds:
  assumes "page_holds (eff h swap) buf encs" "page_type_ok (hd_flags (eff h swap) buf)"
  shows "pv_parse h pgno buf swap = Ok (view_of h pgno buf swap)"
    "pv_nentries (view_of h pgno buf swap) = length encs"
  using page_holds_header [OF assms(1)] assms(2) by (simp_all add: pv_parse_eq)

lemma unat_of_length: "n \<le> 32768 \<Longrightarrow> unat (of_nat n :: u32) = n"
  by simp

lemma leaf_entry_read:
  assumes P: "page_holds (eff h swap) buf (map (enc_bleaf (eff h swap)) kvs)" and i: "i < length kvs"
  obtains ko kl dof dl where
    "pv_leaf_entry h (view_of h pgno buf swap) i = Ok \<lparr>le_key = Inline ko kl, le_data = Inline dof dl\<rparr>"
    "pv_inline (view_of h pgno buf swap) (Inline ko kl) = Ok (fst (kvs ! i))"
    "pv_inline (view_of h pgno buf swap) (Inline dof dl) = Ok (snd (kvs ! i))"
proof -
  let ?e = "eff h swap" and ?v = "view_of h pgno buf swap"
  obtain k v where kv: "kvs ! i = (k, v)" by fastforce
  let ?o = "hd_linp ?e buf i"
  have i': "i < length (map (enc_bleaf ?e) kvs)" using i by simp
  note s = page_holds_slot [OF P i']
  have len: "?o + 9 + length k + length v \<le> length buf" "length buf \<le> 32768"
    using s i kv by simp_all
  have store: "sub buf ?o (length (enc_bleaf ?e (k, v))) = enc_bleaf ?e (k, v)"
    using s(5) i kv by simp
  note p = parts4 [OF store, unfolded enc_bleaf_def fst_conv snd_conv, OF refl]
  have p1: "sub buf ?o 4 = u32_to_ne_bytes ?e (of_nat (length k))"
    "sub buf (?o + 4) 4 = u32_to_ne_bytes ?e (of_nat (length v))"
    "buf ! (?o + 8) = 0" "sub buf (?o + 9) (length (k @ v)) = k @ v"
    using p len by simp_all
  have p2: "sub buf (?o + 9) (length k) = k" "sub buf (?o + 9 + length k) (length v) = v"
    using sub_parts [OF p1(4)] len by simp_all
  have off: "pv_entry_offset h ?v i = Ok ?o"
    using s i page_holds_header(1) [OF P] by (simp add: pv_entry_offset_eq)
  have e: "pv_leaf_entry h ?v i = Ok \<lparr>le_key = Inline (of_nat (?o + 9)) (of_nat (length k)),
      le_data = Inline (of_nat (?o + 9 + length k)) (of_nat (length v))\<rparr>"
    using len p1 by (simp add: pv_leaf_entry_def off pv_u32_at_eq pv_byte_at_eq Let_def
        checked_add_Some pv_decode_item_def unat_of_length)
  have "pv_inline ?v (Inline (of_nat (?o + 9)) (of_nat (length k))) = Ok k"
    using len p2(1) by (subst pv_inline_eq) (simp_all add: unat_of_length del: of_nat_add)
  moreover have "pv_inline ?v (Inline (of_nat (?o + 9 + length k)) (of_nat (length v))) = Ok v"
    using len p2(2) by (subst pv_inline_eq) (simp_all add: unat_of_length del: of_nat_add)
  ultimately show ?thesis using that [OF e] kv by simp
qed

lemma internal_entry_read:
  assumes P: "page_holds (eff h swap) buf (map (enc_bint (eff h swap)) kcs)" and i: "i < length kcs"
  obtains ko kl where
    "pv_internal_entry h (view_of h pgno buf swap) i = Ok \<lparr>ie_key = Inline ko kl, ie_child = snd (kcs ! i)\<rparr>"
    "pv_inline (view_of h pgno buf swap) (Inline ko kl) = Ok (fst (kcs ! i))"
proof -
  let ?e = "eff h swap" and ?v = "view_of h pgno buf swap"
  obtain k c where kc: "kcs ! i = (k, c)" by fastforce
  let ?o = "hd_linp ?e buf i"
  have i': "i < length (map (enc_bint ?e) kcs)" using i by simp
  note s = page_holds_slot [OF P i']
  have len: "?o + 9 + length k \<le> length buf" "length buf \<le> 32768"
    using s i kc by simp_all
  have store: "sub buf ?o (length (enc_bint ?e (k, c))) = enc_bint ?e (k, c)"
    using s(5) i kc by simp
  note p = parts4 [OF store, unfolded enc_bint_def fst_conv snd_conv, OF refl]
  have p1: "sub buf ?o 4 = u32_to_ne_bytes ?e (of_nat (length k))"
    "sub buf (?o + 4) 4 = u32_to_ne_bytes ?e c"
    "buf ! (?o + 8) = 0" "sub buf (?o + 9) (length k) = k"
    using p len by simp_all
  have off: "pv_entry_offset h ?v i = Ok ?o"
    using s i page_holds_header(1) [OF P] by (simp add: pv_entry_offset_eq)
  have e: "pv_internal_entry h ?v i = Ok \<lparr>ie_key = Inline (of_nat (?o + 9)) (of_nat (length k)), ie_child = c\<rparr>"
    using len p1 by (simp add: pv_internal_entry_def off pv_u32_at_eq pv_byte_at_eq Let_def
        checked_add_Some pv_decode_item_def unat_of_length)
  have "pv_inline ?v (Inline (of_nat (?o + 9)) (of_nat (length k))) = Ok k"
    using len p1(4) by (subst pv_inline_eq) (simp_all add: unat_of_length del: of_nat_add)
  then show ?thesis using that kc e by simp
qed

end
