(* ===== verification/Page_Edit.thy ===== *)
theory Page_Edit
  imports Encodings
begin

text \<open>
  What the page-editing functions of the writer do to the entries a page holds. An entry is
  placed below the others (\<open>place\<close>); a split copies a range of entries to a fresh page and
  leaves a slot open for the new entry; an insertion moves the slots above it up by one; a
  deletion closes the gap in the payload and moves the slots down. Each is described as an
  operation on the list of entries: \<open>ins_at\<close>, \<open>take\<close>, \<open>drop\<close> and \<open>del_at_pos\<close>.
\<close>

definition ins_at :: "nat \<Rightarrow> 'a \<Rightarrow> 'a list \<Rightarrow> 'a list" where
  "ins_at i x xs = take i xs @ x # drop i xs"

definition rem_at :: "nat \<Rightarrow> 'a list \<Rightarrow> 'a list" where
  "rem_at i xs = take i xs @ drop (Suc i) xs"

lemma length_ins_at [simp]: "i \<le> length xs \<Longrightarrow> length (ins_at i x xs) = Suc (length xs)"
  by (simp add: ins_at_def)

lemma length_rem_at [simp]: "i < length xs \<Longrightarrow> length (rem_at i xs) = length xs - 1"
  by (simp add: rem_at_def)

lemma ins_at_not_Nil [simp]: "ins_at i x xs \<noteq> []"
  by (simp add: ins_at_def)

lemma map_ins_at: "map f (ins_at i x xs) = ins_at i (f x) (map f xs)"
  by (simp add: ins_at_def take_map drop_map)

lemma map_rem_at: "map f (rem_at i xs) = rem_at i (map f xs)"
  by (simp add: rem_at_def take_map drop_map)

lemma set_ins_at [simp]: "set (ins_at i x xs) = insert x (set xs)"
  unfolding ins_at_def using set_append [of "take i xs" "drop i xs"] by auto

lemma nth_ins_at:
  "i \<le> length xs \<Longrightarrow> j \<le> length xs \<Longrightarrow>
   ins_at i x xs ! j = (if j < i then xs ! j else if j = i then x else xs ! (j - 1))"
  by (auto simp: ins_at_def nth_append nth_Cons' not_less)

lemma nth_rem_at:
  "i < length xs \<Longrightarrow> j < length xs - 1 \<Longrightarrow> rem_at i xs ! j = (if j < i then xs ! j else xs ! (j + 1))"
  by (auto simp: rem_at_def nth_append)

lemma sum_list_ins_at: "(\<Sum>e \<leftarrow> ins_at i x xs. f e) = (f x :: nat) + (\<Sum>e \<leftarrow> xs. f e)"
proof -
  have "(\<Sum>e \<leftarrow> xs. f e) = (\<Sum>e \<leftarrow> take i xs. f e) + (\<Sum>e \<leftarrow> drop i xs. f e)"
    by (metis append_take_drop_id map_append sum_list_append)
  then show ?thesis by (simp add: ins_at_def)
qed

lemma sum_list_rem_at:
  assumes "i < length xs"
  shows "(\<Sum>e \<leftarrow> xs. f e) = (f (xs ! i) :: nat) + (\<Sum>e \<leftarrow> rem_at i xs. f e)"
proof -
  have "xs = take i xs @ xs ! i # drop (Suc i) xs" using assms by (simp add: id_take_nth_drop)
  then have "(\<Sum>e \<leftarrow> xs. f e) = (\<Sum>e \<leftarrow> take i xs @ xs ! i # drop (Suc i) xs. f e)" by simp
  then show ?thesis by (simp add: rem_at_def)
qed

section \<open>Placing one entry\<close>

definition place :: "endian \<Rightarrow> bytes \<Rightarrow> nat \<Rightarrow> bytes \<Rightarrow> bytes" where
  "place h dst slot e =
     (let up = hd_upper h dst - esize e in
      splice (wr16 h (wr16 h dst 18 up) (20 + 2 * slot) up) up e)"

lemma place_facts:
  assumes room: "22 + 2 * slot + esize e \<le> hd_upper h dst"
    and up: "hd_upper h dst \<le> length dst" "length dst \<le> 32768"
  shows "length (place h dst slot e) = length dst"
    "hd_upper h (place h dst slot e) = hd_upper h dst - esize e"
    "hd_lower h (place h dst slot e) = hd_lower h dst"
    "ident (place h dst slot e) = ident dst"
    "22 + 2 * j + esize e \<le> hd_upper h dst \<Longrightarrow>
      hd_linp h (place h dst slot e) j = (if j = slot then hd_upper h dst - esize e else hd_linp h dst j)"
    "sub (place h dst slot e) (hd_upper h dst - esize e) (length e) = e"
    "hd_upper h dst \<le> o' \<Longrightarrow> sub (place h dst slot e) o' n = sub dst o' n"
proof -
  let ?u = "hd_upper h dst - esize e"
  have e: "length e \<le> esize e" by (rule esize_ge)
  note b = room up e
  show "length (place h dst slot e) = length dst" using b by (simp add: place_def Let_def)
  show "hd_upper h (place h dst slot e) = ?u"
    using b by (simp add: place_def Let_def hd_splice hd_wr_linp)
  show "hd_lower h (place h dst slot e) = hd_lower h dst"
    using b by (simp add: place_def Let_def hd_splice hd_wr_linp)
  show "ident (place h dst slot e) = ident dst" using b by (simp add: place_def Let_def)
  show "hd_linp h (place h dst slot e) j = (if j = slot then ?u else hd_linp h dst j)"
    if "22 + 2 * j + esize e \<le> hd_upper h dst"
    using b that by (simp add: place_def Let_def hd_splice hd_wr_linp)
  show "sub (place h dst slot e) ?u (length e) = e"
    using b by (simp add: place_def Let_def sub_splice_same)
  show "sub (place h dst slot e) o' n = sub dst o' n" if "hd_upper h dst \<le> o'"
  proof -
    have "?u + length e \<le> o'" "20 + 2 * slot + 2 \<le> o'" using b that by linarith+
    then show ?thesis using b by (simp add: place_def Let_def sub_splice_other sub_wr16)
  qed
qed

lemma holds_place:
  assumes H: "holds h dst L (hd_upper h dst) ents" and "e \<noteq> []"
    and slot: "22 + 2 * slot \<le> L" "slot \<notin> fst ` set ents"
    and room: "L + esize e \<le> hd_upper h dst"
  shows "holds h (place h dst slot e) L (hd_upper h (place h dst slot e)) ((slot, e) # ents)"
proof -
  have r: "22 + 2 * slot + esize e \<le> hd_upper h dst" using slot room by simp
  note f = place_facts [OF r holdsD(3) [OF H] holdsD(4) [OF H, unfolded sizes]]
  have "holds h (place h dst slot e) L (hd_upper h dst) ents"
  proof (rule holds_frame [OF H f(1) holdsD(1,2) [OF H]])
    fix i e' assume i: "(i, e') \<in> set ents"
    then have "i \<noteq> slot" using slot(2) by force
    then show "22 + 2 * i \<le> L \<and> hd_linp h (place h dst slot e) i = hd_linp h dst i"
      using holds_slotD(1) [OF H i] f(5) [of i] room by simp
    show "sub (place h dst slot e) (hd_linp h dst i) (length e') = sub dst (hd_linp h dst i) (length e')"
      using holds_slotD(3) [OF H i] by (rule f(7))
  qed
  from holds_add [OF this assms(2) slot(1,2) room] show ?thesis
    using f(2,6) f(5) [of slot] r by simp
qed

text \<open>The two functions that write the new entry of a split.\<close>

lemma esize_le_upper:
  "22 + 2 * slot + esize e \<le> hd_upper h dst \<Longrightarrow> hd_upper h dst \<le> length dst \<Longrightarrow>
   length dst \<le> 32768 \<Longrightarrow> length e \<le> 32768 \<and> hd_upper h dst - esize e + length e \<le> length dst"
  using esize_ge [of e] by linarith

lemma place_steps:
  assumes "22 + 2 * slot + n \<le> hd_upper h dst" "hd_upper h dst \<le> length dst" "length dst \<le> 32768"
    "0 < n"
  shows "and_then (pb_upper h dst) (\<lambda>upper. and_then (usub upper n) (\<lambda>new_upper.
      and_then (pb_set_upper h dst new_upper) (\<lambda>d1.
      and_then (pb_set_linp h d1 slot new_upper) (\<lambda>d2. f d2 new_upper))))
    = f (wr16 h (wr16 h dst 18 (hd_upper h dst - n)) (20 + 2 * slot) (hd_upper h dst - n))
        (hd_upper h dst - n)"
  using assms by (simp add: pb_header pb_set_eqs pb_set_linp_eq)

lemma write_entry_at_slot_eq:
  assumes "22 + 2 * slot + leaf_bytes (k, v) \<le> hd_upper h dst" "hd_upper h dst \<le> length dst"
    "length dst \<le> 32768"
  shows "write_entry_at_slot h dst slot k v = Ok (place h dst slot (enc_bleaf h (k, v)))"
proof -
  have n: "align_entry (9 + length k + length v) = leaf_bytes (k, v)" by (simp add: leaf_bytes_def)
  have "0 < leaf_bytes (k, v)" using align_entry_ge [of "9 + length k + length v"] by (simp add: leaf_bytes_def)
  note s = place_steps [OF assms this]
  have "9 + length k + length v \<le> leaf_bytes (k, v)" by (simp add: leaf_bytes_def align_entry_ge)
  then show ?thesis
    using assms unfolding write_entry_at_slot_def Let_def sizes n s
    by (subst write_bleaf_inline_eq) (simp_all add: place_def Let_def)
qed

lemma write_internal_entry_at_slot_eq:
  assumes "22 + 2 * slot + int_bytes (take n k, c) \<le> hd_upper h dst" "hd_upper h dst \<le> length dst"
    "length dst \<le> 32768" "n \<le> length k"
  shows "write_internal_entry_at_slot h dst slot n k c = Ok (place h dst slot (enc_bint h (take n k, c)))"
proof -
  have n: "align_entry (9 + n) = int_bytes (take n k, c)" using assms(4) by (simp add: int_bytes_def min_def)
  have "0 < int_bytes (take n k, c)" using align_entry_ge [of "9 + n"] n by simp
  note s = place_steps [OF assms(1-3) this]
  have "9 + n \<le> int_bytes (take n k, c)" using align_entry_ge [of "9 + n"] n by simp
  then show ?thesis
    using assms unfolding write_internal_entry_at_slot_def Let_def sizes n s
    by (subst write_binternal_inline_eq) (simp_all add: place_def Let_def)
qed

section \<open>Copying a range\<close>

text \<open>
  The slot that the \<open>j\<close>-th copied entry gets when the slot \<open>r\<close> is reserved, and the number
  of slots after the copy.
\<close>

definition slot_of :: "nat option \<Rightarrow> nat \<Rightarrow> nat" where
  "slot_of r j = (case r of None \<Rightarrow> j | Some s \<Rightarrow> if s \<le> j then j + 1 else j)"

definition slots_total :: "nat option \<Rightarrow> nat \<Rightarrow> nat" where
  "slots_total r n = (case r of None \<Rightarrow> n | Some _ \<Rightarrow> n + 1)"

text \<open>
  A copy of the entries \<open>a\<close> to \<open>b\<close> of a page with entries \<open>encs\<close>: the copying function
  places each entry when there is room for it.
\<close>

definition copies :: "endian \<Rightarrow> (nat \<Rightarrow> nat \<Rightarrow> bytes \<Rightarrow> bytes outcome) \<Rightarrow> bytes list \<Rightarrow> bool" where
  "copies h copy encs \<longleftrightarrow> (\<forall>i < length encs. \<forall>slot dst.
     22 + 2 * slot + esize (encs ! i) \<le> hd_upper h dst \<longrightarrow> hd_upper h dst \<le> length dst \<longrightarrow>
     length dst \<le> 32768 \<longrightarrow> copy i slot dst = Ok (place h dst slot (encs ! i)))"

definition copied :: "bytes list \<Rightarrow> nat \<Rightarrow> nat option \<Rightarrow> nat \<Rightarrow> (nat \<times> bytes) list" where
  "copied encs a r n = map (\<lambda>j. (slot_of r j, encs ! (a + j))) (rev [0..<n])"

lemma slot_of_less: "slot_of r j < slots_total r n" if "j < n"
  using that by (auto simp: slot_of_def slots_total_def split: option.split)

lemma slot_of_inj: "slot_of r i = slot_of r j \<longleftrightarrow> i = j"
  by (auto simp: slot_of_def split: option.splits if_splits)

lemma copied_Suc: "copied encs a r (Suc n) = (slot_of r n, encs ! (a + n)) # copied encs a r n"
  by (simp add: copied_def)

lemma copied_fresh: "n \<le> m \<Longrightarrow> slot_of r m \<notin> fst ` set (copied encs a r n)"
  by (auto simp: copied_def slot_of_inj)

lemma copy_loop_holds:
  assumes C: "copies h copy encs" and ne: "[] \<notin> set encs"
    and H: "holds h dst L (hd_upper h dst) []"
    and n: "a + n \<le> length encs" and L: "20 + 2 * slots_total r n \<le> L"
    and room: "L + (\<Sum>e \<leftarrow> map (\<lambda>j. encs ! (a + j)) [0..<n]. esize e) \<le> hd_upper h dst"
    and rn: "\<And>s. r = Some s \<Longrightarrow> s \<le> n"
  shows "\<exists>d. for_each [a..<a + n] (copy_step copy r) (0, dst)
        = Ok (if n = 0 then 0 else slot_of r (n - 1) + 1, d)
      \<and> holds h d L (hd_upper h d) (copied encs a r n) \<and> hd_lower h d = hd_lower h dst
      \<and> ident d = ident dst \<and> length d = length dst
      \<and> hd_upper h d + (\<Sum>e \<leftarrow> map (\<lambda>j. encs ! (a + j)) [0..<n]. esize e) = hd_upper h dst"
proof -
  have "m \<le> n \<Longrightarrow> \<exists>d. for_each [a..<a + m] (copy_step copy r) (0, dst)
        = Ok (if m = 0 then 0 else slot_of r (m - 1) + 1, d)
      \<and> holds h d L (hd_upper h d) (copied encs a r m) \<and> hd_lower h d = hd_lower h dst
      \<and> ident d = ident dst \<and> length d = length dst
      \<and> hd_upper h d + (\<Sum>e \<leftarrow> map (\<lambda>j. encs ! (a + j)) [0..<m]. esize e) = hd_upper h dst" for m
  proof (induction m)
    case 0
    show ?case using H by (simp add: copied_def)
  next
    case (Suc m)
    then obtain d where d: "for_each [a..<a + m] (copy_step copy r) (0, dst)
        = Ok (if m = 0 then 0 else slot_of r (m - 1) + 1, d)"
      "holds h d L (hd_upper h d) (copied encs a r m)" "hd_lower h d = hd_lower h dst"
      "ident d = ident dst" "length d = length dst"
      "hd_upper h d + (\<Sum>e \<leftarrow> map (\<lambda>j. encs ! (a + j)) [0..<m]. esize e) = hd_upper h dst"
      by auto
    let ?e = "encs ! (a + m)" and ?s = "slot_of r m"
    have s: "(if Some (if m = 0 then 0 else slot_of r (m - 1) + 1) = r
        then (if m = 0 then 0 else slot_of r (m - 1) + 1) + 1
        else (if m = 0 then 0 else slot_of r (m - 1) + 1)) = ?s"
      by (cases m) (auto simp: slot_of_def split: option.splits)
    have split: "[0..<n] = [0..<Suc m] @ [Suc m..<n]"
      using Suc.prems upt_add_eq_append [of 0 "Suc m" "n - Suc m"] by simp
    have "(\<Sum>e \<leftarrow> map (\<lambda>j. encs ! (a + j)) [0..<Suc m]. esize e)
        \<le> (\<Sum>e \<leftarrow> map (\<lambda>j. encs ! (a + j)) [0..<n]. esize e)"
      unfolding split by simp
    then have room': "L + esize ?e \<le> hd_upper h d" using room d(6) by simp
    have slot: "22 + 2 * ?s \<le> L" using slot_of_less [of m n r] Suc.prems L by simp
    have idx: "a + m < length encs" using Suc.prems n by simp
    then have "?e \<noteq> []" using ne by (metis nth_mem)
    note hp = holds_place [OF d(2) this slot copied_fresh [OF order_refl] room']
    have r1: "22 + 2 * ?s + esize ?e \<le> hd_upper h d" using slot room' by simp
    note b = holdsD(3) [OF d(2)] holdsD(4) [OF d(2), unfolded sizes]
    note f = place_facts [OF r1 b]
    have "copy (a + m) ?s d = Ok (place h d ?s ?e)"
      using C idx r1 b unfolding copies_def by blast
    then have "copy_step copy r (a + m) (if m = 0 then 0 else slot_of r (m - 1) + 1, d)
        = Ok (?s + 1, place h d ?s ?e)"
      unfolding copy_step_def prod.case Let_def s by simp
    then have "for_each [a..<a + Suc m] (copy_step copy r) (0, dst) = Ok (?s + 1, place h d ?s ?e)"
      by (simp add: for_each_append d(1))
    then show ?case
      using hp f(1-4) d r1 by (intro exI [of _ "place h d ?s ?e"]) (simp add: copied_Suc)
  qed
  then show ?thesis by blast
qed

lemma enumerate_conv: "List.enumerate 0 xs = map (\<lambda>j. (j, xs ! j)) [0..<length xs]"
  by (rule nth_equalityI) (simp_all add: nth_enumerate_eq)

lemma map_nth_sub:
  assumes "a + n \<le> length encs"
  shows "map (\<lambda>j. encs ! (a + j)) [0..<n] = sub encs a n"
  using assms by (intro nth_equalityI) (simp_all add: nth_sub)

lemma copied_plain:
  "a + n \<le> length encs \<Longrightarrow> mset (copied encs a None n) = mset (List.enumerate 0 (sub encs a n))"
proof -
  assume "a + n \<le> length encs"
  then have "List.enumerate 0 (sub encs a n) = map (\<lambda>j. (slot_of None j, encs ! (a + j))) [0..<n]"
    by (auto simp: enumerate_conv slot_of_def nth_sub)
  then show ?thesis by (simp add: copied_def rev_map [symmetric])
qed

lemma copied_reserved:
  assumes "a + n \<le> length encs" "r \<le> n"
  shows "mset ((r, e) # copied encs a (Some r) n) = mset (List.enumerate 0 (ins_at r e (sub encs a n)))"
proof -
  have "List.enumerate 0 (ins_at r e (sub encs a n))
      = map (\<lambda>j. (j, encs ! (a + j))) [0..<r] @ (r, e) # map (\<lambda>j. (j + 1, encs ! (a + j))) [r..<n]"
    using assms
    by (intro nth_equalityI)
      (auto simp: nth_enumerate_eq nth_ins_at nth_append nth_Cons' nth_sub not_less)
  moreover have "mset (copied encs a (Some r) n)
      = mset (map (\<lambda>j. (slot_of (Some r) j, encs ! (a + j))) ([0..<r] @ [r..<n]))"
    using assms upt_add_eq_append [of 0 r "n - r"]
    by (simp add: copied_def rev_map [symmetric])
  moreover have "map (\<lambda>j. (slot_of (Some r) j, encs ! (a + j))) [0..<r] = map (\<lambda>j. (j, encs ! (a + j))) [0..<r]"
    "map (\<lambda>j. (slot_of (Some r) j, encs ! (a + j))) [r..<n] = map (\<lambda>j. (j + 1, encs ! (a + j))) [r..<n]"
    by (auto simp: slot_of_def)
  ultimately show ?thesis by simp
qed

lemma set_lower_holds:
  assumes H: "holds h d L U ents" and v: "v = L"
  shows "pb_set_lower h d v = Ok (wr16 h d 16 v)" "holds h (wr16 h d 16 v) L U ents"
    "hd_lower h (wr16 h d 16 v) = v" "hd_upper h (wr16 h d 16 v) = hd_upper h d"
    "ident (wr16 h d 16 v) = ident d" "length (wr16 h d 16 v) = length d"
proof -
  note b = holdsD(1-4) [OF H]
  have len: "20 \<le> length d" "v \<le> 32768" using b v by simp_all
  then show "pb_set_lower h d v = Ok (wr16 h d 16 v)" by (simp add: pb_set_eqs)
  show "hd_lower h (wr16 h d 16 v) = v" "hd_upper h (wr16 h d 16 v) = hd_upper h d"
    "ident (wr16 h d 16 v) = ident d" "length (wr16 h d 16 v) = length d"
    using len by simp_all
  show "holds h (wr16 h d 16 v) L U ents"
  proof (rule holds_frame [OF H])
    fix i e assume i: "(i, e) \<in> set ents"
    show "22 + 2 * i \<le> L \<and> hd_linp h (wr16 h d 16 v) i = hd_linp h d i"
      using holds_slotD(1) [OF H i] len by simp
    show "sub (wr16 h d 16 v) (hd_linp h d i) (length e) = sub d (hd_linp h d i) (length e)"
      using holds_slotD(3) [OF H i] b by (intro sub_wr16) simp_all
  qed (use b len in simp_all)
qed

lemma last_slot:
  assumes "\<And>s. r = Some s \<Longrightarrow> s \<le> n"
  shows "(let slot = (if n = 0 then 0 else slot_of r (n - 1) + 1) in
          if Some slot = r then slot + 1 else slot) = slots_total r n"
  using assms by (cases n) (auto simp: slot_of_def slots_total_def Let_def split: option.splits)

lemma copy_range_holds:
  assumes C: "copies h copy encs" and ne: "[] \<notin> set encs"
    and dst: "hd_upper h dst = length dst" "length dst \<le> 32768"
    and n: "a + n \<le> length encs"
    and room: "20 + 2 * slots_total r n + (\<Sum>e \<leftarrow> sub encs a n. esize e) \<le> length dst"
    and rn: "\<And>s. r = Some s \<Longrightarrow> s \<le> n"
  obtains d where "copy_range copy h a (a + n) r dst = Ok d"
    "holds h d (20 + 2 * slots_total r n) (hd_upper h d) (copied encs a r n)"
    "hd_lower h d = 20 + 2 * slots_total r n" "ident d = ident dst" "length d = length dst"
    "hd_upper h d + (\<Sum>e \<leftarrow> sub encs a n. esize e) = length dst"
proof -
  let ?L = "20 + 2 * slots_total r n"
  have "holds h dst ?L (hd_upper h dst) []"
    unfolding dst(1) by (rule holds_empty) (use room dst in simp_all)
  from copy_loop_holds [OF C ne this n order_refl _ rn] room dst(1)
  obtain d where d: "for_each [a..<a + n] (copy_step copy r) (0, dst)
        = Ok (if n = 0 then 0 else slot_of r (n - 1) + 1, d)"
      "holds h d ?L (hd_upper h d) (copied encs a r n)" "hd_lower h d = hd_lower h dst"
      "ident d = ident dst" "length d = length dst"
      "hd_upper h d + (\<Sum>e \<leftarrow> sub encs a n. esize e) = length dst"
    unfolding map_nth_sub [OF n] by auto
  have v: "20 + slots_total r n * 2 = ?L" by simp
  note s = set_lower_holds [OF d(2) v]
  have "copy_range copy h a (a + n) r dst = Ok (wr16 h d 16 (20 + slots_total r n * 2))"
    using s(1) last_slot [of r n] rn unfolding copy_range_def d(1) and_then_simps prod.case Let_def sizes
    by simp
  then show ?thesis using that s(2-6) d(4-6) by simp
qed

lemma copy_range_plain:
  assumes "copies h copy encs" "[] \<notin> set encs" "hd_upper h dst = length dst" "length dst \<le> 32768"
    and n: "a + n \<le> length encs"
    and "20 + 2 * n + (\<Sum>e \<leftarrow> sub encs a n. esize e) \<le> length dst"
  obtains d where "copy_range copy h a (a + n) None dst = Ok d" "page_holds h d (sub encs a n)"
    "ident d = ident dst" "length d = length dst"
proof -
  obtain d where d: "copy_range copy h a (a + n) None dst = Ok d"
      "holds h d (20 + 2 * n) (hd_upper h d) (copied encs a None n)"
      "hd_lower h d = 20 + 2 * n" "ident d = ident dst" "length d = length dst"
    by (rule copy_range_holds [OF assms(1-5), where r = None])
      (use assms(6) in \<open>simp_all add: slots_total_def\<close>)
  have "page_holds h d (sub encs a n)"
    unfolding page_holds_def d(3) using d(2) n by (simp add: holds_perm [OF copied_plain [OF n]])
  with d show ?thesis using that by blast
qed

lemma copy_range_reserved:
  assumes "copies h copy encs" "[] \<notin> set encs" "hd_upper h dst = length dst" "length dst \<le> 32768"
    and n: "a + n \<le> length encs" and r: "r \<le> n" and e: "e \<noteq> []"
    and room: "22 + 2 * n + (\<Sum>e \<leftarrow> sub encs a n. esize e) + esize e \<le> length dst"
  obtains d where "copy_range copy h a (a + n) (Some r) dst = Ok d"
    "page_holds h (place h d r e) (ins_at r e (sub encs a n))"
    "22 + 2 * r + esize e \<le> hd_upper h d" "hd_upper h d \<le> length d" "length d = length dst"
    "ident (place h d r e) = ident dst" "length (place h d r e) = length dst"
proof -
  let ?L = "22 + 2 * n"
  obtain d where d: "copy_range copy h a (a + n) (Some r) dst = Ok d"
      "holds h d ?L (hd_upper h d) (copied encs a (Some r) n)"
      "hd_lower h d = ?L" "ident d = ident dst" "length d = length dst"
      "hd_upper h d + (\<Sum>e \<leftarrow> sub encs a n. esize e) = length dst"
    by (rule copy_range_holds [OF assms(1-5), where r = "Some r"])
      (use room r in \<open>simp_all add: slots_total_def\<close>)
  have fresh: "r \<notin> fst ` set (copied encs a (Some r) n)"
    by (auto simp: copied_def slot_of_def split: if_splits)
  have up: "?L + esize e \<le> hd_upper h d" using d(6) room by simp
  then have r1: "22 + 2 * r + esize e \<le> hd_upper h d" using r by simp
  have le: "hd_upper h d \<le> length d" "length d \<le> 32768" using d(5,6) assms(4) by simp_all
  note f = place_facts [OF r1 le]
  have "holds h (place h d r e) ?L (hd_upper h (place h d r e)) ((r, e) # copied encs a (Some r) n)"
    by (rule holds_place [OF d(2) e _ fresh up]) (use r in simp)
  then have "page_holds h (place h d r e) (ins_at r e (sub encs a n))"
    unfolding page_holds_def f(3) d(3)
    using n r by (simp add: holds_perm [OF copied_reserved [OF n r]])
  with d r1 le f(1,4) show ?thesis using that by simp
qed

end
