(* ===== verification/Page_Insert.thy ===== *)
theory Page_Insert
  imports Page_Edit
begin

text \<open>
  Insertion into a page in place: \<open>reserve_slot\<close> moves the slots from \<open>idx\<close> on up by
  one, points slot \<open>idx\<close> below the payload and adjusts the two bounds; the caller then writes
  the bytes of the entry. Together they insert the entry at position \<open>idx\<close> of the page.
\<close>

definition open_slot :: "bytes \<Rightarrow> nat \<Rightarrow> nat \<Rightarrow> bytes" where
  "open_slot buf idx n = splice buf (22 + 2 * idx) (sub buf (20 + 2 * idx) (2 * (n - idx)))"

lemma open_slot_facts:
  assumes "idx \<le> n" "22 + 2 * n \<le> length buf"
  shows "length (open_slot buf idx n) = length buf"
    "hd_linp h (open_slot buf idx n) j =
       (if idx < j \<and> j \<le> n then hd_linp h buf (j - 1) else hd_linp h buf j)"
    "hd_lower h (open_slot buf idx n) = hd_lower h buf" "hd_upper h (open_slot buf idx n) = hd_upper h buf"
    "ident (open_slot buf idx n) = ident buf"
    "22 + 2 * n \<le> o' \<Longrightarrow> sub (open_slot buf idx n) o' m = sub buf o' m"
proof -
  have len: "length (sub buf (20 + 2 * idx) (2 * (n - idx))) = 2 * (n - idx)"
    and fit: "22 + 2 * idx + 2 * (n - idx) \<le> length buf"
    using assms by simp_all
  note f = len fit
  show "length (open_slot buf idx n) = length buf" using f by (simp add: open_slot_def)
  show "hd_lower h (open_slot buf idx n) = hd_lower h buf" "hd_upper h (open_slot buf idx n) = hd_upper h buf"
    "ident (open_slot buf idx n) = ident buf"
    using f by (simp_all add: open_slot_def hd_splice)
  show "sub (open_slot buf idx n) o' m = sub buf o' m" if "22 + 2 * n \<le> o'"
  proof -
    have "22 + 2 * idx + 2 * (n - idx) \<le> o'" using that assms(1) by linarith
    then show ?thesis using f by (simp add: open_slot_def sub_splice_other)
  qed
  show "hd_linp h (open_slot buf idx n) j =
       (if idx < j \<and> j \<le> n then hd_linp h buf (j - 1) else hd_linp h buf j)"
  proof (cases "idx < j \<and> j \<le> n")
    case True
    then obtain j' where j': "j = Suc j'" "idx \<le> j'" "j' < n" by (cases j) auto
    have at: "20 + 2 * idx + (20 + 2 * Suc j' - (22 + 2 * idx)) = 20 + 2 * j'" using j' by simp
    have "22 + 2 * idx \<le> 20 + 2 * Suc j'" "20 + 2 * Suc j' + 2 \<le> 22 + 2 * idx + 2 * (n - idx)"
      "20 + 2 * Suc j' - (22 + 2 * idx) + 2 \<le> 2 * (n - idx)"
      using j' by arith+
    then have "sub (open_slot buf idx n) (20 + 2 * Suc j') 2 = sub buf (20 + 2 * j') 2"
      unfolding open_slot_def
      by (subst sub_splice_inside) (use f in \<open>simp_all only: len sub_sub at\<close>)
    then have "sub (open_slot buf idx n) (20 + 2 * j) 2 = sub buf (20 + 2 * (j - 1)) 2"
      using j' by simp
    with True show ?thesis by (simp add: hd_linp_def)
  next
    case False
    then have "20 + 2 * j + 2 \<le> 22 + 2 * idx \<or> 22 + 2 * idx + 2 * (n - idx) \<le> 20 + 2 * j"
      using assms(1) by linarith
    then have "sub (open_slot buf idx n) (20 + 2 * j) 2 = sub buf (20 + 2 * j) 2"
      using f by (simp add: open_slot_def sub_splice_other)
    then show ?thesis unfolding if_not_P [OF False] by (simp add: hd_linp_def)
  qed
qed

lemma enumerate_ins_at:
  assumes "idx \<le> length encs"
  shows "mset (List.enumerate 0 (ins_at idx e encs))
    = mset ((idx, e) # map (\<lambda>(i, e). (if i < idx then i else i + 1, e)) (List.enumerate 0 encs))"
proof -
  have "List.enumerate 0 (ins_at idx e encs)
      = map (\<lambda>j. (j, encs ! j)) [0..<idx] @ (idx, e) # map (\<lambda>j. (j + 1, encs ! j)) [idx..<length encs]"
    using assms by (intro nth_equalityI) (auto simp: nth_enumerate_eq nth_ins_at nth_append nth_Cons' not_less)
  moreover have "[0..<length encs] = [0..<idx] @ [idx..<length encs]"
    using assms upt_add_eq_append [of 0 idx "length encs - idx"] by simp
  then have "map (\<lambda>(i, e). (if i < idx then i else i + 1, e)) (List.enumerate 0 encs)
      = map (\<lambda>j. (j, encs ! j)) [0..<idx] @ map (\<lambda>j. (j + 1, encs ! j)) [idx..<length encs]"
    by (simp add: enumerate_conv)
  ultimately show ?thesis by simp
qed

definition slotted :: "endian \<Rightarrow> bytes \<Rightarrow> nat \<Rightarrow> nat \<Rightarrow> nat \<Rightarrow> nat \<Rightarrow> bytes" where
  "slotted h buf idx n lower up =
     wr16 h (wr16 h (wr16 h (open_slot buf idx n) (20 + 2 * idx) up) 16 (lower + 2)) 18 up"

lemma reserve_slot_eq:
  assumes P: "page_holds h buf encs" and idx: "idx \<le> length encs"
    and room: "hd_lower h buf + 2 + k \<le> hd_upper h buf" and k: "align_entry k = k" "0 < k"
  shows "pb_reserve_slot h buf idx k =
    Ok (slotted h buf idx (length encs) (hd_lower h buf) (hd_upper h buf - k), hd_upper h buf - k)"
proof -
  note p = page_holds_header [OF P]
  let ?n = "length encs" and ?u = "hd_upper h buf - k"
  have len: "22 + 2 * ?n \<le> length buf" using p room by linarith
  note f = open_slot_facts [OF idx len]
  have shift: "(if idx < ?n
      then let start = PAGE_HEADER_SIZE + idx * 2; end = PAGE_HEADER_SIZE + ?n * 2
           in copy_within buf start end (start + 2) else Ok buf) = Ok (open_slot buf idx ?n)"
  proof (cases "idx < ?n")
    case True
    have e: "20 + ?n * 2 - (20 + idx * 2) = 2 * (?n - idx)" by simp
    have "copy_within buf (20 + idx * 2) (20 + ?n * 2) (20 + idx * 2 + 2) = Ok (open_slot buf idx ?n)"
      using True len unfolding copy_within_def e open_slot_def by (simp add: mult.commute)
    then show ?thesis using True by (simp add: Let_def)
  next
    case False
    with idx show ?thesis by (simp add: open_slot_def)
  qed
  have free: "hd_upper h buf - hd_lower h buf \<ge> k + 2" "k \<le> hd_upper h buf" using room by linarith+
  have u: "?u < 32768" "?u \<le> 32768" "hd_lower h buf + 2 \<le> 32768" using p k room by linarith+
  have n: "pb_nentries h buf = Ok ?n" using p by (simp add: pb_nentries_eq)
  have s1: "pb_set_linp h (open_slot buf idx ?n) idx ?u
      = Ok (wr16 h (open_slot buf idx ?n) (20 + 2 * idx) ?u)"
    by (rule pb_set_linp_eq) (use f(1) len idx u in simp_all)
  let ?b2 = "wr16 h (open_slot buf idx ?n) (20 + 2 * idx) ?u"
  have s2: "length ?b2 = length buf"
    using f(1) len idx by simp
  have s3: "pb_set_lower h ?b2 (hd_lower h buf + 2) = Ok (wr16 h ?b2 16 (hd_lower h buf + 2))"
    by (rule pb_set_eqs(5)) (use s2 p(5) u(3) in simp_all)
  let ?b3 = "wr16 h ?b2 16 (hd_lower h buf + 2)"
  have s4: "pb_set_upper h ?b3 ?u = Ok (wr16 h ?b3 18 ?u)"
    by (rule pb_set_eqs(6)) (use s2 p(5) u(2) in simp_all)
  show ?thesis
    unfolding pb_reserve_slot_def n and_then_simps pb_free_space_eq [OF p(5,2)] pb_header [OF p(5)] shift
      s1 usub_simps [OF free(2)] k(1) s3 s4 slotted_def assert_that_simps(1) [OF idx]
      assert_that_simps(1) [OF free(1)] assert_that_simps(1) [OF refl] ..
qed

lemma insert_holds:
  assumes P: "page_holds h buf encs" and idx: "idx \<le> length encs" and e: "e \<noteq> []"
    and room: "hd_lower h buf + 2 + esize e \<le> hd_upper h buf"
  defines "b \<equiv> slotted h buf idx (length encs) (hd_lower h buf) (hd_upper h buf - esize e)"
  shows "page_holds h (splice b (hd_upper h buf - esize e) e) (ins_at idx e encs)"
    "ident (splice b (hd_upper h buf - esize e) e) = ident buf"
    "length (splice b (hd_upper h buf - esize e) e) = length buf"
    "length b = length buf" "hd_upper h buf - esize e + length e \<le> length buf"
proof -
  note p = page_holds_header [OF P]
  have H: "holds h buf (hd_lower h buf) (hd_upper h buf) (List.enumerate 0 encs)"
    using P unfolding page_holds_def by blast
  let ?n = "length encs" and ?u = "hd_upper h buf - esize e" and ?L = "hd_lower h buf + 2"
  let ?F = "splice b ?u e" and ?r = "\<lambda>i. if i < idx then i else i + 1"
  have len: "22 + 2 * ?n \<le> length buf" using p room by linarith
  note f = open_slot_facts [OF idx len]
  have el: "length e \<le> esize e" by (rule esize_ge)
  have u: "?u + length e \<le> hd_upper h buf" "22 + 2 * ?n \<le> ?u" "?u < 32768"
    using room el p esize_pos [OF e] by linarith+
  show lb: "length b = length buf" using len idx f by (simp add: b_def slotted_def)
  show fit: "?u + length e \<le> length buf" using u p by linarith
  show lF: "length ?F = length buf" using lb fit by simp
  show "ident ?F = ident buf"
    using lb fit u f len idx by (simp add: b_def slotted_def)
  have lower: "hd_lower h ?F = ?L" and upper: "hd_upper h ?F = ?u"
    using lb fit u f len idx p by (simp_all add: b_def slotted_def hd_splice hd_wr_linp)
  have linp: "hd_linp h ?F j =
      (if j = idx then ?u else if idx < j then hd_linp h buf (j - 1) else hd_linp h buf j)"
    if "j \<le> ?n" for j
    using that lb fit u f len idx p by (simp add: b_def slotted_def hd_splice hd_wr_linp)
  have pay: "sub ?F o' m = sub buf o' m" if "hd_upper h buf \<le> o'" for o' m
  proof -
    have "?u + length e \<le> o'" "20 + 2 * idx + 2 \<le> o'" "20 \<le> o'" "22 + 2 * ?n \<le> o'"
      using that u idx by linarith+
    then show ?thesis
      using lb fit f len idx by (simp add: b_def slotted_def sub_splice_other sub_wr16)
  qed
  have "holds h ?F ?L (hd_upper h buf) (map (\<lambda>(i, e). (?r i, e)) (List.enumerate 0 encs))"
  proof (rule holds_move [OF H lF])
    fix i e' assume i: "(i, e') \<in> set (List.enumerate 0 encs)"
    then have "i < ?n" by (auto simp: in_set_enumerate_eq)
    then show "22 + 2 * ?r i \<le> ?L \<and> hd_linp h ?F (?r i) = hd_linp h buf i"
      using linp [of "?r i"] p(1) by auto
    show "sub ?F (hd_linp h buf i) (length e') = sub buf (hd_linp h buf i) (length e')"
      using holds_slotD(3) [OF H i] by (rule pay)
  next
    show "inj_on ?r (fst ` set (List.enumerate 0 encs))" by (auto simp: inj_on_def)
  qed (use p room in simp_all)
  then have "holds h ?F ?L ?u ((idx, e) # map (\<lambda>(i, e). (?r i, e)) (List.enumerate 0 encs))"
  proof (rule holds_add [OF _ e])
    show "idx \<notin> fst ` set (map (\<lambda>(i, e). (?r i, e)) (List.enumerate 0 encs))"
      by (auto split: if_splits)
    show "22 + 2 * idx \<le> ?L" using idx p(1) by simp
    show "hd_linp h ?F idx = ?u" using linp [OF idx] by simp
    show "sub ?F ?u (length e) = e" using lb fit by (simp add: sub_splice_same)
  qed (use room in simp)
  then show "page_holds h ?F (ins_at idx e encs)"
    unfolding page_holds_def lower upper
    using idx p(1) by (simp add: holds_perm [OF enumerate_ins_at [OF idx]])
qed

text \<open>The two insertions of the code.\<close>

lemma insert_leaf_entry_holds:
  assumes P: "page_holds h buf (map (enc_bleaf h) kvs)" and idx: "idx \<le> length kvs"
    and room: "hd_lower h buf + 2 + leaf_bytes (k, v) \<le> hd_upper h buf"
  obtains b where "insert_leaf_entry h buf idx k v = Ok b"
    "page_holds h b (map (enc_bleaf h) (ins_at idx (k, v) kvs))" "ident b = ident buf"
    "length b = length buf"
proof -
  let ?e = "enc_bleaf h (k, v)"
  have i: "idx \<le> length (map (enc_bleaf h) kvs)" using idx by simp
  have r: "hd_lower h buf + 2 + esize ?e \<le> hd_upper h buf" using room by simp
  note p = page_holds_header [OF P]
  note f = insert_holds [OF P i enc_nonempty(1) r]
  have n: "align_entry (9 + length k + length v) = esize ?e" by (simp add: leaf_bytes_def)
  have "align_entry (esize ?e) = esize ?e" "0 < esize ?e"
    using esize_pos [of ?e] by (simp_all add: esize_def)
  note rs = reserve_slot_eq [OF P i r this]
  have "insert_leaf_entry h buf idx k v =
      Ok (splice (slotted h buf idx (length (map (enc_bleaf h) kvs)) (hd_lower h buf)
        (hd_upper h buf - esize ?e)) (hd_upper h buf - esize ?e) ?e)"
    unfolding insert_leaf_entry_def Let_def sizes n rs and_then_simps prod.case
    by (rule write_bleaf_inline_eq) (use f(4,5) p(3,4) in simp_all)
  with f(1-3) show ?thesis using that by (simp add: map_ins_at)
qed

lemma insert_internal_in_place_holds:
  assumes P: "page_holds h buf (map (enc_bint h) kcs)" and idx: "idx \<le> length kcs"
    and room: "hd_lower h buf + 2 + int_bytes (take n k, c) \<le> hd_upper h buf" and n: "n \<le> length k"
  obtains b where "insert_internal_in_place h buf idx n k c = Ok b"
    "page_holds h b (map (enc_bint h) (ins_at idx (take n k, c) kcs))" "ident b = ident buf"
    "length b = length buf"
proof -
  let ?e = "enc_bint h (take n k, c)"
  have i: "idx \<le> length (map (enc_bint h) kcs)" using idx by simp
  have r: "hd_lower h buf + 2 + esize ?e \<le> hd_upper h buf" using room by simp
  note p = page_holds_header [OF P]
  note f = insert_holds [OF P i enc_nonempty(2) r]
  have le: "length (take n k) = n" using n by simp
  have ne: "align_entry (9 + n) = esize ?e" using n by (simp add: int_bytes_def min_def)
  have "align_entry (esize ?e) = esize ?e" "0 < esize ?e"
    using esize_pos [of ?e] by (simp_all add: esize_def)
  note rs = reserve_slot_eq [OF P i r this]
  have "insert_internal_in_place h buf idx n k c =
      Ok (splice (slotted h buf idx (length (map (enc_bint h) kcs)) (hd_lower h buf)
        (hd_upper h buf - esize ?e)) (hd_upper h buf - esize ?e) ?e)"
    unfolding insert_internal_in_place_def Let_def sizes ne rs and_then_simps prod.case
    by (rule write_binternal_inline_eq) (use f(4,5) p(3,4) n le in simp_all)
  with f(1-3) show ?thesis using that by (simp add: map_ins_at)
qed

end
