(* ===== verification/Page_Delete.thy ===== *)
theory Page_Delete
  imports Page_Insert
begin

text \<open>
  Deletion from a leaf: the payload below the deleted entry moves up over it, every slot that
  pointed below it is moved by the same distance, and the slots after it close up. The entry
  disappears from the page and nothing else changes.
\<close>

section \<open>The loops over the slots\<close>

text \<open>
  Both loops set slot \<open>i\<close> from slot \<open>i + d\<close> of the old page, in increasing order of
  \<open>i\<close>.
\<close>

lemma linp_loop:
  assumes step: "\<And>i p. a \<le> i \<Longrightarrow> i < b \<Longrightarrow> length p = length buf \<Longrightarrow>
      hd_linp h p (i + d) = hd_linp h buf (i + d) \<Longrightarrow>
      \<exists>p'. body i p = Ok p' \<and> length p' = length p \<and>
        (\<forall>j. hd_linp h p' j = (if j = i then f (hd_linp h buf (i + d)) else hd_linp h p j)) \<and>
        (\<forall>o' n. o' + n \<le> 20 \<or> 20 + 2 * b \<le> o' \<longrightarrow> sub p' o' n = sub p o' n)"
    and ab: "a \<le> b"
  shows "\<exists>p. for_each [a..<b] body buf = Ok p \<and> length p = length buf \<and>
      (\<forall>j. hd_linp h p j = (if a \<le> j \<and> j < b then f (hd_linp h buf (j + d)) else hd_linp h buf j)) \<and>
      (\<forall>o' n. o' + n \<le> 20 \<or> 20 + 2 * b \<le> o' \<longrightarrow> sub p o' n = sub buf o' n)"
proof -
  have "m \<le> b \<Longrightarrow> a \<le> m \<Longrightarrow> \<exists>p. for_each [a..<m] body buf = Ok p \<and> length p = length buf \<and>
      (\<forall>j. hd_linp h p j = (if a \<le> j \<and> j < m then f (hd_linp h buf (j + d)) else hd_linp h buf j)) \<and>
      (\<forall>o' n. o' + n \<le> 20 \<or> 20 + 2 * b \<le> o' \<longrightarrow> sub p o' n = sub buf o' n)" for m
  proof (induction m)
    case 0
    then show ?case by simp
  next
    case (Suc m)
    show ?case
    proof (cases "a = Suc m")
      case True
      then show ?thesis by simp
    next
      case False
      with Suc.prems have am: "a \<le> m" "m < b" by simp_all
      with Suc.IH obtain p where p: "for_each [a..<m] body buf = Ok p" "length p = length buf"
        "\<forall>j. hd_linp h p j = (if a \<le> j \<and> j < m then f (hd_linp h buf (j + d)) else hd_linp h buf j)"
        "\<forall>o' n. o' + n \<le> 20 \<or> 20 + 2 * b \<le> o' \<longrightarrow> sub p o' n = sub buf o' n"
        by auto
      have "hd_linp h p (m + d) = hd_linp h buf (m + d)" using p(3) by simp
      from step [OF am p(2) this] obtain p' where p': "body m p = Ok p'" "length p' = length p"
        "\<forall>j. hd_linp h p' j = (if j = m then f (hd_linp h buf (m + d)) else hd_linp h p j)"
        "\<forall>o' n. o' + n \<le> 20 \<or> 20 + 2 * b \<le> o' \<longrightarrow> sub p' o' n = sub p o' n"
        by blast
      have "for_each [a..<Suc m] body buf = Ok p'"
        using am p(1) p'(1) by (simp add: for_each_append)
      moreover have "hd_linp h p' j =
          (if a \<le> j \<and> j < Suc m then f (hd_linp h buf (j + d)) else hd_linp h buf j)" for j
        using p'(3) p(3) am by (auto simp: less_Suc_eq)
      ultimately show ?thesis using p'(2,4) p(2,4) by auto
    qed
  qed
  from this [OF order_refl ab] show ?thesis .
qed

text \<open>One step of either loop sets a slot, or leaves it when its value stays.\<close>

lemma set_linp_step:
  assumes "22 + 2 * i \<le> length p" "v < 32768" "i < b"
  shows "pb_set_linp h p i v = Ok (wr16 h p (20 + 2 * i) v)"
    "length (wr16 h p (20 + 2 * i) v) = length p"
    "hd_linp h (wr16 h p (20 + 2 * i) v) j = (if j = i then v else hd_linp h p j)"
    "o' + n \<le> 20 \<or> 20 + 2 * b \<le> o' \<Longrightarrow> sub (wr16 h p (20 + 2 * i) v) o' n = sub p o' n"
proof -
  show "sub (wr16 h p (20 + 2 * i) v) o' n = sub p o' n" if "o' + n \<le> 20 \<or> 20 + 2 * b \<le> o'"
  proof (rule sub_wr16)
    show "o' + n \<le> 20 + 2 * i \<or> 20 + 2 * i + 2 \<le> o'" using that assms(3) by linarith
  qed (use assms in simp)
qed (use assms in \<open>simp_all add: pb_set_linp_eq hd_wr_linp\<close>)

lemma pb_linp_unat:
  "22 + 2 * i \<le> length buf \<Longrightarrow> \<exists>v. pb_linp h buf i = Ok v \<and> unat v = hd_linp h buf i"
  by (simp add: pb_linp_eq hd_linp_def)

definition moved :: "nat \<Rightarrow> nat \<Rightarrow> nat \<Rightarrow> nat" where
  "moved offset nbytes v = (if v < offset then v + nbytes else v)"

lemma shift_loops:
  assumes n: "20 + 2 * n \<le> length buf" "idx < n"
    and small: "\<And>i. i < n \<Longrightarrow> moved offset k (hd_linp h buf i) < 32768"
  obtains p2 p where
    "for_each [0..<idx] (\<lambda>i p. and_then (pb_linp h p i) (\<lambda>v.
       if unat v < offset then pb_set_linp h p i (unat v + k) else Ok p)) buf = Ok p2"
    "for_each [idx..<n - 1] (\<lambda>i p. and_then (pb_linp h p (i + 1)) (\<lambda>v.
       pb_set_linp h p i (if unat v < offset then unat v + k else unat v))) p2 = Ok p"
    "length p = length buf"
    "\<And>j. j < n - 1 \<Longrightarrow> hd_linp h p j = moved offset k (hd_linp h buf (if j < idx then j else j + 1))"
    "\<And>o' m. o' + m \<le> 20 \<or> 20 + 2 * n \<le> o' \<Longrightarrow> sub p o' m = sub buf o' m"
proof -
  let ?b1 = "\<lambda>i p. and_then (pb_linp h p i) (\<lambda>v.
       if unat v < offset then pb_set_linp h p i (unat v + k) else Ok p)"
  let ?b2 = "\<lambda>i p. and_then (pb_linp h p (i + 1)) (\<lambda>v.
       pb_set_linp h p i (if unat v < offset then unat v + k else unat v))"
  have "\<exists>p2. for_each [0..<idx] ?b1 buf = Ok p2 \<and> length p2 = length buf \<and>
      (\<forall>j. hd_linp h p2 j = (if 0 \<le> j \<and> j < idx then moved offset k (hd_linp h buf (j + 0)) else hd_linp h buf j)) \<and>
      (\<forall>o' m. o' + m \<le> 20 \<or> 20 + 2 * idx \<le> o' \<longrightarrow> sub p2 o' m = sub buf o' m)"
  proof (rule linp_loop)
    fix i p assume i: "i < idx" "length p = length buf" "hd_linp h p (i + 0) = hd_linp h buf (i + 0)"
    then have len: "22 + 2 * i \<le> length p" using n by simp
    obtain v where v: "pb_linp h p i = Ok v" "unat v = hd_linp h buf i"
      using pb_linp_unat [OF len, of h] i by auto
    have sm: "moved offset k (hd_linp h buf i) < 32768" using small i n by simp
    show "\<exists>p'. ?b1 i p = Ok p' \<and> length p' = length p \<and>
        (\<forall>j. hd_linp h p' j = (if j = i then moved offset k (hd_linp h buf (i + 0)) else hd_linp h p j)) \<and>
        (\<forall>o' n. o' + n \<le> 20 \<or> 20 + 2 * idx \<le> o' \<longrightarrow> sub p' o' n = sub p o' n)"
    proof (cases "unat v < offset")
      case True
      then have m: "moved offset k (hd_linp h buf i) = unat v + k" using v by (simp add: moved_def)
      note st = set_linp_step [OF len sm i(1), unfolded m]
      show ?thesis
        unfolding v(1) and_then_simps if_P [OF True] st(1)
        using st(2-4) m by auto
    next
      case False
      then have "moved offset k (hd_linp h buf i) = hd_linp h p i" using v i by (simp add: moved_def)
      then show ?thesis
        unfolding v(1) and_then_simps if_not_P [OF False] using i by auto
    qed
  qed simp
  then obtain p2 where p2: "for_each [0..<idx] ?b1 buf = Ok p2" "length p2 = length buf"
      "\<And>j. hd_linp h p2 j = (if j < idx then moved offset k (hd_linp h buf j) else hd_linp h buf j)"
      "\<And>o' m. o' + m \<le> 20 \<or> 20 + 2 * idx \<le> o' \<Longrightarrow> sub p2 o' m = sub buf o' m"
    by (auto cong: if_cong)
  have "\<exists>p. for_each [idx..<n - 1] ?b2 p2 = Ok p \<and> length p = length p2 \<and>
      (\<forall>j. hd_linp h p j = (if idx \<le> j \<and> j < n - 1 then moved offset k (hd_linp h p2 (j + 1)) else hd_linp h p2 j)) \<and>
      (\<forall>o' m. o' + m \<le> 20 \<or> 20 + 2 * (n - 1) \<le> o' \<longrightarrow> sub p o' m = sub p2 o' m)"
  proof (rule linp_loop)
    fix i p assume i: "idx \<le> i" "i < n - 1" "length p = length p2"
      "hd_linp h p (i + 1) = hd_linp h p2 (i + 1)"
    then have "i + 2 \<le> n" by linarith
    then have len: "22 + 2 * i \<le> length p" "22 + 2 * (i + 1) \<le> length p" using i(3) n p2(2) by simp_all
    obtain v where v: "pb_linp h p (i + 1) = Ok v" "unat v = hd_linp h p2 (i + 1)"
      using pb_linp_unat [OF len(2), of h] i by auto
    have "hd_linp h p2 (i + 1) = hd_linp h buf (i + 1)" using p2(3) i by simp
    moreover have "i + 1 < n" using i by linarith
    ultimately have sm: "moved offset k (hd_linp h p2 (i + 1)) < 32768" using small by simp
    have m: "(if unat v < offset then unat v + k else unat v) = moved offset k (hd_linp h p2 (i + 1))"
      using v by (simp add: moved_def)
    note st = set_linp_step [OF len(1) sm i(2)]
    show "\<exists>p'. ?b2 i p = Ok p' \<and> length p' = length p \<and>
        (\<forall>j. hd_linp h p' j = (if j = i then moved offset k (hd_linp h p2 (i + 1)) else hd_linp h p j)) \<and>
        (\<forall>o' m. o' + m \<le> 20 \<or> 20 + 2 * (n - 1) \<le> o' \<longrightarrow> sub p' o' m = sub p o' m)"
      unfolding v(1) and_then_simps m st(1) using st(2-4) by auto
  qed (use n in simp)
  then obtain p where p: "for_each [idx..<n - 1] ?b2 p2 = Ok p" "length p = length p2"
      "\<And>j. hd_linp h p j = (if idx \<le> j \<and> j < n - 1 then moved offset k (hd_linp h p2 (j + 1)) else hd_linp h p2 j)"
      "\<And>o' m. o' + m \<le> 20 \<or> 20 + 2 * (n - 1) \<le> o' \<Longrightarrow> sub p o' m = sub p2 o' m"
    by auto
  have j: "hd_linp h p j = moved offset k (hd_linp h buf (if j < idx then j else j + 1))"
    if "j < n - 1" for j
    using that p(3) p2(3) by simp
  have s: "sub p o' m = sub buf o' m" if "o' + m \<le> 20 \<or> 20 + 2 * n \<le> o'" for o' m
  proof -
    have "o' + m \<le> 20 \<or> 20 + 2 * (n - 1) \<le> o'" "o' + m \<le> 20 \<or> 20 + 2 * idx \<le> o'"
      using that n(2) by linarith+
    then show ?thesis using p(4) p2(4) by simp
  qed
  show ?thesis using that [OF p2(1) p(1)] p(2) p2(2) j s by simp
qed

section \<open>The deletion\<close>

lemma enumerate_rem_at:
  assumes "idx < length encs"
  shows "List.enumerate 0 (rem_at idx encs)
    = map (\<lambda>j. (j, encs ! (if j < idx then j else j + 1))) [0..<length encs - 1]"
  using assms by (intro nth_equalityI) (auto simp: nth_enumerate_eq nth_rem_at)

text \<open>
  The whole effect of a deletion on a page, for the entry of \<open>k\<close> bytes that slot \<open>idx\<close>
  points at: \<open>p\<close> is the page after the two loops.
\<close>

lemma delete_holds:
  fixes h buf encs idx p
  assumes P: "page_holds h buf encs" and idx: "idx < length encs"
  defines "off \<equiv> hd_linp h buf idx" and "k \<equiv> esize (encs ! idx)" and "n \<equiv> length encs"
    and "U \<equiv> hd_upper h buf"
  defines "b1 \<equiv> splice buf (U + k) (sub buf U (off - U))"
  assumes len: "length p = length buf"
    and linp: "\<And>j. j < n - 1 \<Longrightarrow> hd_linp h p j = moved off k (hd_linp h b1 (if j < idx then j else j + 1))"
    and rest: "\<And>o' m. o' + m \<le> 20 \<or> 20 + 2 * n \<le> o' \<Longrightarrow> sub p o' m = sub b1 o' m"
  shows "page_holds h (wr16 h (wr16 h p 16 (hd_lower h buf - 2)) 18 (U + k)) (rem_at idx encs)"
    "ident (wr16 h (wr16 h p 16 (hd_lower h buf - 2)) 18 (U + k)) = ident buf"
proof -
  note pg = page_holds_header [OF P]
  have H: "holds h buf (hd_lower h buf) U (List.enumerate 0 encs)"
    using P unfolding page_holds_def U_def by blast
  have mem: "(j, encs ! j) \<in> set (List.enumerate 0 encs)" if "j < n" for j
    using that by (simp add: in_set_enumerate_eq n_def)
  have idx': "idx < n" using idx by (simp add: n_def)
  note s = holds_slotD [OF H mem [OF idx'], folded off_def k_def]
  have bounds: "hd_lower h buf = 20 + 2 * n" "20 + 2 * n \<le> U" "U \<le> length buf" "length buf \<le> 32768"
    using pg by (simp_all add: n_def U_def)
  have fit: "U + k + (off - U) \<le> length buf" using s by linarith
  have lsub: "length (sub buf U (off - U)) = off - U" using s bounds by simp
  have len1: "length b1 = length buf" using fit lsub by (simp add: b1_def)
  have linp1: "hd_linp h b1 j = hd_linp h buf j" if "j < n" for j
    unfolding b1_def by (rule hd_splice(3)) (use fit lsub bounds that in linarith)+
  have below: "sub b1 (o' + k) m = sub buf o' m" if "U \<le> o'" "o' + m \<le> off" for o' m
  proof -
    have "sub b1 (o' + k) m = sub (sub buf U (off - U)) (o' + k - (U + k)) m"
      unfolding b1_def by (rule sub_splice_inside) (use that fit lsub in linarith)+
    also have "\<dots> = sub buf o' m"
      using that by (subst sub_sub) (auto simp: le_diff_conv)
    finally show ?thesis .
  qed
  have above: "sub b1 o' m = sub buf o' m" if "off + k \<le> o' \<or> o' + m \<le> U + k" for o' m
    unfolding b1_def
  proof (rule sub_splice_other)
    show "o' + m \<le> U + k \<or> U + k + length (sub buf U (off - U)) \<le> o'"
      using that s lsub by linarith
  qed (use fit lsub in simp)
  let ?F = "wr16 h (wr16 h p 16 (hd_lower h buf - 2)) 18 (U + k)"
  have lp: "20 \<le> length p" using len bounds by simp
  have lF: "length ?F = length buf" using lp len by simp
  have low: "hd_lower h ?F = 20 + 2 * (n - 1)" "hd_upper h ?F = U + k"
    using lp bounds fit idx' by simp_all
  have linF: "hd_linp h ?F j = hd_linp h p j" for j using lp by simp
  have payF: "sub ?F o' m = sub b1 o' m" if "20 + 2 * n \<le> o'" for o' m
    using that lp rest by (simp add: sub_wr16)
  let ?g = "\<lambda>j. if j < idx then j else j + 1"
  define at where "at j = moved off k (hd_linp h buf (?g j))" for j
  have src: "?g j < n" "?g j \<noteq> idx" if "j < n - 1" for j using that by auto
  have lin: "hd_linp h ?F j = at j" if "j < n - 1" for j
    using that linF linp linp1 src by (simp add: at_def del: One_nat_def)
  have side: "hd_linp h buf (?g j) + esize (encs ! ?g j) \<le> off \<or> off + k \<le> hd_linp h buf (?g j)"
    if "j < n - 1" for j
    using holds_disjointD [OF H mem [OF src(1) [OF that]] mem [OF idx'] src(2) [OF that]]
    by (simp add: off_def k_def)
  have slot: "encs ! ?g j \<noteq> [] \<and> U + k \<le> at j \<and> at j + esize (encs ! ?g j) \<le> length buf \<and>
      sub ?F (at j) (length (encs ! ?g j)) = encs ! ?g j" if j: "j < n - 1" for j
  proof -
    let ?o = "hd_linp h buf (?g j)" and ?e = "encs ! ?g j"
    note t = holds_slotD [OF H mem [OF src(1) [OF j]]]
    have e: "length ?e \<le> esize ?e" "0 < esize ?e" using esize_ge esize_pos [OF t(2)] by auto
    from side [OF j] show ?thesis
    proof
      assume lt: "?o + esize ?e \<le> off"
      then have a: "at j = ?o + k" using e by (simp add: at_def moved_def del: One_nat_def)
      have "sub ?F (?o + k) (length ?e) = sub buf ?o (length ?e)"
        using payF [of "?o + k"] below [of ?o "length ?e"] t(3) e lt bounds by simp
      then show ?thesis unfolding a using t lt s by simp
    next
      assume gt: "off + k \<le> ?o"
      then have a: "at j = ?o" by (simp add: at_def moved_def del: One_nat_def)
      have "sub ?F ?o (length ?e) = sub buf ?o (length ?e)"
        using payF [of ?o] above [of ?o "length ?e"] t(3) gt bounds by simp
      then show ?thesis unfolding a using t gt s by simp
    qed
  qed
  have apart: "at i + esize (encs ! ?g i) \<le> at j \<or> at j + esize (encs ! ?g j) \<le> at i"
    if i: "i < n - 1" and j: "j < n - 1" and ij: "i \<noteq> j" for i j
  proof -
    have "?g i \<noteq> ?g j" using ij by auto
    note d = holds_disjointD [OF H mem [OF src(1) [OF i]] mem [OF src(1) [OF j]] this]
    have "0 < esize (encs ! ?g i)" "0 < esize (encs ! ?g j)"
      using esize_pos slot [OF i] slot [OF j] by (metis gr0I not_numeral_le_zero)+
    then show ?thesis
      using d side [OF i] side [OF j] by (auto simp: at_def moved_def simp del: One_nat_def)
  qed
  have ents: "List.enumerate 0 (rem_at idx encs) = map (\<lambda>j. (j, encs ! ?g j)) [0..<n - 1]"
    using enumerate_rem_at [OF idx] by (simp add: n_def)
  have sizes: "U + (\<Sum>e \<leftarrow> encs. esize e) = length buf"
    using pg(7) by (simp add: U_def)
  have "holds h ?F (20 + 2 * (n - 1)) (U + k) (List.enumerate 0 (rem_at idx encs))"
  proof (rule holdsI)
    fix i e assume i: "(i, e) \<in> set (List.enumerate 0 (rem_at idx encs))"
    then have i': "i < n - 1" "e = encs ! ?g i" unfolding ents by auto
    show "22 + 2 * i \<le> 20 + 2 * (n - 1) \<and> e \<noteq> [] \<and> U + k \<le> hd_linp h ?F i \<and>
        hd_linp h ?F i + esize e \<le> length ?F \<and> sub ?F (hd_linp h ?F i) (length e) = e"
      using slot [OF i'(1)] i' lin [OF i'(1)] lF by simp
    fix j e' assume j: "(j, e') \<in> set (List.enumerate 0 (rem_at idx encs))" and "i \<noteq> j"
    then have j': "j < n - 1" "e' = encs ! ?g j" unfolding ents by auto
    show "hd_linp h ?F i + esize e \<le> hd_linp h ?F j \<or> hd_linp h ?F j + esize e' \<le> hd_linp h ?F i"
      unfolding lin [OF i'(1)] lin [OF j'(1)] i'(2) j'(2) by (rule apart) fact+
  next
    show "distinct (map fst (List.enumerate 0 (rem_at idx encs)))" by simp
    have "(\<Sum>(i, e) \<leftarrow> List.enumerate m xs. esize e) = (\<Sum>e \<leftarrow> xs. esize e)" for m xs
      by (induction xs arbitrary: m) simp_all
    then show "U + k + (\<Sum>(i, e) \<leftarrow> List.enumerate 0 (rem_at idx encs). esize e) = length ?F"
      using sizes sum_list_rem_at [OF idx, of esize] lF by (simp add: k_def)
  qed (use bounds fit lF in simp_all)
  then show "page_holds h ?F (rem_at idx encs)"
    unfolding page_holds_def low using idx by (simp add: n_def)
  have "ident p = ident b1" using rest [of 0 16] by (simp add: ident_def)
  moreover have "ident b1 = ident buf" using above [of 0 16] bounds by (simp add: ident_def)
  ultimately show "ident ?F = ident buf" using lp by simp
qed

lemma read_u32_at_eq:
  "off + 4 \<le> length buf \<Longrightarrow> read_u32_at h buf off = Ok (u32_from_ne_bytes h (sub buf off 4))"
  by (simp add: read_u32_at_def index_range_def)

lemma delete_leaf_entry_holds:
  assumes P: "page_holds h buf (map (enc_bleaf h) kvs)" and idx: "idx < length kvs"
  obtains b where "delete_leaf_entry h buf idx = Ok b"
    "page_holds h b (map (enc_bleaf h) (rem_at idx kvs))" "ident b = ident buf"
    "length b = length buf"
proof -
  let ?encs = "map (enc_bleaf h) kvs"
  obtain k v where kv: "kvs ! idx = (k, v)" by fastforce
  have i: "idx < length ?encs" and n: "length ?encs = length kvs" using idx by simp_all
  let ?e = "enc_bleaf h (k, v)"
  have e: "?encs ! idx = ?e" using idx kv by simp
  note pg = page_holds_header [OF P]
  note s = page_holds_slot [OF P i, unfolded e]
  have H: "holds h buf (hd_lower h buf) (hd_upper h buf) (List.enumerate 0 ?encs)"
    using P unfolding page_holds_def by blast
  have mem: "(j, ?encs ! j) \<in> set (List.enumerate 0 ?encs)" if "j < length kvs" for j
    using that by (simp add: in_set_enumerate_eq)
  note sl = holds_slotD [OF H mem [OF idx], unfolded e]
  let ?off = "hd_linp h buf idx" and ?k = "esize ?e" and ?U = "hd_upper h buf"
  let ?b1 = "splice buf (?U + ?k) (sub buf ?U (?off - ?U))"
  have el: "length ?e \<le> ?k" by (rule esize_ge)
  have fit: "?U + ?k + (?off - ?U) \<le> length buf" using sl by linarith
  have lsub: "length (sub buf ?U (?off - ?U)) = ?off - ?U" using sl by simp
  have len1: "length ?b1 = length buf" using fit lsub by simp
  have linp1: "hd_linp h ?b1 j = hd_linp h buf j" if "j < length kvs" for j
  proof (rule hd_splice(3))
    show "?U + ?k + length (sub buf ?U (?off - ?U)) \<le> length buf" using fit lsub by simp
    show "22 + 2 * j \<le> ?U + ?k" using pg(1,2) n that by simp
  qed
  have small: "moved ?off ?k (hd_linp h ?b1 j) < 32768" if "j < length kvs" for j
  proof -
    note t = holds_slotD [OF H mem [OF that]]
    have "0 < esize (?encs ! j)" "0 < ?k" using esize_pos [OF t(2)] esize_pos [of ?e] by auto
    then show ?thesis using linp1 [OF that] t(4) sl(4) pg(4) by (simp add: moved_def)
  qed
  have top: "20 + 2 * length kvs \<le> length ?b1" using len1 pg n by simp
  obtain p2 p where loops:
    "for_each [0..<idx] (\<lambda>i p. and_then (pb_linp h p i) (\<lambda>v.
       if unat v < ?off then pb_set_linp h p i (unat v + ?k) else Ok p)) ?b1 = Ok p2"
    "for_each [idx..<length kvs - 1] (\<lambda>i p. and_then (pb_linp h p (i + 1)) (\<lambda>v.
       pb_set_linp h p i (if unat v < ?off then unat v + ?k else unat v))) p2 = Ok p"
    "length p = length ?b1"
    "\<And>j. j < length kvs - 1 \<Longrightarrow> hd_linp h p j = moved ?off ?k (hd_linp h ?b1 (if j < idx then j else j + 1))"
    "\<And>o' m. o' + m \<le> 20 \<or> 20 + 2 * length kvs \<le> o' \<Longrightarrow> sub p o' m = sub ?b1 o' m"
    by (rule shift_loops [OF top idx small], assumption, rule that)
  have store: "sub buf ?off (length ?e) = ?e" by (rule s(5))
  have fite: "?off + 9 + length k + length v \<le> length buf" using s(4) by simp
  note pt = parts4 [OF store, unfolded enc_bleaf_def fst_conv snd_conv, OF refl]
  have sz: "sub buf ?off 4 = u32_to_ne_bytes h (of_nat (length k))"
    "sub buf (?off + 4) 4 = u32_to_ne_bytes h (of_nat (length v))"
    using pt fite by simp_all
  have nk: "align_entry (9 + length k + length v) = ?k" by (simp add: leaf_bytes_def)
  have nb: "align_entry (9 + unat (of_nat (length k) :: u32) + unat (of_nat (length v) :: u32)) = ?k"
    using fite pg(4) nk by simp
  have cw: "copy_within buf ?U ?off (?U + ?k) = Ok ?b1"
    using sl fit by (simp add: copy_within_def)
  obtain v16 where lv: "pb_linp h buf idx = Ok v16" "unat v16 = ?off"
    using pb_linp_unat [OF s(1), of h] by auto
  have r1: "read_u32_at h buf ?off = Ok (of_nat (length k))"
    "read_u32_at h buf (?off + 4) = Ok (of_nat (length v))"
    using fite sz by (simp_all add: read_u32_at_eq)
  have nn: "pb_nentries h buf = Ok (length kvs)" using pg by (simp add: pb_nentries_eq)
  have l2: "2 \<le> hd_lower h buf" "1 \<le> length kvs" using pg(1) idx by simp_all
  have w1: "pb_set_lower h p (hd_lower h buf - 2) = Ok (wr16 h p 16 (hd_lower h buf - 2))"
    by (rule pb_set_eqs(5)) (use loops(3) len1 pg in linarith)+
  have lw: "length (wr16 h p 16 (hd_lower h buf - 2)) = length buf" using loops(3) len1 pg by simp
  have w2: "pb_set_upper h (wr16 h p 16 (hd_lower h buf - 2)) (?U + ?k)
      = Ok (wr16 h (wr16 h p 16 (hd_lower h buf - 2)) 18 (?U + ?k))"
    by (rule pb_set_eqs(6)) (use lw fit pg in linarith)+
  have res: "delete_leaf_entry h buf idx = Ok (wr16 h (wr16 h p 16 (hd_lower h buf - 2)) 18 (?U + ?k))"
    unfolding delete_leaf_entry_def pb_header [OF pg(5)] and_then_simps nn lv Let_def r1 sizes nb cw
      loops(1) usub_simps [OF l2(2)] loops(2) usub_simps [OF l2(1)] w1 w2 ..
  have "page_holds h (wr16 h (wr16 h p 16 (hd_lower h buf - 2)) 18 (?U + ?k)) (rem_at idx ?encs)"
    "ident (wr16 h (wr16 h p 16 (hd_lower h buf - 2)) 18 (?U + ?k)) = ident buf"
    using delete_holds [OF P i, of p, unfolded e n, OF _ loops(4,5)] loops(3) len1 by simp_all
  then show ?thesis using that [OF res] lw pg(5) by (simp add: map_rem_at)
qed

end
