(* ===== verification/Balance.thy ===== *)
theory Balance
  imports Split_Plan Page_Edit
begin

text \<open>
  Where a page is split. If every entry, the new one included, takes at most half of the
  space of a page, \<open>psplit_loop\<close> puts at least one entry and not the last one on the left
  page, and both pages have room for their entries. \<open>weights\<close> is what the entries take,
  with their slots, in the order they have after the insertion.
\<close>

definition weights :: "nat \<Rightarrow> nat \<Rightarrow> (nat \<Rightarrow> nat) \<Rightarrow> nat \<Rightarrow> nat list" where
  "weights skip ilen sz n = ins_at skip (ilen + 2) (map (\<lambda>i. sz i + 2) [0..<n])"

lemma length_weights [simp]: "skip \<le> n \<Longrightarrow> length (weights skip ilen sz n) = Suc n"
  by (simp add: weights_def)

lemma nth_weights:
  "skip \<le> n \<Longrightarrow> j \<le> n \<Longrightarrow> weights skip ilen sz n ! j =
     (if j < skip then sz j + 2 else if j = skip then ilen + 2 else sz (j - 1) + 2)"
  by (auto simp: weights_def nth_ins_at)

lemma sum_take_Suc:
  "j < length ws \<Longrightarrow> sum_list (take (Suc j) ws) = sum_list (take j ws) + (ws ! j :: nat)"
  by (simp add: take_Suc_conv_app_nth)

lemma split_sums: "sum_list (take l ws) + sum_list (drop l ws) = sum_list (ws :: nat list)"
  by (metis append_take_drop_id sum_list_append)

lemma last_two_sum:
  assumes "length ws = Suc n" "1 \<le> n" "\<And>w. w \<in> set ws \<Longrightarrow> w \<le> (half :: nat)"
  shows "sum_list (drop (n - 1) ws) \<le> 2 * half" "sum_list (drop n ws) \<le> half"
proof -
  have "drop n ws = [ws ! n]" "drop (n - 1) ws = [ws ! (n - 1), ws ! n]"
    using assms(1,2) Cons_nth_drop_Suc [of "n - 1" ws] Cons_nth_drop_Suc [of n ws] by simp_all
  moreover have "ws ! n \<le> half" "ws ! (n - 1) \<le> half" using assms by simp_all
  ultimately show "sum_list (drop (n - 1) ws) \<le> 2 * half" "sum_list (drop n ws) \<le> half" by simp_all
qed

lemma psplit_iter_balanced:
  assumes skip: "skip \<le> n" and n: "2 \<le> n" and half: "2 * half \<le> full" "0 < half"
    and es: "\<And>i. i < n \<Longrightarrow> entry_size i = Ok (sz i)"
    and small: "\<And>w. w \<in> set ws \<Longrightarrow> w \<le> half"
    and total: "sum_list ws \<le> full + half"
    and ws: "ws = weights skip ilen sz n"
    and off: "off \<le> n" "nxt = (if off \<le> skip then off else off - 1)" "nxt < n"
    and used: "used = sum_list (take off ws)" "used < half"
  shows "\<exists>l. psplit_iter full half skip ilen n entry_size used nxt off = Ok l \<and> 1 \<le> l \<and> l \<le> n \<and>
    sum_list (take l ws) \<le> full \<and> sum_list (drop l ws) \<le> full"
  using off used
proof (induction "n - off" arbitrary: off nxt used rule: less_induct)
  case less
  have len: "length ws = Suc n" unfolding ws using skip by simp
  define w where "w = ws ! off"
  have w: "w \<le> half" unfolding w_def using less.prems(1) len by (intro small) simp
  have step: "sum_list (take (Suc off) ws) = used + w"
    unfolding w_def less.prems(4) using sum_take_Suc [of off ws] less.prems(1) len by simp
  define b where "b = (if skip = off then ilen else sz nxt)"
  have bw: "b + 2 = w"
    unfolding w_def ws b_def using nth_weights [OF skip less.prems(1), of ilen sz] less.prems(2) by auto
  have probe: "(if skip = off then Ok ilen else entry_size nxt) = Ok b"
    using es less.prems(3) by (simp add: b_def)
  have iter: "psplit_iter full half skip ilen n entry_size used nxt off =
      (if (skip \<le> off \<and> used + b + 2 \<ge> full) \<or> nxt + 1 = n then Ok off
       else if used + b + 2 \<ge> half then Ok (off + 1)
       else psplit_iter full half skip ilen n entry_size (used + b + 2)
              (if skip \<noteq> off then nxt + 1 else nxt) (off + 1))"
    using less.prems(3) by (subst psplit_iter.simps) (simp add: probe)
  have below: "used + b + 2 < full" using less.prems(5) w bw half by linarith
  show ?case
  proof (cases "nxt + 1 = n")
    case True
    then have "psplit_iter full half skip ilen n entry_size used nxt off = Ok off"
      unfolding iter by simp
    moreover have "off = n - 1 \<or> off = n" using True less.prems(2) n by (auto split: if_splits)
    moreover have "sum_list (drop (n - 1) ws) \<le> full" "sum_list (drop n ws) \<le> full"
      using last_two_sum [OF len _ small] n half by simp_all
    moreover have "sum_list (take off ws) \<le> full" using less.prems(4,5) half by simp
    ultimately show ?thesis using n by auto
  next
    case False
    note nlast = False
    show ?thesis
    proof (cases "used + b + 2 \<ge> half")
      case True
      then have "psplit_iter full half skip ilen n entry_size used nxt off = Ok (off + 1)"
        unfolding iter using nlast below by simp
      moreover have "off + 1 \<le> n" using nlast less.prems(1-3) by (auto split: if_splits)
      moreover have "sum_list (take (off + 1) ws) \<le> full" using step below bw by simp
      moreover have "sum_list (drop (off + 1) ws) \<le> full"
        using step True bw total split_sums [of "off + 1" ws] by simp
      ultimately show ?thesis by auto
    next
      case False
      then have "psplit_iter full half skip ilen n entry_size used nxt off =
          psplit_iter full half skip ilen n entry_size (used + b + 2)
              (if skip \<noteq> off then nxt + 1 else nxt) (off + 1)"
        unfolding iter using nlast below by simp
      moreover have "\<exists>l. psplit_iter full half skip ilen n entry_size (used + b + 2)
              (if skip \<noteq> off then nxt + 1 else nxt) (off + 1) = Ok l \<and> 1 \<le> l \<and> l \<le> n \<and>
          sum_list (take l ws) \<le> full \<and> sum_list (drop l ws) \<le> full"
      proof (rule less.hyps)
        show le: "off + 1 \<le> n" using nlast less.prems(1-3) by (auto split: if_splits)
        then show "n - (off + 1) < n - off" by simp
        show "(if skip \<noteq> off then nxt + 1 else nxt) = (if off + 1 \<le> skip then off + 1 else off + 1 - 1)"
          using less.prems(2) by auto
        show "(if skip \<noteq> off then nxt + 1 else nxt) < n" using nlast less.prems(3) by auto
        show "used + b + 2 = sum_list (take (off + 1) ws)" using step bw by simp
        show "used + b + 2 < half" using False by simp
      qed
      ultimately show ?thesis by simp
    qed
  qed
qed

text \<open>The plan for a page whose entries, and the new one, are small and which is not overfull.\<close>

lemma psplit_loop_balanced:
  assumes skip: "skip \<le> n" and n: "2 \<le> n"
    and half: "half = (psize - 20) div 2" and es: "\<And>i. i < n \<Longrightarrow> entry_size i = Ok (sz i)"
    and small: "\<And>i. i < n \<Longrightarrow> sz i + 2 \<le> half" "ilen + 2 \<le> half"
    and total: "(\<Sum>i \<leftarrow> [0..<n]. sz i + 2) \<le> psize - 20"
  obtains l where
    "psplit_loop skip ilen psize n entry_size = Ok \<lparr>left_slots = l, right_target = (skip \<ge> l)\<rparr>"
    "1 \<le> l" "l \<le> n"
    "20 + sum_list (take l (weights skip ilen sz n)) \<le> psize"
    "20 + sum_list (drop l (weights skip ilen sz n)) \<le> psize"
proof -
  let ?ws = "weights skip ilen sz n" and ?full = "psize - 20"
  have h: "2 * half \<le> ?full" "0 < half" using half small(2) by linarith+
  have p: "20 \<le> psize" using small(2) half by linarith
  have "sum_list ?ws = ilen + 2 + (\<Sum>i \<leftarrow> [0..<n]. sz i + 2)"
    using sum_list_ins_at [of id skip "ilen + 2" "map (\<lambda>i. sz i + 2) [0..<n]"]
    by (simp add: weights_def comp_def)
  with total small(2) have t: "sum_list ?ws \<le> ?full + half" by simp
  have s: "\<And>w. w \<in> set ?ws \<Longrightarrow> w \<le> half" unfolding weights_def using small by auto
  obtain l where "psplit_iter ?full half skip ilen n entry_size 0 0 0 = Ok l"
      "1 \<le> l" "l \<le> n" "sum_list (take l ?ws) \<le> ?full" "sum_list (drop l ?ws) \<le> ?full"
    using psplit_iter_balanced [OF skip n h es s t refl, where off = 0 and nxt = 0 and used = 0] n h
    by auto
  then show ?thesis
    using that [of l] p by (simp add: psplit_loop_def half [symmetric])
qed

text \<open>
  The fan-out. If the entries take at most a quarter of the space and do not all fit on one
  page, each half gets at least two of them.
\<close>

definition fan_out :: "nat \<Rightarrow> nat list \<Rightarrow> nat \<Rightarrow> bool" where
  "fan_out half ns m \<longleftrightarrow>
     (\<forall>q. (\<forall>n \<in> set ns. n + 2 \<le> q) \<and> 2 * q \<le> half \<longrightarrow> 2 \<le> m \<and> m + 2 \<le> length ns)"

lemma fan_outD:
  "fan_out half ns m \<Longrightarrow> (\<And>n. n \<in> set ns \<Longrightarrow> n + 2 \<le> q) \<Longrightarrow> 2 * q \<le> half \<Longrightarrow> 2 \<le> m \<and> m + 2 \<le> length ns"
  by (auto simp: fan_out_def)

lemma sum_list_le: "(\<And>w. w \<in> set ws \<Longrightarrow> w \<le> (q :: nat)) \<Longrightarrow> sum_list ws \<le> length ws * q"
  by (induction ws) (auto intro: add_mono)

lemma psplit_iter_fan:
  assumes skip: "skip \<le> n" and q: "2 * q \<le> half" "2 * half \<le> full"
    and es: "\<And>i. i < n \<Longrightarrow> entry_size i = Ok (sz i)"
    and small: "\<And>w. w \<in> set ws \<Longrightarrow> w \<le> q"
    and total: "full < sum_list ws"
    and ws: "ws = weights skip ilen sz n"
    and off: "off \<le> n" "nxt = (if off \<le> skip then off else off - 1)" "nxt < n"
    and used: "used = sum_list (take off ws)" "used < half"
    and res: "psplit_iter full half skip ilen n entry_size used nxt off = Ok l"
  shows "2 \<le> l \<and> l < n"
  using off used res
proof (induction "n - off" arbitrary: off nxt used rule: less_induct)
  case less
  have len: "length ws = Suc n" unfolding ws using skip by simp
  have rest: "sum_list (drop i ws) \<le> (Suc n - i) * q" for i
    using sum_list_le [of "drop i ws" q] small len by (auto dest: in_set_dropD)
  define w where "w = ws ! off"
  have w: "w \<le> q" unfolding w_def using less.prems(1) len by (intro small) simp
  have step: "sum_list (take (Suc off) ws) = used + w"
    unfolding w_def less.prems(4) using sum_take_Suc [of off ws] less.prems(1) len by simp
  define b where "b = (if skip = off then ilen else sz nxt)"
  have bw: "b + 2 = w"
    unfolding w_def ws b_def using nth_weights [OF skip less.prems(1), of ilen sz] less.prems(2) by auto
  have probe: "(if skip = off then Ok ilen else entry_size nxt) = Ok b"
    using es less.prems(3) by (simp add: b_def)
  have iter: "psplit_iter full half skip ilen n entry_size used nxt off =
      (if (skip \<le> off \<and> used + b + 2 \<ge> full) \<or> nxt + 1 = n then Ok off
       else if used + b + 2 \<ge> half then Ok (off + 1)
       else psplit_iter full half skip ilen n entry_size (used + b + 2)
              (if skip \<noteq> off then nxt + 1 else nxt) (off + 1))"
    using less.prems(3) by (subst psplit_iter.simps) (simp add: probe)
  have below: "used + b + 2 < full" using less.prems(5) w bw q by linarith
  have more: "nxt + 1 \<noteq> n"
  proof
    assume "nxt + 1 = n"
    then have "Suc n - off \<le> 2" using less.prems(2) by (auto split: if_splits)
    then have "sum_list (drop off ws) \<le> 2 * q" using rest [of off] by (meson le_trans mult_le_mono1)
    then show False using total less.prems(4,5) q split_sums [of off ws] by linarith
  qed
  show ?case
  proof (cases "used + b + 2 \<ge> half")
    case True
    then have l: "l = off + 1" using less.prems(6) unfolding iter using more below by simp
    have "off \<noteq> 0"
    proof
      assume "off = 0"
      then have "used = 0" using less.prems(4) by simp
      then show False using True bw w q by linarith
    qed
    moreover have "q < sum_list (drop (off + 1) ws)"
      using total step less.prems(5) w q split_sums [of "off + 1" ws] by simp
    then have "1 < Suc n - (off + 1)"
      using rest [of "off + 1"] by (cases "Suc n - (off + 1) \<le> 1") (auto dest: order.trans [OF _ mult_le_mono1])
    ultimately show ?thesis unfolding l by linarith
  next
    case False
    show ?thesis
    proof (rule less.hyps)
      show le: "off + 1 \<le> n" using more less.prems(1-3) by (auto split: if_splits)
      then show "n - (off + 1) < n - off" by simp
      show "(if skip \<noteq> off then nxt + 1 else nxt) = (if off + 1 \<le> skip then off + 1 else off + 1 - 1)"
        using less.prems(2) by auto
      show "(if skip \<noteq> off then nxt + 1 else nxt) < n" using more less.prems(3) by auto
      show "used + b + 2 = sum_list (take (off + 1) ws)" using step bw by simp
      show "used + b + 2 < half" using False by simp
      show "psplit_iter full half skip ilen n entry_size (used + b + 2)
          (if skip \<noteq> off then nxt + 1 else nxt) (off + 1) = Ok l"
        using less.prems(6) unfolding iter using more below False by simp
    qed
  qed
qed

lemma psplit_loop_fan:
  assumes skip: "skip \<le> n" and half: "half = (psize - 20) div 2"
    and es: "\<And>i. i < n \<Longrightarrow> entry_size i = Ok (sz i)"
    and small: "\<And>i. i < n \<Longrightarrow> sz i + 2 \<le> q" "ilen + 2 \<le> q" "2 * q \<le> half"
    and total: "psize - 20 < ilen + 2 + (\<Sum>i \<leftarrow> [0..<n]. sz i + 2)"
    and res: "psplit_loop skip ilen psize n entry_size = Ok plan"
  shows "2 \<le> left_slots plan \<and> left_slots plan < n"
proof -
  let ?ws = "weights skip ilen sz n" and ?full = "psize - 20"
  have h: "2 * half \<le> ?full" "0 < half" using half small(2,3) by linarith+
  have "sum_list ?ws = ilen + 2 + (\<Sum>i \<leftarrow> [0..<n]. sz i + 2)"
    using sum_list_ins_at [of id skip "ilen + 2" "map (\<lambda>i. sz i + 2) [0..<n]"]
    by (simp add: weights_def comp_def)
  with total have t: "?full < sum_list ?ws" by simp
  have s: "\<And>w. w \<in> set ?ws \<Longrightarrow> w \<le> q" unfolding weights_def using small by auto
  obtain l where l: "psplit_iter ?full half skip ilen n entry_size 0 0 0 = Ok l" "plan = \<lparr>left_slots = l, right_target = (skip \<ge> l)\<rparr>"
    using res h(2) small(2,3) half by (auto simp: psplit_loop_def usub_def and_then_eq_Ok split: if_splits)
  have n: "0 < n"
  proof (rule ccontr)
    assume "\<not> 0 < n"
    then show False using total small(2,3) h(1) by simp
  qed
  show ?thesis
    using psplit_iter_fan [OF skip small(3) h(1) es s t refl _ _ n _ _ l(1)] h(2) l(2) n by simp
qed

end
