(* ===== verification/Writer.thy ===== *)
theory Writer
  imports Entries
begin

text \<open>
  The builder of a new file (src/src/writer/mod.rs, \<open>struct Writer\<close>): the arena of pages,
  descent, the page splits, \<open>put\<close>, \<open>del\<close> and \<open>finish\<close>. The state is the record
  \<open>writer\<close>. A split computes both halves before it changes the arena, so it returns the
  new writer only on success; \<open>put\<close>, \<open>del\<close> and \<open>propagate_separator\<close> return the writer
  beside their outcome, since an error may come after an earlier level was changed. The file
  system is a map from paths to contents, and \<open>io_env\<close> says which file operations of the
  environment fail.
\<close>

record io_env =
  env_create :: "string \<Rightarrow> io_error option"
  env_write :: "bytes \<Rightarrow> (nat \<times> io_error) option"

record writer =
  w_file :: string
  w_psize :: nat
  w_pages :: bytes
  w_free :: u32
  w_nrecs :: u32
  w_flags :: u32

record spine =
  sp_path :: "(u32 \<times> nat) list"
  sp_leaf_pgno :: u32

definition DEFAULT_PSIZE :: nat where "DEFAULT_PSIZE = 4096"

section \<open>The arena\<close>

definition page_bytes :: "writer \<Rightarrow> u32 \<Rightarrow> bytes outcome" where
  "page_bytes w pgno =
     (let start = unat pgno * w_psize w in index_range (w_pages w) start (start + w_psize w))"

text \<open>A change of page \<open>pgno\<close> through \<open>page_bytes_mut\<close> or \<open>page_mut\<close>.\<close>

definition page_update :: "writer \<Rightarrow> u32 \<Rightarrow> (bytes \<Rightarrow> bytes outcome) \<Rightarrow> writer outcome" where
  "page_update w pgno f =
     and_then (page_bytes w pgno) (\<lambda>p. and_then (f p) (\<lambda>p'.
     Ok (w\<lparr>w_pages := splice (w_pages w) (unat pgno * w_psize w) p'\<rparr>)))"

definition next_free_pgno :: "writer \<Rightarrow> u32 outcome" where
  "next_free_pgno w =
     (if w_psize w = 0 then Panic
      else let n = length (w_pages w) div w_psize w in
           if n < 2 ^ 32 then Ok (of_nat n) else Panic)"

definition push_page :: "writer \<Rightarrow> bytes \<Rightarrow> (writer \<times> u32) outcome" where
  "push_page w buf =
     and_then (assert_that (length buf = w_psize w)) (\<lambda>_.
     and_then (next_free_pgno w) (\<lambda>pgno.
     Ok (w\<lparr>w_pages := w_pages w @ buf\<rparr>, pgno)))"

definition replace_page :: "writer \<Rightarrow> u32 \<Rightarrow> bytes \<Rightarrow> writer outcome" where
  "replace_page w pgno buf =
     and_then (assert_that (length buf = w_psize w)) (\<lambda>_.
     page_update w pgno (\<lambda>p. copy_from_slice p 0 (length p) buf))"

text \<open>\<open>l_pgno + 1\<close> on \<open>u32\<close>.\<close>

definition u32_succ :: "u32 \<Rightarrow> u32 outcome" where
  "u32_succ p = (if unat p + 1 < 2 ^ 32 then Ok (p + 1) else Panic)"

definition new_writer :: "endian \<Rightarrow> string \<Rightarrow> writer outcome" where
  "new_writer h path =
     (let psize = DEFAULT_PSIZE; pages = replicate (2 * psize) 0 in
      and_then (empty_leaf h P_ROOT psize) (\<lambda>leaf.
      and_then (copy_from_slice pages psize (2 * psize) leaf) (\<lambda>pages'.
      Ok \<lparr>w_file = path, w_psize = psize, w_pages = pages', w_free = P_INVALID, w_nrecs = 0,
          w_flags = B_NODUPS\<rparr>)))"

definition create_new ::
  "endian \<Rightarrow> io_env \<Rightarrow> filesystem \<Rightarrow> string \<Rightarrow> writer outcome \<times> filesystem" where
  "create_new h env fs path =
     (case fs path of
        Some _ \<Rightarrow> (Err (Io AlreadyExists), fs)
      | None \<Rightarrow>
          (case env_create env path of
             Some e \<Rightarrow> (Err (Io e), fs)
           | None \<Rightarrow> (new_writer h path, fs(path \<mapsto> []))))"

section \<open>Descent\<close>

text \<open>
  One round of the loop of \<open>descend\<close>: \<open>None\<close> at a leaf, otherwise the slot that is
  followed and the child page.
\<close>

definition descend_hop :: "endian \<Rightarrow> writer \<Rightarrow> bytes \<Rightarrow> u32 \<Rightarrow> (nat \<times> u32) option outcome" where
  "descend_hop h w key current =
     and_then (page_bytes w current) (\<lambda>page.
     and_then (pb_is_leaf h page) (\<lambda>leaf.
     if leaf then Ok None
     else
       and_then (pv_parse h current page False) (\<lambda>view.
       let leftmost = (pv_prev_pg view = P_INVALID) in
       and_then (descend_internal_pick h view key leftmost) (\<lambda>chosen.
       and_then (pv_internal_entry h view chosen) (\<lambda>entry.
       Ok (Some (chosen, ie_child entry)))))))"

partial_function (option) descend_from ::
  "endian \<Rightarrow> writer \<Rightarrow> bytes \<Rightarrow> (u32 \<times> nat) list \<Rightarrow> u32 \<Rightarrow> spine outcome option" where
  "descend_from h w key path current =
     (case descend_hop h w key current of
        Err e \<Rightarrow> Some (Err e)
      | Panic \<Rightarrow> Some Panic
      | Ok None \<Rightarrow> Some (Ok \<lparr>sp_path = path, sp_leaf_pgno = current\<rparr>)
      | Ok (Some (chosen, child)) \<Rightarrow> descend_from h w key (path @ [(current, chosen)]) child)"

declare descend_from.simps [code]

definition descend :: "endian \<Rightarrow> writer \<Rightarrow> bytes \<Rightarrow> spine outcome option" where
  "descend h w key = descend_from h w key [] P_ROOT"

section \<open>Leaf splits\<close>

definition split_leaf_sorted_opt ::
  "endian \<Rightarrow> writer \<Rightarrow> u32 \<Rightarrow> bytes \<Rightarrow> bytes \<Rightarrow> (separator \<times> writer) outcome" where
  "split_leaf_sorted_opt h w leaf_pgno key val =
     and_then (page_bytes w leaf_pgno) (\<lambda>leaf.
     and_then (pv_parse h leaf_pgno leaf False) (\<lambda>view.
     and_then (usub (pv_nentries view) 1) (\<lambda>last.
     and_then (pv_leaf_entry h view last) (\<lambda>entry.
     and_then (pv_inline view (le_key entry)) (\<lambda>last_key.
     and_then (next_free_pgno w) (\<lambda>r_pgno.
     and_then (empty_leaf h r_pgno (w_psize w)) (\<lambda>r0.
     and_then (pb_set_prev_pg h r0 leaf_pgno) (\<lambda>r1.
     and_then (pb_set_lower h r1 (PAGE_HEADER_SIZE + 2)) (\<lambda>r2.
     and_then (write_entry_at_slot h r2 0 key val) (\<lambda>r_buf.
     and_then (page_update w leaf_pgno (\<lambda>p. pb_set_next_pg h p r_pgno)) (\<lambda>w1.
     and_then (push_page w1 r_buf) (\<lambda>(w2, _).
     Ok (SepLeaf key r_pgno last_key, w2)))))))))))))"

text \<open>
  The two halves of a leaf split, built on fresh pages \<open>l0\<close> and \<open>r0\<close> with their sibling
  links set.
\<close>

definition fill_leaf_halves ::
  "endian \<Rightarrow> u32 \<Rightarrow> bytes \<Rightarrow> nat \<Rightarrow> nat \<Rightarrow> bytes \<Rightarrow> bytes \<Rightarrow> bytes \<Rightarrow> bytes \<Rightarrow> (bytes \<times> bytes) outcome" where
  "fill_leaf_halves h pgno old psize skip key val l0 r0 =
     (let ilen = align_entry (BLEAF_HEADER_SIZE + length key + length val) in
      and_then (pv_parse h pgno old False) (\<lambda>view.
      and_then (compute_psplit_split_leaf h view skip ilen psize) (\<lambda>plan.
      and_then (h_in_l plan) (\<lambda>m.
      and_then (copy_entries h view 0 m (l_skip plan skip) l0) (\<lambda>l1.
      and_then (r_skip plan skip) (\<lambda>rs.
      and_then (copy_entries h view m (pv_nentries view) rs r0) (\<lambda>r1.
      and_then (target_slot plan skip) (\<lambda>slot.
      if right_target plan then
        and_then (write_entry_at_slot h r1 slot key val) (\<lambda>r2. Ok (l1, r2))
      else
        and_then (write_entry_at_slot h l1 slot key val) (\<lambda>l2. Ok (l2, r1))))))))))"

definition split_leaf_full ::
  "endian \<Rightarrow> writer \<Rightarrow> u32 \<Rightarrow> nat \<Rightarrow> bytes \<Rightarrow> bytes \<Rightarrow> (separator \<times> writer) outcome" where
  "split_leaf_full h w leaf_pgno skip key val =
     and_then (next_free_pgno w) (\<lambda>r_pgno.
     and_then (empty_leaf h leaf_pgno (w_psize w)) (\<lambda>l0.
     and_then (empty_leaf h r_pgno (w_psize w)) (\<lambda>r0.
     and_then (page_bytes w leaf_pgno) (\<lambda>old.
     and_then (pb_prev_pg h old) (\<lambda>leaf_prev_pg.
     and_then (pb_set_prev_pg h l0 leaf_prev_pg) (\<lambda>l1.
     and_then (pb_set_next_pg h l1 r_pgno) (\<lambda>l2.
     and_then (pb_set_prev_pg h r0 leaf_pgno) (\<lambda>r1.
     and_then (pb_next_pg h old) (\<lambda>leaf_next_pg.
     and_then (pb_set_next_pg h r1 leaf_next_pg) (\<lambda>r2.
     and_then (fill_leaf_halves h leaf_pgno old (w_psize w) skip key val l2 r2) (\<lambda>(l_buf, r_buf).
     and_then (leaf_last_key h l_buf) (\<lambda>last_key.
     and_then (leaf_first_key h r_buf) (\<lambda>r_first_key.
     and_then (replace_page w leaf_pgno l_buf) (\<lambda>w1.
     and_then (push_page w1 r_buf) (\<lambda>(w2, pushed).
     and_then (assert_that (pushed = r_pgno)) (\<lambda>_.
     and_then (if leaf_next_pg \<noteq> P_INVALID
               then page_update w2 leaf_next_pg (\<lambda>p. pb_set_prev_pg h p r_pgno)
               else Ok w2) (\<lambda>w3.
     Ok (SepLeaf r_first_key r_pgno last_key, w3))))))))))))))))))"

definition split_non_root_leaf ::
  "endian \<Rightarrow> writer \<Rightarrow> u32 \<Rightarrow> nat \<Rightarrow> bytes \<Rightarrow> bytes \<Rightarrow> (separator \<times> writer) outcome" where
  "split_non_root_leaf h w leaf_pgno skip key val =
     and_then (page_bytes w leaf_pgno) (\<lambda>leaf.
     and_then (pb_is_rightmost h leaf) (\<lambda>rightmost.
     and_then (pb_nentries h leaf) (\<lambda>n.
     if rightmost \<and> skip = n then split_leaf_sorted_opt h w leaf_pgno key val
     else split_leaf_full h w leaf_pgno skip key val)))"

text \<open>The commit of a root split: both new pages are appended, the root is replaced.\<close>

definition commit_root_split ::
  "endian \<Rightarrow> writer \<Rightarrow> u32 \<Rightarrow> u32 \<Rightarrow> bytes \<Rightarrow> bytes \<Rightarrow> bytes \<Rightarrow> writer outcome" where
  "commit_root_split h w l_pgno r_pgno l_buf r_buf r_first_key =
     and_then (page_bytes w P_ROOT) (\<lambda>root.
     and_then (convert_root_to_internal h root (w_psize w) l_pgno r_pgno r_first_key) (\<lambda>new_root_buf.
     and_then (push_page w l_buf) (\<lambda>(w1, l_pushed).
     and_then (assert_that (l_pushed = l_pgno)) (\<lambda>_.
     and_then (push_page w1 r_buf) (\<lambda>(w2, r_pushed).
     and_then (assert_that (r_pushed = r_pgno)) (\<lambda>_.
     replace_page w2 P_ROOT new_root_buf))))))"

definition split_root_leaf ::
  "endian \<Rightarrow> writer \<Rightarrow> nat \<Rightarrow> bytes \<Rightarrow> bytes \<Rightarrow> writer outcome" where
  "split_root_leaf h w skip key val =
     and_then (next_free_pgno w) (\<lambda>l_pgno.
     and_then (u32_succ l_pgno) (\<lambda>r_pgno.
     and_then (empty_leaf h l_pgno (w_psize w)) (\<lambda>l0.
     and_then (empty_leaf h r_pgno (w_psize w)) (\<lambda>r0.
     and_then (pb_set_next_pg h l0 r_pgno) (\<lambda>l1.
     and_then (pb_set_prev_pg h r0 l_pgno) (\<lambda>r1.
     and_then (page_bytes w P_ROOT) (\<lambda>old_root.
     and_then (fill_leaf_halves h P_ROOT old_root (w_psize w) skip key val l1 r1) (\<lambda>(l_buf, r_buf).
     and_then (leaf_first_key h r_buf) (\<lambda>r_first_key.
     commit_root_split h w l_pgno r_pgno l_buf r_buf r_first_key)))))))))"

section \<open>Internal splits\<close>

definition split_internal_sorted_opt ::
  "endian \<Rightarrow> writer \<Rightarrow> u32 \<Rightarrow> separator \<Rightarrow> nat \<Rightarrow> (separator \<times> writer) outcome" where
  "split_internal_sorted_opt h w parent_pgno sep nksize =
     and_then (next_free_pgno w) (\<lambda>r_pgno.
     and_then (empty_internal h r_pgno (w_psize w)) (\<lambda>r0.
     and_then (pb_set_prev_pg h r0 parent_pgno) (\<lambda>r1.
     and_then (pb_set_lower h r1 (PAGE_HEADER_SIZE + 2)) (\<lambda>r2.
     and_then (write_internal_entry_at_slot h r2 0 nksize (sep_key sep) (sep_child sep)) (\<lambda>r_buf.
     and_then (page_update w parent_pgno (\<lambda>p. pb_set_next_pg h p r_pgno)) (\<lambda>w1.
     and_then (push_page w1 r_buf) (\<lambda>(w2, _).
     Ok (SepInternal (sep_key sep) r_pgno nksize, w2))))))))"

definition fill_internal_halves ::
  "endian \<Rightarrow> u32 \<Rightarrow> bytes \<Rightarrow> nat \<Rightarrow> nat \<Rightarrow> separator \<Rightarrow> nat \<Rightarrow> bytes \<Rightarrow> bytes \<Rightarrow> (bytes \<times> bytes) outcome" where
  "fill_internal_halves h pgno old psize skip sep nksize l0 r0 =
     (let ilen = align_entry (BINTERNAL_HEADER_SIZE + nksize) in
      and_then (pv_parse h pgno old False) (\<lambda>view.
      and_then (compute_psplit_split_internal h view skip ilen psize) (\<lambda>plan.
      and_then (h_in_l plan) (\<lambda>m.
      and_then (copy_internal_entries h view 0 m (l_skip plan skip) l0) (\<lambda>l1.
      and_then (r_skip plan skip) (\<lambda>rs.
      and_then (copy_internal_entries h view m (pv_nentries view) rs r0) (\<lambda>r1.
      and_then (target_slot plan skip) (\<lambda>slot.
      if right_target plan then
        and_then (write_internal_entry_at_slot h r1 slot nksize (sep_key sep) (sep_child sep))
          (\<lambda>r2. Ok (l1, r2))
      else
        and_then (write_internal_entry_at_slot h l1 slot nksize (sep_key sep) (sep_child sep))
          (\<lambda>l2. Ok (l2, r1))))))))))"

definition split_root_internal ::
  "endian \<Rightarrow> writer \<Rightarrow> nat \<Rightarrow> separator \<Rightarrow> nat \<Rightarrow> writer outcome" where
  "split_root_internal h w skip sep nksize =
     and_then (next_free_pgno w) (\<lambda>l_pgno.
     and_then (u32_succ l_pgno) (\<lambda>r_pgno.
     and_then (empty_internal h l_pgno (w_psize w)) (\<lambda>l0.
     and_then (empty_internal h r_pgno (w_psize w)) (\<lambda>r0.
     and_then (pb_set_next_pg h l0 r_pgno) (\<lambda>l1.
     and_then (pb_set_prev_pg h r0 l_pgno) (\<lambda>r1.
     and_then (page_bytes w P_ROOT) (\<lambda>old_root.
     and_then (fill_internal_halves h P_ROOT old_root (w_psize w) skip sep nksize l1 r1) (\<lambda>(l_buf, r_buf).
     and_then (first_internal_key h r_buf) (\<lambda>r_first_key.
     commit_root_split h w l_pgno r_pgno l_buf r_buf r_first_key)))))))))"

definition split_internal_page ::
  "endian \<Rightarrow> writer \<Rightarrow> u32 \<Rightarrow> nat \<Rightarrow> separator \<Rightarrow> nat \<Rightarrow> (separator \<times> writer) outcome" where
  "split_internal_page h w parent_pgno skip sep nksize =
     and_then (next_free_pgno w) (\<lambda>r_pgno.
     and_then (empty_internal h parent_pgno (w_psize w)) (\<lambda>l0.
     and_then (empty_internal h r_pgno (w_psize w)) (\<lambda>r0.
     and_then (page_bytes w parent_pgno) (\<lambda>old.
     and_then (pb_prev_pg h old) (\<lambda>prev_pg.
     and_then (pb_set_prev_pg h l0 prev_pg) (\<lambda>l1.
     and_then (pb_set_next_pg h l1 r_pgno) (\<lambda>l2.
     and_then (pb_set_prev_pg h r0 parent_pgno) (\<lambda>r1.
     and_then (pb_next_pg h old) (\<lambda>next_pg.
     and_then (pb_set_next_pg h r1 next_pg) (\<lambda>r2.
     and_then (fill_internal_halves h parent_pgno old (w_psize w) skip sep nksize l2 r2) (\<lambda>(l_buf, r_buf).
     and_then (first_internal_key h r_buf) (\<lambda>r_first_key.
     and_then (replace_page w parent_pgno l_buf) (\<lambda>w1.
     and_then (push_page w1 r_buf) (\<lambda>(w2, pushed).
     and_then (assert_that (pushed = r_pgno)) (\<lambda>_.
     and_then (if next_pg \<noteq> P_INVALID
               then page_update w2 next_pg (\<lambda>p. pb_set_prev_pg h p r_pgno)
               else Ok w2) (\<lambda>w3.
     Ok (SepInternal r_first_key r_pgno (length r_first_key), w3)))))))))))))))))"

definition try_insert_internal ::
  "endian \<Rightarrow> writer \<Rightarrow> u32 \<Rightarrow> nat \<Rightarrow> separator \<Rightarrow> (separator option \<times> writer) outcome" where
  "try_insert_internal h w parent_pgno skip sep =
     and_then (page_bytes w parent_pgno) (\<lambda>parent.
     and_then (pb_prev_pg h parent) (\<lambda>parent_prev_pg.
     let (nksize, nbytes) = encoded_size sep parent_prev_pg skip in
     and_then (pb_free_space h parent) (\<lambda>free.
     if free \<ge> nbytes + 2 then
       and_then (page_update w parent_pgno (\<lambda>p.
           insert_internal_in_place h p skip nksize (sep_key sep) (sep_child sep))) (\<lambda>w1.
       Ok (None, w1))
     else if parent_pgno = P_ROOT then
       and_then (split_root_internal h w skip sep nksize) (\<lambda>w1. Ok (None, w1))
     else
       and_then (pb_is_rightmost h parent) (\<lambda>rightmost.
       and_then (pb_nentries h parent) (\<lambda>n.
       if rightmost \<and> skip = n then
         and_then (split_internal_sorted_opt h w parent_pgno sep nksize) (\<lambda>(s, w1). Ok (Some s, w1))
       else
         and_then (split_internal_page h w parent_pgno skip sep nksize) (\<lambda>(s, w1).
         Ok (Some s, w1)))))))"

text \<open>The path is popped from its end, so the loop runs over the reversed path.\<close>

fun propagate_loop ::
  "endian \<Rightarrow> writer \<Rightarrow> (u32 \<times> nat) list \<Rightarrow> separator \<Rightarrow> unit outcome \<times> writer" where
  "propagate_loop h w [] sep = (Panic, w)"
| "propagate_loop h w ((parent_pgno, parent_idx) # rest) sep =
     (case try_insert_internal h w parent_pgno (parent_idx + 1) sep of
        Err e \<Rightarrow> (Err e, w)
      | Panic \<Rightarrow> (Panic, w)
      | Ok (None, w') \<Rightarrow> (Ok (), w')
      | Ok (Some new_sep, w') \<Rightarrow> propagate_loop h w' rest new_sep)"

definition propagate_separator ::
  "endian \<Rightarrow> writer \<Rightarrow> (u32 \<times> nat) list \<Rightarrow> separator \<Rightarrow> unit outcome \<times> writer" where
  "propagate_separator h w spine_path sep = propagate_loop h w (rev spine_path) sep"

section \<open>The operations of the interface\<close>

text \<open>\<open>put\<close> after the descent.\<close>

definition put_at ::
  "endian \<Rightarrow> writer \<Rightarrow> spine \<Rightarrow> bytes \<Rightarrow> bytes \<Rightarrow> bool outcome \<times> writer" where
  "put_at h w spine key val =
     (let leaf_pgno = sp_leaf_pgno spine;
          leaf_bytes = align_entry (BLEAF_HEADER_SIZE + length key + length val) in
      case and_then (page_bytes w leaf_pgno) (\<lambda>leaf.
           and_then (leaf_search h leaf_pgno leaf key) (\<lambda>(exact, idx). Ok (leaf, exact, idx))) of
        Err e \<Rightarrow> (Err e, w)
      | Panic \<Rightarrow> (Panic, w)
      | Ok (leaf, exact, idx) \<Rightarrow>
          if exact then (Ok False, w)
          else
            (case pb_free_space h leaf of
               Err e \<Rightarrow> (Err e, w)
             | Panic \<Rightarrow> (Panic, w)
             | Ok free \<Rightarrow>
                 if free \<ge> leaf_bytes + 2 then
                   (case page_update w leaf_pgno (\<lambda>p. insert_leaf_entry h p idx key val) of
                      Err e \<Rightarrow> (Err e, w)
                    | Panic \<Rightarrow> (Panic, w)
                    | Ok w' \<Rightarrow> (Ok True, w'))
                 else if leaf_pgno = P_ROOT then
                   (case split_root_leaf h w idx key val of
                      Err e \<Rightarrow> (Err e, w)
                    | Panic \<Rightarrow> (Panic, w)
                    | Ok w' \<Rightarrow> (Ok True, w'))
                 else
                   (case split_non_root_leaf h w leaf_pgno idx key val of
                      Err e \<Rightarrow> (Err e, w)
                    | Panic \<Rightarrow> (Panic, w)
                    | Ok (sep, w') \<Rightarrow>
                        (case propagate_separator h w' (sp_path spine) sep of
                           (Err e, w'') \<Rightarrow> (Err e, w'')
                         | (Panic, w'') \<Rightarrow> (Panic, w'')
                         | (Ok _, w'') \<Rightarrow> (Ok True, w'')))))"

definition entry_too_large :: "nat \<Rightarrow> nat \<Rightarrow> nat \<Rightarrow> bool outcome" where
  "entry_too_large psize klen vlen =
     (let leaf_bytes = align_entry (BLEAF_HEADER_SIZE + klen + vlen);
          sep_bytes = align_entry (BINTERNAL_HEADER_SIZE + klen);
          zero_key_bytes = align_entry BINTERNAL_HEADER_SIZE in
      and_then (usub psize PAGE_HEADER_SIZE) (\<lambda>usable.
      Ok (leaf_bytes + 2 > usable \<or> sep_bytes + zero_key_bytes + 4 > usable)))"

definition put :: "endian \<Rightarrow> writer \<Rightarrow> bytes \<Rightarrow> bytes \<Rightarrow> (bool outcome \<times> writer) option" where
  "put h w key val =
     (case entry_too_large (w_psize w) (length key) (length val) of
        Err e \<Rightarrow> Some (Err e, w)
      | Panic \<Rightarrow> Some (Panic, w)
      | Ok True \<Rightarrow> Some (Err (EntryTooLarge (length key) (length val)), w)
      | Ok False \<Rightarrow>
          (case descend h w key of
             None \<Rightarrow> None
           | Some (Err e) \<Rightarrow> Some (Err e, w)
           | Some Panic \<Rightarrow> Some (Panic, w)
           | Some (Ok spine) \<Rightarrow> Some (put_at h w spine key val)))"

definition del_at :: "endian \<Rightarrow> writer \<Rightarrow> spine \<Rightarrow> bytes \<Rightarrow> bool outcome \<times> writer" where
  "del_at h w spine key =
     (let leaf_pgno = sp_leaf_pgno spine in
      case and_then (page_bytes w leaf_pgno) (\<lambda>leaf. leaf_search h leaf_pgno leaf key) of
        Err e \<Rightarrow> (Err e, w)
      | Panic \<Rightarrow> (Panic, w)
      | Ok (exact, idx) \<Rightarrow>
          if \<not> exact then (Ok False, w)
          else
            (case page_update w leaf_pgno (\<lambda>p. delete_leaf_entry h p idx) of
               Err e \<Rightarrow> (Err e, w)
             | Panic \<Rightarrow> (Panic, w)
             | Ok w' \<Rightarrow> (Ok True, w')))"

definition del :: "endian \<Rightarrow> writer \<Rightarrow> bytes \<Rightarrow> (bool outcome \<times> writer) option" where
  "del h w key =
     (case descend h w key of
        None \<Rightarrow> None
      | Some (Err e) \<Rightarrow> Some (Err e, w)
      | Some Panic \<Rightarrow> Some (Panic, w)
      | Some (Ok spine) \<Rightarrow> Some (del_at h w spine key))"

text \<open>The contents that \<open>finish\<close> writes.\<close>

definition finish_image :: "endian \<Rightarrow> writer \<Rightarrow> bytes outcome" where
  "finish_image h w =
     and_then (assert_that (w_pages w \<noteq> [] \<and> w_psize w \<noteq> 0 \<and> length (w_pages w) mod w_psize w = 0)) (\<lambda>_.
     and_then (build_meta h (w_psize w) (w_free w) (w_nrecs w) (w_flags w)) (\<lambda>m.
     copy_from_slice (w_pages w) 0 (w_psize w) m))"

definition finish :: "endian \<Rightarrow> io_env \<Rightarrow> writer \<Rightarrow> filesystem \<Rightarrow> unit outcome \<times> filesystem" where
  "finish h env w fs =
     (case finish_image h w of
        Err e \<Rightarrow> (Err e, fs)
      | Panic \<Rightarrow> (Panic, fs)
      | Ok img \<Rightarrow>
          (case env_write env img of
             None \<Rightarrow> (Ok (), fs(w_file w \<mapsto> img))
           | Some (n, e) \<Rightarrow> (Err (Io e), fs(w_file w \<mapsto> take n img))))"

end
