(* ===== verification/Page_Split.thy ===== *)
theory Page_Split
  imports Page_Delete Balance Writer
begin

text \<open>
  Splitting the entries of a page over two fresh pages. The contract \<open>page_kind\<close> says what
  the split needs of a kind of entry: that its size is computed and that an entry is copied
  from a page that holds it. Leaves and internal pages both provide it, so the split of
  either gives \<open>take m\<close> and \<open>drop m\<close> of the list with the new entry inserted.
\<close>

section \<open>Fresh pages\<close>

definition fresh :: "endian \<Rightarrow> u32 \<Rightarrow> bytes \<Rightarrow> bool" where
  "fresh h flags buf \<longleftrightarrow> page_holds h buf [] \<and> hd_flags h buf = flags \<and> hd_next h buf = 0"

lemma ident_wr32 [simp]: "16 \<le> off \<Longrightarrow> off + 4 \<le> length buf \<Longrightarrow> ident (wr32 h buf off v) = ident buf"
  by (simp add: ident_def sub_simps)

lemma hd_wr32:
  assumes "20 \<le> length buf"
  shows "hd_pgno h (wr32 h buf 0 w) = w" "hd_prev h (wr32 h buf 0 w) = hd_prev h buf"
    "hd_next h (wr32 h buf 0 w) = hd_next h buf" "hd_flags h (wr32 h buf 0 w) = hd_flags h buf"
    "hd_prev h (wr32 h buf 4 w) = w" "hd_next h (wr32 h buf 4 w) = hd_next h buf"
    "hd_flags h (wr32 h buf 4 w) = hd_flags h buf" "hd_next h (wr32 h buf 8 w) = w"
    "hd_prev h (wr32 h buf 8 w) = hd_prev h buf" "hd_flags h (wr32 h buf 8 w) = hd_flags h buf"
    "hd_flags h (wr32 h buf 12 w) = w" "hd_next h (wr32 h buf 12 w) = hd_next h buf"
    "hd_prev h (wr32 h buf 12 w) = hd_prev h buf" "hd_pgno h (wr32 h buf 12 w) = hd_pgno h buf"
    "hd_pgno h (wr32 h buf 4 w) = hd_pgno h buf" "hd_pgno h (wr32 h buf 8 w) = hd_pgno h buf"
    "off \<le> 12 \<Longrightarrow> hd_lower h (wr32 h buf off w) = hd_lower h buf"
    "off \<le> 12 \<Longrightarrow> hd_upper h (wr32 h buf off w) = hd_upper h buf"
    "off \<le> 12 \<Longrightarrow> hd_linp h (wr32 h buf off w) i = hd_linp h buf i"
  using assms by (simp_all add: hd_defs sub_simps)

lemma page_holds_wr32:
  assumes P: "page_holds h buf encs" and off: "off \<le> 12"
  shows "page_holds h (wr32 h buf off w) encs"
proof -
  note pg = page_holds_header [OF P]
  have H: "holds h buf (hd_lower h buf) (hd_upper h buf) (List.enumerate 0 encs)"
    using P unfolding page_holds_def by blast
  have "holds h (wr32 h buf off w) (hd_lower h buf) (hd_upper h buf) (List.enumerate 0 encs)"
  proof (rule holds_frame [OF H])
    fix i e assume i: "(i, e) \<in> set (List.enumerate 0 encs)"
    show "22 + 2 * i \<le> hd_lower h buf \<and> hd_linp h (wr32 h buf off w) i = hd_linp h buf i"
      using holds_slotD(1) [OF H i] pg off by (simp add: hd_wr32)
    show "sub (wr32 h buf off w) (hd_linp h buf i) (length e) = sub buf (hd_linp h buf i) (length e)"
      using holds_slotD(1,3) [OF H i] pg off by (intro sub_wr32) simp_all
  qed (use pg off in simp_all)
  then show ?thesis using pg off unfolding page_holds_def by (simp add: hd_wr32)
qed

lemma empty_page_fresh:
  assumes "20 \<le> psize" "psize \<le> 32768"
  obtains b where "empty_page h pgno psize flags = Ok b" "fresh h flags b" "length b = psize"
    "hd_pgno h b = pgno" "hd_prev h b = 0"
proof -
  let ?b0 = "replicate psize (0 :: u8)"
  let ?b1 = "wr32 h ?b0 0 pgno"
  let ?b2 = "wr32 h ?b1 12 flags"
  let ?b3 = "wr16 h ?b2 16 20"
  let ?b4 = "wr16 h ?b3 18 psize"
  have l: "length ?b1 = psize" "length ?b2 = psize" "length ?b3 = psize" "length ?b4 = psize"
    using assms by simp_all
  have z: "u32_from_ne_bytes h (replicate 4 0) = 0"
    by (cases h) (simp_all add: u32_from_ne_bytes_def u32_of_be_def in_order_def numeral_eq_Suc)
  have nz: "hd_next h ?b0 = 0" "hd_prev h ?b0 = 0" using assms z by (simp_all add: hd_defs sub_replicate)
  have e: "empty_page h pgno psize flags = Ok ?b4"
    using assms l by (simp add: empty_page_def pb_set_eqs)
  have i: "ident ?b4 = ident ?b2" using assms l by simp
  have "hd_flags h ?b2 = flags" "hd_next h ?b2 = 0" "hd_prev h ?b2 = 0" "hd_pgno h ?b2 = pgno"
    using assms nz by (simp_all add: hd_wr32)
  note hd = this [folded ident_hd [OF i]]
  have "hd_lower h ?b4 = 20" "hd_upper h ?b4 = psize" using assms l by simp_all
  then have "page_holds h ?b4 []"
    unfolding page_holds_def using assms l holds_empty [of 20 ?b4 h] by simp
  then show ?thesis using that [OF e] l hd by (simp add: fresh_def)
qed

lemma fresh_upper: "fresh h flags b \<Longrightarrow> hd_upper h b = length b"
  using page_holds_header(7) [of h b "[]"] by (simp add: fresh_def)

lemma fresh_set_link:
  assumes "fresh h flags b"
  shows "fresh h flags (wr32 h b 4 w)" "pb_set_prev_pg h b w = Ok (wr32 h b 4 w)"
    "page_holds h (wr32 h b 8 w) []" "pb_set_next_pg h b w = Ok (wr32 h b 8 w)"
    "hd_flags h (wr32 h b 8 w) = flags" "hd_next h (wr32 h b 8 w) = w"
    "hd_upper h (wr32 h b 8 w) = length b"
    "length (wr32 h b 4 w) = length b" "length (wr32 h b 8 w) = length b"
  using assms page_holds_header [of h b "[]"]
  by (simp_all add: fresh_def hd_wr32 page_holds_wr32 pb_set_eqs)

section \<open>The two halves\<close>

definition fill_halves ::
  "(nat \<Rightarrow> nat \<Rightarrow> bytes \<Rightarrow> bytes outcome) \<Rightarrow> (nat \<Rightarrow> nat outcome) \<Rightarrow> (bytes \<Rightarrow> nat \<Rightarrow> bytes outcome) \<Rightarrow>
   endian \<Rightarrow> nat \<Rightarrow> nat \<Rightarrow> nat \<Rightarrow> nat \<Rightarrow> bytes \<Rightarrow> bytes \<Rightarrow> (bytes \<times> bytes) outcome" where
  "fill_halves copy size_at wrt h n psize skip ilen l0 r0 =
     and_then (psplit_loop skip ilen psize n size_at) (\<lambda>plan.
     and_then (h_in_l plan) (\<lambda>m.
     and_then (copy_range copy h 0 m (l_skip plan skip) l0) (\<lambda>l1.
     and_then (r_skip plan skip) (\<lambda>rs.
     and_then (copy_range copy h m n rs r0) (\<lambda>r1.
     and_then (target_slot plan skip) (\<lambda>slot.
     if right_target plan then and_then (wrt r1 slot) (\<lambda>r2. Ok (l1, r2))
     else and_then (wrt l1 slot) (\<lambda>l2. Ok (l2, r1))))))))"

lemma fill_leaf_halves_eq:
  "fill_leaf_halves h pgno old psize skip key val l0 r0 =
   and_then (pv_parse h pgno old False) (\<lambda>view.
     fill_halves (copy_one h view) (entry_nbytes h view) (\<lambda>d s. write_entry_at_slot h d s key val) h
       (pv_nentries view) psize skip (align_entry (9 + length key + length val)) l0 r0)"
  by (simp add: fill_leaf_halves_def fill_halves_def copy_entries_def compute_psplit_split_leaf_def Let_def)

lemma fill_internal_halves_eq:
  "fill_internal_halves h pgno old psize skip sep nksize l0 r0 =
   and_then (pv_parse h pgno old False) (\<lambda>view.
     fill_halves (copy_internal_one h view) (internal_entry_nbytes h view)
       (\<lambda>d s. write_internal_entry_at_slot h d s nksize (sep_key sep) (sep_child sep)) h
       (pv_nentries view) psize skip (align_entry (9 + nksize)) l0 r0)"
  by (simp add: fill_internal_halves_def fill_halves_def copy_internal_entries_def
      compute_psplit_split_internal_def Let_def)

lemma take_ins_at:
  assumes "i \<le> length xs" "m \<le> Suc (length xs)"
  shows "m \<le> i \<Longrightarrow> take m (ins_at i x xs) = take m xs"
    "i < m \<Longrightarrow> take m (ins_at i x xs) = ins_at i x (take (m - 1) xs)"
    "m \<le> i \<Longrightarrow> drop m (ins_at i x xs) = ins_at (i - m) x (drop m xs)"
    "i < m \<Longrightarrow> drop m (ins_at i x xs) = drop (m - 1) xs"
proof -
  show "m \<le> i \<Longrightarrow> take m (ins_at i x xs) = take m xs"
    "m \<le> i \<Longrightarrow> drop m (ins_at i x xs) = ins_at (i - m) x (drop m xs)"
    using assms by (simp_all add: ins_at_def drop_take min_def)
  assume "i < m"
  then obtain d where d: "m = i + 1 + d" by (metis add.commute add_Suc_right less_imp_Suc_add plus_1_eq_Suc)
  show "take m (ins_at i x xs) = ins_at i x (take (m - 1) xs)"
    "drop m (ins_at i x xs) = drop (m - 1) xs"
    using assms unfolding d by (simp_all add: ins_at_def min_def drop_take add.commute)
qed

locale page_kind =
  fixes enc :: "endian \<Rightarrow> 'e \<Rightarrow> bytes" and nbytes :: "'e \<Rightarrow> nat"
    and copy :: "endian \<Rightarrow> page_view \<Rightarrow> nat \<Rightarrow> nat \<Rightarrow> bytes \<Rightarrow> bytes outcome"
    and size_at :: "endian \<Rightarrow> page_view \<Rightarrow> nat \<Rightarrow> nat outcome"
  assumes enc_nonempty: "enc h e \<noteq> []"
    and esize_enc: "esize (enc h e) = nbytes e"
    and copy_law: "page_holds h buf (map (enc h) es) \<Longrightarrow> i < length es \<Longrightarrow>
      22 + 2 * slot + nbytes (es ! i) \<le> hd_upper h dst \<Longrightarrow> hd_upper h dst \<le> length dst \<Longrightarrow>
      length dst \<le> 32768 \<Longrightarrow>
      copy h (view_of h pgno buf False) i slot dst = Ok (place h dst slot (enc h (es ! i)))"
    and size_law: "page_holds h buf (map (enc h) es) \<Longrightarrow> i < length es \<Longrightarrow>
      size_at h (view_of h pgno buf False) i = Ok (nbytes (es ! i))"
begin

lemma copies_page:
  "page_holds h buf (map (enc h) es) \<Longrightarrow> copies h (copy h (view_of h pgno buf False)) (map (enc h) es)"
  unfolding copies_def by (auto simp: copy_law esize_enc)

lemma weights_eq:
  "skip \<le> length es \<Longrightarrow> weights skip (nbytes x) (\<lambda>i. nbytes (es ! i)) (length es)
   = map (\<lambda>e. nbytes e + 2) (ins_at skip x es)"
proof -
  have "map (\<lambda>i. nbytes (es ! i) + 2) [0..<length es] = map (\<lambda>e. nbytes e + 2) es"
    by (intro nth_equalityI) simp_all
  then show ?thesis by (simp add: weights_def map_ins_at)
qed

lemma sum_weights: "sum_list (map (\<lambda>e. nbytes e + 2) xs) = 2 * length xs + sum_list (map nbytes xs)"
  by (induction xs) simp_all

lemma sum_esize: "(\<Sum>e \<leftarrow> map (enc h) xs. esize e) = sum_list (map nbytes xs)"
  by (simp add: comp_def esize_enc)

lemma nonempty_encs: "[] \<notin> set (map (enc h) es)"
  using enc_nonempty by (metis (no_types, lifting) ex_map_conv)

lemma fill_halves_split:
  assumes P: "page_holds h old (map (enc h) es)" and skip: "skip \<le> length es" and n: "2 \<le> length es"
    and half: "half = (length old - 20) div 2"
    and small: "\<And>e. e \<in> set es \<Longrightarrow> nbytes e + 2 \<le> half" "nbytes x + 2 \<le> half"
    and l0: "hd_upper h l0 = length old" "length l0 = length old"
    and r0: "hd_upper h r0 = length old" "length r0 = length old"
    and wr: "\<And>d s. 22 + 2 * s + nbytes x \<le> hd_upper h d \<Longrightarrow> hd_upper h d \<le> length d \<Longrightarrow>
      length d \<le> 32768 \<Longrightarrow> wrt d s = Ok (place h d s (enc h x))"
  obtains l r m where
    "fill_halves (copy h (view_of h pgno old False)) (size_at h (view_of h pgno old False)) wrt h
       (length es) (length old) skip (nbytes x) l0 r0 = Ok (l, r)"
    "1 \<le> m" "m \<le> length es"
    "page_holds h l (map (enc h) (take m (ins_at skip x es)))" "ident l = ident l0" "length l = length old"
    "page_holds h r (map (enc h) (drop m (ins_at skip x es)))" "ident r = ident r0" "length r = length old"
    "hd_upper h old - hd_lower h old < nbytes x + 2 \<Longrightarrow> fan_out half (map nbytes (ins_at skip x es)) m"
proof -
  let ?v = "view_of h pgno old False" and ?n = "length es" and ?xs = "ins_at skip x es"
  let ?encs = "map (enc h) es" and ?e = "enc h x"
  note pg = page_holds_header [OF P]
  have le: "length old \<le> 32768" by (rule pg(4))
  have sum: "20 + (\<Sum>i \<leftarrow> [0..<?n]. nbytes (es ! i) + 2) = hd_lower h old + (length old - hd_upper h old)"
  proof -
    have "map (\<lambda>i. nbytes (es ! i) + 2) [0..<?n] = map (\<lambda>e. nbytes e + 2) es"
      by (intro nth_equalityI) simp_all
    then have "(\<Sum>i \<leftarrow> [0..<?n]. nbytes (es ! i) + 2) = 2 * ?n + sum_list (map nbytes es)"
      by (simp only: sum_weights)
    moreover have "hd_upper h old + sum_list (map nbytes es) = length old"
      using pg(7) by (simp only: sum_esize)
    ultimately show ?thesis using pg(1,2) by simp
  qed
  then have tot: "(\<Sum>i \<leftarrow> [0..<?n]. nbytes (es ! i) + 2) \<le> length old - 20" using pg by linarith
  obtain m where m: "psplit_loop skip (nbytes x) (length old) ?n (size_at h ?v)
        = Ok \<lparr>left_slots = m, right_target = (skip \<ge> m)\<rparr>"
      "1 \<le> m" "m \<le> ?n"
      "20 + sum_list (take m (weights skip (nbytes x) (\<lambda>i. nbytes (es ! i)) ?n)) \<le> length old"
      "20 + sum_list (drop m (weights skip (nbytes x) (\<lambda>i. nbytes (es ! i)) ?n)) \<le> length old"
    by (rule psplit_loop_balanced [OF skip n half, of "size_at h ?v" "\<lambda>i. nbytes (es ! i)"])
      (use size_law [OF P] small tot in auto)
  have fan: "fan_out half (map nbytes (ins_at skip x es)) m" if full: "hd_upper h old - hd_lower h old < nbytes x + 2"
    unfolding fan_out_def
  proof (intro allI impI, elim conjE)
    fix q assume q: "\<forall>n \<in> set (map nbytes (ins_at skip x es)). n + 2 \<le> q" "2 * q \<le> half"
    have "\<And>i. i < ?n \<Longrightarrow> nbytes (es ! i) + 2 \<le> q" "nbytes x + 2 \<le> q" using q(1) by simp_all
    moreover have "length old - 20 < nbytes x + 2 + (\<Sum>i \<leftarrow> [0..<?n]. nbytes (es ! i) + 2)"
      using full sum pg by linarith
    ultimately have "2 \<le> m \<and> m < ?n"
      using psplit_loop_fan [OF skip half _ _ _ q(2) _ m(1), of "\<lambda>i. nbytes (es ! i)"] size_law [OF P] by auto
    then show "2 \<le> m \<and> m + 2 \<le> length (map nbytes (ins_at skip x es))" using skip by simp
  qed
  have roomL: "20 + 2 * m + sum_list (map nbytes (take m ?xs)) \<le> length old"
    using m(3,4) skip unfolding weights_eq [OF skip] take_map sum_weights by simp
  have roomR: "20 + 2 * (Suc ?n - m) + sum_list (map nbytes (drop m ?xs)) \<le> length old"
    using m(5) skip unfolding weights_eq [OF skip] drop_map sum_weights by simp
  note C = copies_page [OF P, of pgno]
  have lx: "m \<le> Suc (length es)" using m(3) by simp
  show ?thesis
  proof (cases "m \<le> skip")
    case True
    note t = take_ins_at(1,3) [OF skip lx True]
    have enc_t: "map (enc h) (take m ?xs) = sub ?encs 0 m" unfolding t by (simp add: sub_def take_map)
    obtain l where l: "copy_range (copy h ?v) h 0 (0 + m) None l0 = Ok l" "page_holds h l (sub ?encs 0 m)"
        "ident l = ident l0" "length l = length l0"
    proof (rule copy_range_plain [OF C nonempty_encs])
      show "20 + 2 * m + (\<Sum>e \<leftarrow> sub ?encs 0 m. esize e) \<le> length l0"
        unfolding enc_t [symmetric] sum_esize using roomL l0 by simp
    qed (use l0 le m(3) in simp_all)
    have sb: "sub ?encs m (?n - m) = map (enc h) (drop m es)" by (simp add: sub_def drop_map)
    have "sum_list (map nbytes (ins_at (skip - m) x (drop m es)))
        = nbytes x + sum_list (map nbytes (drop m es))"
      using sum_list_ins_at [of nbytes] by simp
    then have room: "22 + 2 * (?n - m) + (\<Sum>e \<leftarrow> sub ?encs m (?n - m). esize e) + esize ?e \<le> length r0"
      using roomR m(3) r0 unfolding sb sum_esize t esize_enc by simp
    have sk: "skip - m \<le> ?n - m" using skip by (rule diff_le_mono)
    obtain r where r: "copy_range (copy h ?v) h m (m + (?n - m)) (Some (skip - m)) r0 = Ok r"
        "page_holds h (place h r (skip - m) ?e) (ins_at (skip - m) ?e (sub ?encs m (?n - m)))"
        "22 + 2 * (skip - m) + esize ?e \<le> hd_upper h r" "hd_upper h r \<le> length r" "length r = length r0"
        "ident (place h r (skip - m) ?e) = ident r0" "length (place h r (skip - m) ?e) = length r0"
      by (rule copy_range_reserved [OF C nonempty_encs _ _ _ _ enc_nonempty room])
        (use r0 le m(3) sk in simp_all)
    have w: "wrt r (skip - m) = Ok (place h r (skip - m) ?e)"
      by (rule wr) (use r(3-5) r0 le in \<open>simp_all add: esize_enc\<close>)
    have "fill_halves (copy h ?v) (size_at h ?v) wrt h ?n (length old) skip (nbytes x) l0 r0
        = Ok (l, place h r (skip - m) ?e)"
      using l(1) r(1) w True m(3)
      by (simp add: fill_halves_def m(1) h_in_l_def l_skip_def r_skip_def target_slot_def)
    moreover have "ins_at (skip - m) ?e (sub ?encs m (?n - m)) = map (enc h) (drop m ?xs)"
      unfolding t sb by (simp add: map_ins_at)
    ultimately show ?thesis
      using that [of l "place h r (skip - m) ?e" m] l r(2,6,7) m(2,3) l0 r0 enc_t fan by simp
  next
    case False
    then have sm: "skip < m" by simp
    note t = take_ins_at(2,4) [OF skip lx sm]
    have sb: "sub ?encs 0 (m - 1) = map (enc h) (take (m - 1) es)" by (simp add: sub_def take_map)
    have sr: "sub ?encs (m - 1) (?n - (m - 1)) = map (enc h) (drop m ?xs)"
      unfolding t by (simp add: sub_def drop_map)
    have "sum_list (map nbytes (ins_at skip x (take (m - 1) es)))
        = nbytes x + sum_list (map nbytes (take (m - 1) es))"
      using sum_list_ins_at [of nbytes] by simp
    then have room: "22 + 2 * (m - 1) + (\<Sum>e \<leftarrow> sub ?encs 0 (m - 1). esize e) + esize ?e \<le> length l0"
      using roomL m(2,3) l0 unfolding sb sum_esize t esize_enc by simp
    have sk: "skip \<le> m - 1" using sm by linarith
    obtain l where l: "copy_range (copy h ?v) h 0 (0 + (m - 1)) (Some skip) l0 = Ok l"
        "page_holds h (place h l skip ?e) (ins_at skip ?e (sub ?encs 0 (m - 1)))"
        "22 + 2 * skip + esize ?e \<le> hd_upper h l" "hd_upper h l \<le> length l" "length l = length l0"
        "ident (place h l skip ?e) = ident l0" "length (place h l skip ?e) = length l0"
      by (rule copy_range_reserved [OF C nonempty_encs _ _ _ _ enc_nonempty room])
        (use l0 le m(3) sk in simp_all)
    obtain r where r: "copy_range (copy h ?v) h (m - 1) (m - 1 + (?n - (m - 1))) None r0 = Ok r"
        "page_holds h r (sub ?encs (m - 1) (?n - (m - 1)))"
        "ident r = ident r0" "length r = length r0"
    proof (rule copy_range_plain [OF C nonempty_encs])
      show "20 + 2 * (?n - (m - 1)) + (\<Sum>e \<leftarrow> sub ?encs (m - 1) (?n - (m - 1)). esize e) \<le> length r0"
        unfolding sr sum_esize using roomR r0 m(2,3) by simp
    qed (use r0 le m(3) in simp_all)
    have w: "wrt l skip = Ok (place h l skip ?e)"
      by (rule wr) (use l(3-5) l0 le in \<open>simp_all add: esize_enc\<close>)
    have eqn: "m - 1 + (?n - (m - 1)) = ?n" using m(3) by simp
    have "fill_halves (copy h ?v) (size_at h ?v) wrt h ?n (length old) skip (nbytes x) l0 r0
        = Ok (place h l skip ?e, r)"
      using l(1) r(1) w False m(2) unfolding eqn
      by (simp add: fill_halves_def m(1) h_in_l_def l_skip_def r_skip_def target_slot_def)
    moreover have "ins_at skip ?e (sub ?encs 0 (m - 1)) = map (enc h) (take m ?xs)"
      unfolding t sb by (simp add: map_ins_at)
    ultimately show ?thesis
      using that [of "place h l skip ?e" r m] r l(2,6,7) m(2,3) l0 r0 sr fan by simp
  qed
qed

end

end
