(* ===== verification/Page_Kinds.thy ===== *)
theory Page_Kinds
  imports Page_Split Db
begin

text \<open>
  Leaf pages and internal pages as instances of the contracts: both are a \<open>page_kind\<close> (they
  can be split) and an \<open>ordered_probe\<close> (they can be searched), for the writer and for the
  reader. A page is described by the list of its entries.
\<close>

definition leaf_page :: "endian \<Rightarrow> bytes \<Rightarrow> (bytes \<times> bytes) list \<Rightarrow> bool" where
  "leaf_page e buf kvs \<longleftrightarrow> page_holds e buf (map (enc_bleaf e) kvs) \<and> hd_flags e buf = P_BLEAF"

definition int_page :: "endian \<Rightarrow> bytes \<Rightarrow> (bytes \<times> u32) list \<Rightarrow> bool" where
  "int_page e buf kcs \<longleftrightarrow> page_holds e buf (map (enc_bint e) kcs) \<and> hd_flags e buf = P_BINTERNAL"

definition ascending :: "(bytes \<times> 'a) list \<Rightarrow> bool" where
  "ascending xs \<longleftrightarrow> sorted_wrt (\<lambda>x y. fst x < fst y) xs"

lemma ascendingD: "ascending xs \<Longrightarrow> i < j \<Longrightarrow> j < length xs \<Longrightarrow> fst (xs ! i) < fst (xs ! j)"
  by (simp add: ascending_def sorted_wrt_iff_nth_less)

lemma page_type_flags [simp]: "page_type_ok P_BLEAF" "page_type_ok P_BINTERNAL"
  by (simp_all add: page_type_ok_def format_defs)

lemma flag_bits [simp]: "P_BLEAF \<noteq> 0" "P_BINTERNAL \<noteq> 0" "P_BINTERNAL AND P_BLEAF = 0" "P_BLEAF AND P_OVERFLOW = 0"
  by (simp_all add: format_defs)

section \<open>Splitting\<close>

interpretation leaf_kind: page_kind enc_bleaf leaf_bytes copy_one entry_nbytes
proof
  fix h buf es i slot dst pgno
  assume P: "page_holds h buf (map (enc_bleaf h) es)" and i: "i < length es"
  then obtain ko kl dof dl where e:
    "pv_leaf_entry h (view_of h pgno buf False) i = Ok \<lparr>le_key = Inline ko kl, le_data = Inline dof dl\<rparr>"
    "pv_inline (view_of h pgno buf False) (Inline ko kl) = Ok (fst (es ! i))"
    "pv_inline (view_of h pgno buf False) (Inline dof dl) = Ok (snd (es ! i))"
    using leaf_entry_read [of h False buf es i pgno] by (metis eff_simps(1))
  show "entry_nbytes h (view_of h pgno buf False) i = Ok (leaf_bytes (es ! i))"
    by (simp add: entry_nbytes_def e leaf_bytes_def)
  assume "22 + 2 * slot + leaf_bytes (es ! i) \<le> hd_upper h dst" "hd_upper h dst \<le> length dst"
    "length dst \<le> 32768"
  then have "write_entry_at_slot h dst slot (fst (es ! i)) (snd (es ! i)) = Ok (place h dst slot (enc_bleaf h (es ! i)))"
    by (simp add: write_entry_at_slot_eq)
  then show "copy_one h (view_of h pgno buf False) i slot dst = Ok (place h dst slot (enc_bleaf h (es ! i)))"
    by (simp add: copy_one_def e write_entry_at_slot_def)
qed simp_all

interpretation int_kind: page_kind enc_bint int_bytes copy_internal_one internal_entry_nbytes
proof
  fix h buf es i slot dst pgno
  assume P: "page_holds h buf (map (enc_bint h) es)" and i: "i < length es"
  then obtain ko kl where e:
    "pv_internal_entry h (view_of h pgno buf False) i = Ok \<lparr>ie_key = Inline ko kl, ie_child = snd (es ! i)\<rparr>"
    "pv_inline (view_of h pgno buf False) (Inline ko kl) = Ok (fst (es ! i))"
    using internal_entry_read [of h False buf es i pgno] by (metis eff_simps(1))
  show "internal_entry_nbytes h (view_of h pgno buf False) i = Ok (int_bytes (es ! i))"
    by (simp add: internal_entry_nbytes_def e int_bytes_def)
  assume "22 + 2 * slot + int_bytes (es ! i) \<le> hd_upper h dst" "hd_upper h dst \<le> length dst"
    "length dst \<le> 32768"
  then have "write_internal_entry_at_slot h dst slot (length (fst (es ! i))) (fst (es ! i)) (snd (es ! i))
      = Ok (place h dst slot (enc_bint h (es ! i)))"
    by (simp add: write_internal_entry_at_slot_eq)
  then show "copy_internal_one h (view_of h pgno buf False) i slot dst = Ok (place h dst slot (enc_bint h (es ! i)))"
    by (simp add: copy_internal_one_def e write_internal_entry_at_slot_def)
qed simp_all

section \<open>Searching\<close>

text \<open>
  A page as a search sees it: the host and the swap flag it is read with, its number, its
  bytes and its entries.
\<close>

record 'e seen =
  sn_host :: endian
  sn_swap :: bool
  sn_pgno :: u32
  sn_buf :: bytes
  sn_entries :: "(bytes \<times> 'e) list"

definition sn_view :: "'e seen \<Rightarrow> page_view" where
  "sn_view p = view_of (sn_host p) (sn_pgno p) (sn_buf p) (sn_swap p)"

definition sn_order :: "'e seen \<Rightarrow> endian" where
  "sn_order p = eff (sn_host p) (sn_swap p)"

definition leaf_searchable :: "bytes seen \<Rightarrow> bool" where
  "leaf_searchable p \<longleftrightarrow> page_holds (sn_order p) (sn_buf p) (map (enc_bleaf (sn_order p)) (sn_entries p))
     \<and> ascending (sn_entries p)"

definition int_searchable :: "u32 seen \<Rightarrow> bool" where
  "int_searchable p \<longleftrightarrow> page_holds (sn_order p) (sn_buf p) (map (enc_bint (sn_order p)) (sn_entries p))
     \<and> ascending (sn_entries p)"

definition key_side :: "'e seen \<Rightarrow> bytes \<Rightarrow> nat \<Rightarrow> ordering" where
  "key_side p k i = cmp_bytes k (fst (sn_entries p ! i))"

definition spine_side :: "'e seen \<Rightarrow> bytes \<Rightarrow> nat \<Rightarrow> ordering" where
  "spine_side p k i = (if i = 0 \<and> pv_prev_pg (sn_view p) = P_INVALID then Greater else key_side p k i)"

lemma key_side_mono:
  assumes "ascending (sn_entries p)" "i < j" "j < length (sn_entries p)" "key_side p k j \<noteq> Less"
  shows "key_side p k i = Greater"
proof -
  have "\<not> k < fst (sn_entries p ! j)" using assms(4) by (simp add: key_side_def)
  with ascendingD [OF assms(1-3)] show ?thesis by (simp add: key_side_def)
qed

lemma inline_items:
  "materialise h d v (Inline a b) = pv_inline v (Inline a b)"
  "compare_item h d k v (Inline a b) = and_then (pv_inline v (Inline a b)) (\<lambda>x. Ok (cmp_bytes k x))"
  by (simp_all add: materialise_def compare_item_def)

lemma leaf_read_item:
  assumes "leaf_searchable p" "i < length (sn_entries p)"
  obtains item data where
    "pv_leaf_entry (sn_host p) (sn_view p) i = Ok \<lparr>le_key = item, le_data = data\<rparr>"
    "\<And>d. compare_item (sn_host p) d k (sn_view p) item = Ok (key_side p k i)"
    "pv_inline (sn_view p) item = Ok (fst (sn_entries p ! i))"
    "\<And>d. materialise (sn_host p) d (sn_view p) item = Ok (fst (sn_entries p ! i))"
    "\<And>d. materialise (sn_host p) d (sn_view p) data = Ok (snd (sn_entries p ! i))"
proof -
  have P: "page_holds (eff (sn_host p) (sn_swap p)) (sn_buf p)
      (map (enc_bleaf (eff (sn_host p) (sn_swap p))) (sn_entries p))"
    using assms(1) by (simp add: leaf_searchable_def sn_order_def)
  show ?thesis
    by (rule leaf_entry_read [OF P assms(2), of "sn_pgno p"], rule that, unfold sn_view_def, assumption)
      (simp_all add: inline_items key_side_def sn_view_def)
qed

lemma int_read_item:
  assumes "int_searchable p" "i < length (sn_entries p)"
  obtains item where
    "pv_internal_entry (sn_host p) (sn_view p) i = Ok \<lparr>ie_key = item, ie_child = snd (sn_entries p ! i)\<rparr>"
    "\<And>d. compare_item (sn_host p) d k (sn_view p) item = Ok (key_side p k i)"
    "pv_inline (sn_view p) item = Ok (fst (sn_entries p ! i))"
proof -
  have P: "page_holds (eff (sn_host p) (sn_swap p)) (sn_buf p)
      (map (enc_bint (eff (sn_host p) (sn_swap p))) (sn_entries p))"
    using assms(1) by (simp add: int_searchable_def sn_order_def)
  show ?thesis
    by (rule internal_entry_read [OF P assms(2), of "sn_pgno p"], rule that, unfold sn_view_def, assumption)
      (simp_all add: inline_items key_side_def sn_view_def)
qed

interpretation w_leaf: ordered_probe leaf_searchable "\<lambda>p. length (sn_entries p)" key_side
    "\<lambda>p k. w_leaf_probe (sn_host p) (sn_view p) k"
proof
  fix p k i assume p: "leaf_searchable p" "i < length (sn_entries p)"
  show "w_leaf_probe (sn_host p) (sn_view p) k i = Ok (key_side p k i)"
    by (rule leaf_read_item [OF p]) (simp add: w_leaf_probe_def key_side_def)
next
  fix p k i j assume "leaf_searchable p" "i < j" "j < length (sn_entries p)" "key_side p k j \<noteq> Less"
  then show "key_side p k i = Greater"
    unfolding leaf_searchable_def by (blast intro: key_side_mono)
qed

interpretation r_leaf: ordered_probe leaf_searchable "\<lambda>p. length (sn_entries p)" key_side
    "\<lambda>p k. leaf_probe (sn_host p) d (sn_view p) k" for d
proof
  fix p k i assume p: "leaf_searchable p" "i < length (sn_entries p)"
  show "leaf_probe (sn_host p) d (sn_view p) k i = Ok (key_side p k i)"
    by (rule leaf_read_item [OF p, of k]) (simp add: leaf_probe_def)
next
  fix p k i j assume "leaf_searchable p" "i < j" "j < length (sn_entries p)" "key_side p k j \<noteq> Less"
  then show "key_side p k i = Greater"
    unfolding leaf_searchable_def by (blast intro: key_side_mono)
qed

lemma spine_side_mono:
  assumes "ascending (sn_entries p)" "i < j" "j < length (sn_entries p)" "spine_side p k j \<noteq> Less"
  shows "spine_side p k i = Greater"
  using key_side_mono [OF assms(1-3)] assms(2,4) by (auto simp: spine_side_def)

interpretation w_int: ordered_probe int_searchable "\<lambda>p. length (sn_entries p)" spine_side
    "\<lambda>p k. w_internal_probe (sn_host p) (sn_view p) (pv_prev_pg (sn_view p) = P_INVALID) k"
proof
  fix p k i assume p: "int_searchable p" "i < length (sn_entries p)"
  show "w_internal_probe (sn_host p) (sn_view p) (pv_prev_pg (sn_view p) = P_INVALID) k i
      = Ok (spine_side p k i)"
    by (rule int_read_item [OF p]) (simp add: w_internal_probe_def spine_side_def key_side_def)
next
  fix p k i j assume "int_searchable p" "i < j" "j < length (sn_entries p)" "spine_side p k j \<noteq> Less"
  then show "spine_side p k i = Greater"
    unfolding int_searchable_def by (blast intro: spine_side_mono)
qed

interpretation r_int: ordered_probe int_searchable "\<lambda>p. length (sn_entries p)" spine_side
    "\<lambda>p k. internal_probe (sn_host p) d (sn_view p) (pv_prev_pg (sn_view p) = P_INVALID) k" for d
proof
  fix p k i assume p: "int_searchable p" "i < length (sn_entries p)"
  show "internal_probe (sn_host p) d (sn_view p) (pv_prev_pg (sn_view p) = P_INVALID) k i
      = Ok (spine_side p k i)"
    by (rule int_read_item [OF p, of k]) (simp add: internal_probe_def spine_side_def)
next
  fix p k i j assume "int_searchable p" "i < j" "j < length (sn_entries p)" "spine_side p k j \<noteq> Less"
  then show "spine_side p k i = Greater"
    unfolding int_searchable_def by (blast intro: spine_side_mono)
qed

end
