(* ===== verification/Page_Ops.thy ===== *)
theory Page_Ops
  imports Page_Kinds
begin

text \<open>
  The operations on one page as operations on its list of entries: searching, the first and
  last key, the two ways to insert, deletion, the split and the conversion of the root. These
  are the facts the proofs about trees use.
\<close>

lemma leaf_page_header:
  assumes "leaf_page e buf kvs"
  shows "20 \<le> length buf" "length buf \<le> 32768" "hd_lower e buf = 20 + 2 * length kvs"
    "hd_lower e buf \<le> hd_upper e buf" "hd_upper e buf + sum_list (map leaf_bytes kvs) = length buf"
    "page_bounds_ok e buf" "hd_flags e buf = P_BLEAF"
  using page_holds_header [of e buf "map (enc_bleaf e) kvs"] assms
  by (simp_all add: leaf_page_def comp_def)

lemma int_page_header:
  assumes "int_page e buf kcs"
  shows "20 \<le> length buf" "length buf \<le> 32768" "hd_lower e buf = 20 + 2 * length kcs"
    "hd_lower e buf \<le> hd_upper e buf" "hd_upper e buf + sum_list (map int_bytes kcs) = length buf"
    "page_bounds_ok e buf" "hd_flags e buf = P_BINTERNAL"
  using page_holds_header [of e buf "map (enc_bint e) kcs"] assms
  by (simp_all add: int_page_def comp_def)

lemma parse_leaf_page:
  assumes "leaf_page (eff h swap) buf kvs"
  shows "pv_parse h pgno buf swap = Ok (view_of h pgno buf swap)"
    "pv_nentries (view_of h pgno buf swap) = length kvs" "pv_is_leaf (view_of h pgno buf swap)"
  using parse_page_holds [of h swap buf "map (enc_bleaf (eff h swap)) kvs" pgno] assms
  by (simp_all add: leaf_page_def pv_is_leaf_def view_of_simps)

lemma parse_int_page:
  assumes "int_page (eff h swap) buf kcs"
  shows "pv_parse h pgno buf swap = Ok (view_of h pgno buf swap)"
    "pv_nentries (view_of h pgno buf swap) = length kcs" "\<not> pv_is_leaf (view_of h pgno buf swap)"
    "pv_is_internal (view_of h pgno buf swap)"
  using parse_page_holds [of h swap buf "map (enc_bint (eff h swap)) kcs" pgno] assms
  by (simp_all add: int_page_def pv_is_leaf_def pv_is_internal_def view_of_simps)

section \<open>Search\<close>

text \<open>Where a key belongs in a list of entries: found at \<open>i\<close>, or absent with its place \<open>i\<close>.\<close>

definition located :: "(bytes \<times> 'a) list \<Rightarrow> bytes \<Rightarrow> bool \<Rightarrow> nat \<Rightarrow> bool" where
  "located xs key found i \<longleftrightarrow>
     (if found then i < length xs \<and> fst (xs ! i) = key
      else i \<le> length xs \<and> (\<forall>j < i. fst (xs ! j) < key) \<and>
           (\<forall>j. i \<le> j \<longrightarrow> j < length xs \<longrightarrow> key < fst (xs ! j)))"

definition child_slot :: "(bytes \<times> 'a) list \<Rightarrow> bytes \<Rightarrow> nat \<Rightarrow> bool" where
  "child_slot xs key c \<longleftrightarrow> c < length xs \<and> fst (xs ! c) \<le> key \<and>
     (\<forall>j. c < j \<longrightarrow> j < length xs \<longrightarrow> key < fst (xs ! j))"

lemma key_side_iff:
  "key_side p k i = Less \<longleftrightarrow> k < fst (sn_entries p ! i)"
  "key_side p k i = Greater \<longleftrightarrow> fst (sn_entries p ! i) < k"
  "key_side p k i = Equal \<longleftrightarrow> fst (sn_entries p ! i) = k"
  by (auto simp: key_side_def)

lemma leaf_search_page:
  assumes L: "leaf_page h buf kvs" and asc: "ascending kvs"
  obtains found i where "leaf_search h pgno buf key = Ok (found, i)" "located kvs key found i"
proof -
  define p where "p = \<lparr>sn_host = h, sn_swap = False, sn_pgno = pgno, sn_buf = buf, sn_entries = kvs\<rparr>"
  have S: "leaf_searchable p"
    using L asc by (simp add: leaf_searchable_def p_def sn_order_def leaf_page_def)
  have v: "sn_view p = view_of h pgno buf False" "sn_host p = h" "sn_entries p = kvs"
    by (simp_all add: p_def sn_view_def)
  note pl = parse_leaf_page [of h False buf kvs pgno, unfolded eff_simps, OF L]
  have ls: "leaf_search h pgno buf key = bsearch (w_leaf_probe h (sn_view p) key) 0 (length kvs)"
    unfolding leaf_search_def pl(1) and_then_simps pl(2) v ..
  show ?thesis
    by (rule w_leaf.search_result [OF S, of key])
      (use ls v that key_side_iff [of p key] in \<open>auto simp: located_def\<close>)
qed

lemma spine_pick:
  assumes "int_searchable p" "sn_entries p \<noteq> []" "fst (sn_entries p ! 0) \<le> key"
    and "(\<exists>i. r = (True, i) \<and> i < length (sn_entries p) \<and> spine_side p key i = Equal) \<or>
      (\<exists>i. r = (False, i) \<and> i \<le> length (sn_entries p) \<and> (\<forall>j < i. spine_side p key j = Greater) \<and>
        (\<forall>j. i \<le> j \<longrightarrow> j < length (sn_entries p) \<longrightarrow> spine_side p key j = Less))"
  shows "child_slot (sn_entries p) key (chosen_slot r)"
  using assms(4)
proof (elim disjE exE conjE)
  fix i assume r: "r = (True, i)" and i: "i < length (sn_entries p)" "spine_side p key i = Equal"
  then have k: "fst (sn_entries p ! i) = key"
    by (auto simp: spine_side_def key_side_iff split: if_splits)
  have "ascending (sn_entries p)" using assms(1) by (simp add: int_searchable_def)
  from ascendingD [OF this, of i] k i(1) show ?thesis by (auto simp: child_slot_def r chosen_slot_def)
next
  fix i assume r: "r = (False, i)" and i: "i \<le> length (sn_entries p)"
    and lo: "\<forall>j < i. spine_side p key j = Greater"
    and hi: "\<forall>j. i \<le> j \<longrightarrow> j < length (sn_entries p) \<longrightarrow> spine_side p key j = Less"
  have "0 < i"
  proof (rule ccontr)
    assume "\<not> 0 < i"
    with hi assms(2) have "spine_side p key 0 = Less" by simp
    with assms(3) show False by (auto simp: spine_side_def key_side_iff split: if_splits)
  qed
  moreover have "fst (sn_entries p ! (i - 1)) \<le> key"
  proof (cases "i - 1 = 0")
    case True
    with assms(3) show ?thesis by simp
  next
    case False
    have "spine_side p key (i - 1) = Greater" using lo \<open>0 < i\<close> by simp
    with False show ?thesis by (simp add: spine_side_def key_side_iff split: if_splits)
  qed
  moreover have "key < fst (sn_entries p ! j)" if "i - 1 < j" "j < length (sn_entries p)" for j
    using that hi \<open>0 < i\<close> by (auto simp: spine_side_def key_side_iff split: if_splits)
  ultimately show ?thesis using i by (auto simp: child_slot_def r chosen_slot_def)
qed

lemma int_seen:
  fixes pgno :: u32
  assumes "int_page (eff h swap) buf kcs" "ascending kcs"
  defines "p \<equiv> \<lparr>sn_host = h, sn_swap = swap, sn_pgno = pgno, sn_buf = buf, sn_entries = kcs\<rparr>"
  shows "int_searchable p" "sn_view p = view_of h pgno buf swap" "sn_host p = h" "sn_entries p = kcs"
  using assms by (simp_all add: int_searchable_def sn_order_def sn_view_def int_page_def)

lemma leaf_seen:
  fixes pgno :: u32
  assumes "leaf_page (eff h swap) buf kvs" "ascending kvs"
  defines "p \<equiv> \<lparr>sn_host = h, sn_swap = swap, sn_pgno = pgno, sn_buf = buf, sn_entries = kvs\<rparr>"
  shows "leaf_searchable p" "sn_view p = view_of h pgno buf swap" "sn_host p = h" "sn_entries p = kvs"
  using assms by (simp_all add: leaf_searchable_def sn_order_def sn_view_def leaf_page_def)

lemma internal_entry_page:
  assumes "int_page (eff h swap) buf kcs" "i < length kcs"
  obtains item where
    "pv_internal_entry h (view_of h pgno buf swap) i = Ok \<lparr>ie_key = item, ie_child = snd (kcs ! i)\<rparr>"
    "pv_inline (view_of h pgno buf swap) item = Ok (fst (kcs ! i))"
  using internal_entry_read [of h swap buf kcs i pgno] assms unfolding int_page_def by metis

lemma descend_internal_pick_page:
  assumes I: "int_page h buf kcs" and asc: "ascending kcs" and ne: "kcs \<noteq> []" and lo: "fst (kcs ! 0) \<le> key"
  obtains c where
    "descend_internal_pick h (view_of h pgno buf False) key (hd_prev h buf = P_INVALID) = Ok c"
    "child_slot kcs key c"
proof -
  define p where "p = \<lparr>sn_host = h, sn_swap = False, sn_pgno = pgno, sn_buf = buf, sn_entries = kcs\<rparr>"
  note sn = int_seen [of h False buf kcs pgno, folded p_def, unfolded eff_simps, OF I asc]
  note pi = parse_int_page [of h False buf kcs pgno, unfolded eff_simps, OF I]
  obtain r where r: "bsearch (w_internal_probe h (sn_view p) (pv_prev_pg (sn_view p) = P_INVALID) key) 0
      (length kcs) = Ok r" "child_slot kcs key (chosen_slot r)"
    using w_int.search_result [OF sn(1), of key] spine_pick [OF sn(1), of key] ne lo
    unfolding sn(3,4) by metis
  then have "descend_internal_pick h (view_of h pgno buf False) key (hd_prev h buf = P_INVALID)
      = Ok (chosen_slot r)"
    unfolding descend_internal_pick_def pi(2) sn(2) by simp
  with r(2) show ?thesis using that by blast
qed

text \<open>The same for the reader, which may run on a host of the other byte order.\<close>

lemma search_leaf_page:
  assumes L: "leaf_page (eff h swap) buf kvs" and asc: "ascending kvs"
  obtains (found) i where
    "search_leaf h d (view_of h pgno buf swap) key = Ok (Some \<lparr>pos_pgno = pgno, pos_index = i\<rparr>)"
    "i < length kvs" "fst (kvs ! i) = key"
  | (absent) "search_leaf h d (view_of h pgno buf swap) key = Ok None" "key \<notin> fst ` set kvs"
proof -
  define p where "p = \<lparr>sn_host = h, sn_swap = swap, sn_pgno = pgno, sn_buf = buf, sn_entries = kvs\<rparr>"
  note sn = leaf_seen [of h swap buf kvs pgno, folded p_def, OF L asc]
  note pl = parse_leaf_page [OF L, of pgno]
  have sl: "search_leaf h d (view_of h pgno buf swap) key =
      and_then (bsearch (leaf_probe h d (sn_view p) key) 0 (length kvs)) (\<lambda>(found, idx).
        Ok (if found then Some \<lparr>pos_pgno = pgno, pos_index = idx\<rparr> else None))"
    unfolding search_leaf_def pl(2) sn(2) view_of_simps(1) ..
  show ?thesis
  proof (rule r_leaf.search_result [OF sn(1), of d key], unfold sn(3,4))
    fix i assume "bsearch (leaf_probe h d (sn_view p) key) 0 (length kvs) = Ok (True, i)"
      "i < length kvs" "key_side p key i = Equal"
    then show thesis using found sl by (simp add: key_side_iff sn(4))
  next
    fix i assume b: "bsearch (leaf_probe h d (sn_view p) key) 0 (length kvs) = Ok (False, i)"
      and "i \<le> length kvs" "\<And>j. j < i \<Longrightarrow> key_side p key j = Greater"
      and "\<And>j. i \<le> j \<Longrightarrow> j < length kvs \<Longrightarrow> key_side p key j = Less"
    then have "fst (kvs ! j) < key \<or> key < fst (kvs ! j)" if "j < length kvs" for j
      using that by (cases "j < i") (auto simp: key_side_iff sn(4) not_less)
    then have "fst (kvs ! j) \<noteq> key" if "j < length kvs" for j using that by fastforce
    then have "key \<notin> fst ` set kvs" by (metis imageE in_set_conv_nth)
    with b show thesis using absent sl by simp
  qed
qed

lemma descend_internal_page:
  assumes I: "int_page (eff h swap) buf kcs" and asc: "ascending kcs" and ne: "kcs \<noteq> []"
    and lo: "fst (kcs ! 0) \<le> key"
  obtains c where "descend_internal h d (view_of h pgno buf swap) key = Ok (snd (kcs ! c))"
    "child_slot kcs key c"
proof -
  define p where "p = \<lparr>sn_host = h, sn_swap = swap, sn_pgno = pgno, sn_buf = buf, sn_entries = kcs\<rparr>"
  note sn = int_seen [of h swap buf kcs pgno, folded p_def, OF I asc]
  note pi = parse_int_page [OF I, of pgno]
  obtain r where r: "bsearch (internal_probe h d (sn_view p) (pv_prev_pg (sn_view p) = P_INVALID) key) 0
      (length kcs) = Ok r" "child_slot kcs key (chosen_slot r)"
    using r_int.search_result [OF sn(1), of d key] spine_pick [OF sn(1), of key] ne lo
    unfolding sn(3,4) by metis
  have "chosen_slot r < length kcs" using r(2) by (simp add: child_slot_def)
  then obtain item where "pv_internal_entry h (view_of h pgno buf swap) (chosen_slot r)
      = Ok \<lparr>ie_key = item, ie_child = snd (kcs ! chosen_slot r)\<rparr>"
    by (rule internal_entry_page [OF I])
  then have "descend_internal h d (view_of h pgno buf swap) key = Ok (snd (kcs ! chosen_slot r))"
    using r(1) unfolding descend_internal_def pi(2) sn(2) by simp
  with r(2) show ?thesis using that by blast
qed

section \<open>The first and the last key\<close>

lemma leaf_entry_page:
  assumes "leaf_page (eff h swap) buf kvs" "i < length kvs"
  obtains ki di where
    "pv_leaf_entry h (view_of h pgno buf swap) i = Ok \<lparr>le_key = ki, le_data = di\<rparr>"
    "pv_inline (view_of h pgno buf swap) ki = Ok (fst (kvs ! i))"
    "\<And>d. materialise h d (view_of h pgno buf swap) ki = Ok (fst (kvs ! i))"
    "\<And>d. materialise h d (view_of h pgno buf swap) di = Ok (snd (kvs ! i))"
proof -
  have P: "page_holds (eff h swap) buf (map (enc_bleaf (eff h swap)) kvs)"
    using assms(1) by (simp add: leaf_page_def)
  show ?thesis
    by (rule leaf_entry_read [OF P assms(2), of pgno], rule that, assumption)
      (simp_all add: inline_items)
qed

lemma leaf_keys_page:
  assumes L: "leaf_page h buf kvs" and ne: "kvs \<noteq> []"
  shows "leaf_first_key h buf = Ok (fst (hd kvs))" "leaf_last_key h buf = Ok (fst (last kvs))"
proof -
  note pl = parse_leaf_page [of h False buf kvs 0, unfolded eff_simps, OF L]
  have i: "0 < length kvs" "length kvs - 1 < length kvs" using ne by simp_all
  obtain ki di where f: "pv_leaf_entry h (view_of h 0 buf False) 0 = Ok \<lparr>le_key = ki, le_data = di\<rparr>"
    "pv_inline (view_of h 0 buf False) ki = Ok (fst (kvs ! 0))"
    using leaf_entry_page [of h False buf kvs 0 0, unfolded eff_simps, OF L i(1)] by metis
  obtain kj dj where l: "pv_leaf_entry h (view_of h 0 buf False) (length kvs - 1) = Ok \<lparr>le_key = kj, le_data = dj\<rparr>"
    "pv_inline (view_of h 0 buf False) kj = Ok (fst (kvs ! (length kvs - 1)))"
    using leaf_entry_page [of h False buf kvs "length kvs - 1" 0, unfolded eff_simps, OF L i(2)] by metis
  show "leaf_first_key h buf = Ok (fst (hd kvs))"
    using f ne by (simp add: leaf_first_key_def pl(1) hd_conv_nth)
  have "usub (length kvs) 1 = Ok (length kvs - 1)" using i(1) by (simp add: usub_def Suc_leI)
  then show "leaf_last_key h buf = Ok (fst (last kvs))"
    using l ne unfolding leaf_last_key_def pl(1) and_then_simps pl(2) by (simp add: last_conv_nth)
qed

lemma first_internal_key_page:
  assumes I: "int_page h buf kcs" and ne: "kcs \<noteq> []"
  shows "first_internal_key h buf = Ok (fst (hd kcs))"
proof -
  note pi = parse_int_page [of h False buf kcs 0, unfolded eff_simps, OF I]
  have i: "0 < length kcs" using ne by simp
  obtain item where "pv_internal_entry h (view_of h 0 buf False) 0 = Ok \<lparr>ie_key = item, ie_child = snd (kcs ! 0)\<rparr>"
    "pv_inline (view_of h 0 buf False) item = Ok (fst (kcs ! 0))"
    using internal_entry_page [of h False buf kcs 0 0, unfolded eff_simps, OF I i] by metis
  then show ?thesis using ne by (simp add: first_internal_key_def pi(1) hd_conv_nth)
qed

section \<open>Changes\<close>

text \<open>A page edit keeps the type of the page.\<close>

lemma leaf_pageI:
  "page_holds h b (map (enc_bleaf h) kvs) \<Longrightarrow> ident b = ident buf \<Longrightarrow> hd_flags h buf = P_BLEAF \<Longrightarrow>
   leaf_page h b kvs"
  unfolding leaf_page_def by (simp add: ident_hd(4) [of b buf])

lemma int_pageI:
  "page_holds h b (map (enc_bint h) kcs) \<Longrightarrow> ident b = ident buf \<Longrightarrow> hd_flags h buf = P_BINTERNAL \<Longrightarrow>
   int_page h b kcs"
  unfolding int_page_def by (simp add: ident_hd(4) [of b buf])

lemma insert_leaf_page:
  assumes L: "leaf_page h buf kvs" and i: "idx \<le> length kvs"
    and r: "hd_lower h buf + 2 + leaf_bytes (k, v) \<le> hd_upper h buf"
  obtains b where "insert_leaf_entry h buf idx k v = Ok b" "leaf_page h b (ins_at idx (k, v) kvs)"
    "ident b = ident buf" "length b = length buf"
  using L insert_leaf_entry_holds [OF _ i r] leaf_pageI that unfolding leaf_page_def by metis

lemma insert_internal_page:
  assumes I: "int_page h buf kcs" and i: "idx \<le> length kcs"
    and r: "hd_lower h buf + 2 + int_bytes (take n k, c) \<le> hd_upper h buf" "n \<le> length k"
  obtains b where "insert_internal_in_place h buf idx n k c = Ok b"
    "int_page h b (ins_at idx (take n k, c) kcs)" "ident b = ident buf" "length b = length buf"
  using I insert_internal_in_place_holds [OF _ i r] int_pageI that unfolding int_page_def by metis

lemma delete_leaf_page:
  assumes L: "leaf_page h buf kvs" and i: "idx < length kvs"
  obtains b where "delete_leaf_entry h buf idx = Ok b" "leaf_page h b (rem_at idx kvs)"
    "ident b = ident buf" "length b = length buf"
  using L delete_leaf_entry_holds [OF _ i] leaf_pageI that unfolding leaf_page_def by metis

lemma fill_leaf_halves_page:
  assumes L: "leaf_page h old kvs" and skip: "skip \<le> length kvs" "2 \<le> length kvs"
    and half: "half = (length old - 20) div 2"
    and small: "\<And>e. e \<in> set kvs \<Longrightarrow> leaf_bytes e + 2 \<le> half" "leaf_bytes (k, v) + 2 \<le> half"
    and l0: "hd_upper h l0 = length old" "length l0 = length old" "hd_flags h l0 = P_BLEAF"
    and r0: "hd_upper h r0 = length old" "length r0 = length old" "hd_flags h r0 = P_BLEAF"
  obtains l r m where "fill_leaf_halves h pgno old (length old) skip k v l0 r0 = Ok (l, r)"
    "1 \<le> m" "m \<le> length kvs"
    "leaf_page h l (take m (ins_at skip (k, v) kvs))" "ident l = ident l0" "length l = length old"
    "leaf_page h r (drop m (ins_at skip (k, v) kvs))" "ident r = ident r0" "length r = length old"
proof -
  note pl = parse_leaf_page [of h False old kvs pgno, unfolded eff_simps, OF L]
  have P: "page_holds h old (map (enc_bleaf h) kvs)" using L by (simp add: leaf_page_def)
  have n: "align_entry (9 + length k + length v) = leaf_bytes (k, v)" by (simp add: leaf_bytes_def)
  show ?thesis
  proof (rule leaf_kind.fill_halves_split [OF P skip half small l0(1,2) r0(1,2),
        where wrt = "\<lambda>d s. write_entry_at_slot h d s k v" and pgno = pgno])
    fix l r m assume
      "fill_halves (copy_one h (view_of h pgno old False)) (entry_nbytes h (view_of h pgno old False))
         (\<lambda>d s. write_entry_at_slot h d s k v) h (length kvs) (length old) skip (leaf_bytes (k, v)) l0 r0 = Ok (l, r)"
      and "1 \<le> m" "m \<le> length kvs"
        "page_holds h l (map (enc_bleaf h) (take m (ins_at skip (k, v) kvs)))" "ident l = ident l0" "length l = length old"
        "page_holds h r (map (enc_bleaf h) (drop m (ins_at skip (k, v) kvs)))" "ident r = ident r0" "length r = length old"
    then show thesis
      using that [of l r m] leaf_pageI [OF _ _ l0(3)] leaf_pageI [OF _ _ r0(3)]
      unfolding fill_leaf_halves_eq pl(1) and_then_simps n pl(2) sizes by blast
  qed (simp_all add: write_entry_at_slot_eq)
qed

lemma fill_internal_halves_page:
  assumes L: "int_page h old kcs" and skip: "skip \<le> length kcs" "2 \<le> length kcs"
    and half: "half = (length old - 20) div 2"
    and small: "\<And>e. e \<in> set kcs \<Longrightarrow> int_bytes e + 2 \<le> half"
      "int_bytes (take nk (sep_key sep), sep_child sep) + 2 \<le> half"
    and nk: "nk \<le> length (sep_key sep)"
    and l0: "hd_upper h l0 = length old" "length l0 = length old" "hd_flags h l0 = P_BINTERNAL"
    and r0: "hd_upper h r0 = length old" "length r0 = length old" "hd_flags h r0 = P_BINTERNAL"
  obtains l r m where "fill_internal_halves h pgno old (length old) skip sep nk l0 r0 = Ok (l, r)"
    "1 \<le> m" "m \<le> length kcs"
    "int_page h l (take m (ins_at skip (take nk (sep_key sep), sep_child sep) kcs))"
    "ident l = ident l0" "length l = length old"
    "int_page h r (drop m (ins_at skip (take nk (sep_key sep), sep_child sep) kcs))"
    "ident r = ident r0" "length r = length old"
    "hd_upper h old - hd_lower h old < align_entry (9 + nk) + 2 \<Longrightarrow>
      fan_out half (map int_bytes (ins_at skip (take nk (sep_key sep), sep_child sep) kcs)) m"
proof -
  let ?x = "(take nk (sep_key sep), sep_child sep)"
  note pl = parse_int_page [of h False old kcs pgno, unfolded eff_simps, OF L]
  have P: "page_holds h old (map (enc_bint h) kcs)" using L by (simp add: int_page_def)
  have n: "align_entry (9 + nk) = int_bytes ?x" using nk by (simp add: int_bytes_def min_def)
  show ?thesis
  proof (rule int_kind.fill_halves_split [OF P skip half small l0(1,2) r0(1,2),
        where wrt = "\<lambda>d s. write_internal_entry_at_slot h d s nk (sep_key sep) (sep_child sep)"
          and pgno = pgno])
    fix l r m assume
      "fill_halves (copy_internal_one h (view_of h pgno old False)) (internal_entry_nbytes h (view_of h pgno old False))
         (\<lambda>d s. write_internal_entry_at_slot h d s nk (sep_key sep) (sep_child sep)) h
         (length kcs) (length old) skip (int_bytes ?x) l0 r0 = Ok (l, r)"
      and "1 \<le> m" "m \<le> length kcs"
        "page_holds h l (map (enc_bint h) (take m (ins_at skip ?x kcs)))" "ident l = ident l0" "length l = length old"
        "page_holds h r (map (enc_bint h) (drop m (ins_at skip ?x kcs)))" "ident r = ident r0" "length r = length old"
        "hd_upper h old - hd_lower h old < int_bytes ?x + 2 \<Longrightarrow> fan_out half (map int_bytes (ins_at skip ?x kcs)) m"
    then show thesis
      using that [of l r m] int_pageI [OF _ _ l0(3)] int_pageI [OF _ _ r0(3)]
      unfolding fill_internal_halves_eq pl(1) and_then_simps n pl(2) sizes by blast
  qed (simp_all add: write_internal_entry_at_slot_eq nk)
qed

end
