(* ===== verification/Tree.thy ===== *)
theory Tree
  imports Page_Ops
begin

text \<open>
  The tree that the pages of a file spell out, as a value: leaves with their entries and
  internal nodes with separators and children, each with its page number. \<open>tree_ok lo hi\<close>
  is the order invariant (every key under a child lies between its separator and the next
  one), \<open>flat\<close> the entries in order. A context (a list of frames, innermost first) is the
  path that a descent records, with what hangs off it.
\<close>

datatype btree = Leaf u32 "(bytes \<times> bytes) list" | Node u32 "(bytes \<times> btree) list"

fun pg :: "btree \<Rightarrow> u32" where
  "pg (Leaf p _) = p"
| "pg (Node p _) = p"

fun flat :: "btree \<Rightarrow> (bytes \<times> bytes) list" and flats :: "(bytes \<times> btree) list \<Rightarrow> (bytes \<times> bytes) list" where
  "flat (Leaf p kvs) = kvs"
| "flat (Node p kts) = flats kts"
| "flats [] = []"
| "flats (kt # kts) = flat (snd kt) @ flats kts"

fun pgs :: "btree \<Rightarrow> u32 list" and pgs_l :: "(bytes \<times> btree) list \<Rightarrow> u32 list" where
  "pgs (Leaf p kvs) = [p]"
| "pgs (Node p kts) = p # pgs_l kts"
| "pgs_l [] = []"
| "pgs_l (kt # kts) = pgs (snd kt) @ pgs_l kts"

fun leaf_pgs :: "btree \<Rightarrow> u32 list" and leaf_pgs_l :: "(bytes \<times> btree) list \<Rightarrow> u32 list" where
  "leaf_pgs (Leaf p kvs) = [p]"
| "leaf_pgs (Node p kts) = leaf_pgs_l kts"
| "leaf_pgs_l [] = []"
| "leaf_pgs_l (kt # kts) = leaf_pgs (snd kt) @ leaf_pgs_l kts"

definition key_bytes :: "bytes \<Rightarrow> nat" where
  "key_bytes k = align_entry (9 + length k)"

lemma int_bytes_key: "int_bytes (k, c) = key_bytes k"
  by (simp add: int_bytes_def key_bytes_def)

text \<open>Every entry, with its slot, takes at most \<open>b\<close> bytes of a page.\<close>

fun small :: "nat \<Rightarrow> btree \<Rightarrow> bool" and smalls :: "nat \<Rightarrow> (bytes \<times> btree) list \<Rightarrow> bool" where
  "small b (Leaf p kvs) = (\<forall>kv \<in> set kvs. leaf_bytes kv + 2 \<le> b)"
| "small b (Node p kts) = smalls b kts"
| "smalls b [] = True"
| "smalls b (kt # kts) = (key_bytes (fst kt) + 2 \<le> b \<and> small b (snd kt) \<and> smalls b kts)"

lemma list_appends [simp]:
  "flats (xs @ ys) = flats xs @ flats ys"
  "pgs_l (xs @ ys) = pgs_l xs @ pgs_l ys"
  "leaf_pgs_l (xs @ ys) = leaf_pgs_l xs @ leaf_pgs_l ys"
  "smalls b (xs @ ys) = (smalls b xs \<and> smalls b ys)"
  by (induction xs) auto

lemma pg_in_pgs: "pg t \<in> set (pgs t)"
  by (cases t) simp_all

lemma leaf_pgs_subset: "set (leaf_pgs t) \<subseteq> set (pgs t)" "set (leaf_pgs_l kts) \<subseteq> set (pgs_l kts)"
  by (induction t and kts rule: leaf_pgs_leaf_pgs_l.induct) auto

section \<open>The order invariant\<close>

definition below :: "bytes \<Rightarrow> bytes option \<Rightarrow> bool" where
  "below x hi \<longleftrightarrow> (case hi of None \<Rightarrow> True | Some y \<Rightarrow> x < y)"

lemma below_simps [simp]: "below x None" "below x (Some y) \<longleftrightarrow> x < y"
  by (simp_all add: below_def)

lemma below_le: "x \<le> y \<Longrightarrow> below y hi \<Longrightarrow> below x hi"
  by (cases hi) auto

fun nxt :: "bytes option \<Rightarrow> (bytes \<times> 'a) list \<Rightarrow> bytes option" where
  "nxt hi [] = hi"
| "nxt hi (kt # kts) = Some (fst kt)"

fun tree_ok :: "bytes \<Rightarrow> bytes option \<Rightarrow> btree \<Rightarrow> bool"
and kids_ok :: "bytes option \<Rightarrow> (bytes \<times> btree) list \<Rightarrow> bool" where
  "tree_ok lo hi (Leaf p kvs) = (ascending kvs \<and> (\<forall>kv \<in> set kvs. lo \<le> fst kv \<and> below (fst kv) hi))"
| "tree_ok lo hi (Node p kts) = (kts \<noteq> [] \<and> fst (hd kts) = lo \<and> kids_ok hi kts)"
| "kids_ok hi [] = True"
| "kids_ok hi (kt # kts) = (tree_ok (fst kt) (nxt hi kts) (snd kt) \<and> below (fst kt) (nxt hi kts) \<and> kids_ok hi kts)"

lemma nxt_append: "nxt hi (xs @ ys) = nxt (nxt hi ys) xs"
  by (cases xs) simp_all

lemma kids_ok_append: "kids_ok hi (xs @ ys) \<longleftrightarrow> kids_ok (nxt hi ys) xs \<and> kids_ok hi ys"
  by (induction xs) (auto simp: nxt_append)

lemma ascending_simps [simp]:
  "ascending []" "ascending (x # xs) \<longleftrightarrow> (\<forall>y \<in> set xs. fst x < fst y) \<and> ascending xs"
  "ascending (xs @ ys) \<longleftrightarrow> ascending xs \<and> ascending ys \<and> (\<forall>x \<in> set xs. \<forall>y \<in> set ys. fst x < fst y)"
  by (auto simp: ascending_def sorted_wrt_append)

lemma kids_ok_keys: "kids_ok hi kts \<Longrightarrow> kt \<in> set kts \<Longrightarrow> below (fst kt) hi"
proof (induction kts arbitrary: kt)
  case (Cons x kts)
  show ?case
  proof (cases kts)
    case Nil
    with Cons.prems show ?thesis by simp
  next
    case (Cons z zs)
    have "fst x < fst z" using Cons.prems(1) Cons by simp
    moreover have "below (fst z) hi" using Cons.IH [of z] Cons.prems(1) Cons by simp
    ultimately have "below (fst x) hi" by (blast intro: below_le less_imp_le)
    then show ?thesis using Cons.IH [of kt] Cons.prems by auto
  qed
qed simp

lemma kids_ascending: "kids_ok hi kts \<Longrightarrow> ascending kts"
proof (induction kts)
  case (Cons x kts)
  then have asc: "ascending kts" by simp
  have "fst x < fst y" if "y \<in> set kts" for y
  proof (cases kts)
    case (Cons z zs)
    then have "fst x < fst z" using Cons.prems by simp
    moreover have "fst z \<le> fst y" using that asc Cons by auto
    ultimately show ?thesis by simp
  qed (use that in simp)
  with asc show ?case by simp
qed simp

lemma flat_bounds:
  "tree_ok lo hi t \<Longrightarrow> ascending (flat t) \<and> (\<forall>kv \<in> set (flat t). lo \<le> fst kv \<and> below (fst kv) hi)"
  "kids_ok hi kts \<Longrightarrow> ascending (flats kts) \<and>
     (\<forall>kv \<in> set (flats kts). fst (hd kts) \<le> fst kv \<and> below (fst kv) hi)"
proof (induction lo hi t and hi kts rule: tree_ok_kids_ok.induct)
  case (4 hi kt kts)
  then have t: "ascending (flat (snd kt))"
      "\<And>kv. kv \<in> set (flat (snd kt)) \<Longrightarrow> fst kt \<le> fst kv \<and> below (fst kv) (nxt hi kts)"
    and r: "ascending (flats kts)"
      "\<And>kv. kv \<in> set (flats kts) \<Longrightarrow> fst (hd kts) \<le> fst kv \<and> below (fst kv) hi"
    and k: "below (fst kt) (nxt hi kts)" and ok: "kids_ok hi kts"
    by auto
  show ?case
  proof (cases kts)
    case Nil
    with t show ?thesis by simp
  next
    case (Cons z zs)
    have z: "below (fst z) hi" using kids_ok_keys [OF ok] Cons by simp
    have lt: "fst kv < fst z" if "kv \<in> set (flat (snd kt))" for kv using t(2) [OF that] Cons by simp
    have ge: "fst z \<le> fst kv" if "kv \<in> set (flats kts)" for kv using r(2) [OF that] Cons by simp
    have kz: "fst kt < fst z" using k Cons by simp
    have "fst x < fst y" if "x \<in> set (flat (snd kt))" "y \<in> set (flats kts)" for x y
      using lt [OF that(1)] ge [OF that(2)] by simp
    moreover have "fst kt \<le> fst kv \<and> below (fst kv) hi" if "kv \<in> set (flats (kt # kts))" for kv
    proof -
      from that consider "kv \<in> set (flat (snd kt))" | "kv \<in> set (flats kts)" by auto
      then show ?thesis
      proof cases
        case 1
        then show ?thesis using t(2) lt z by (blast intro: below_le less_imp_le)
      next
        case 2
        then show ?thesis using ge kz r(2) by (meson less_imp_le order_trans)
      qed
    qed
    ultimately show ?thesis using t(1) r(1) by simp
  qed
qed auto

lemma tree_ok_weaken: "tree_ok lo (Some s) t \<Longrightarrow> below s hi \<Longrightarrow> tree_ok lo hi t"
proof -
  have hi: "below x (Some s) \<Longrightarrow> below s hi \<Longrightarrow> below x hi" for x
    by (auto intro: below_le less_imp_le)
  have "tree_ok lo hi' t \<Longrightarrow> (\<And>x. below x hi' \<Longrightarrow> below x hi) \<Longrightarrow> tree_ok lo hi t"
    "kids_ok hi' kts \<Longrightarrow> (\<And>x. below x hi' \<Longrightarrow> below x hi) \<Longrightarrow> kids_ok hi kts" for hi' kts
  proof (induction lo hi' t and hi' kts rule: tree_ok_kids_ok.induct)
    case (4 hi' kt kts)
    have n: "below x (nxt hi' kts) \<Longrightarrow> below x (nxt hi kts)" for x using 4 by (cases kts) auto
    show ?case
    proof (cases kts)
      case Nil
      with 4 n show ?thesis by auto
    next
      case (Cons z zs)
      then have "nxt hi' kts = nxt hi kts" by simp
      with 4 n show ?thesis by auto
    qed
  qed auto
  with hi show "tree_ok lo (Some s) t \<Longrightarrow> below s hi \<Longrightarrow> tree_ok lo hi t" by blast
qed

section \<open>Contexts\<close>

type_synonym frame = "u32 \<times> (bytes \<times> btree) list \<times> bytes \<times> (bytes \<times> btree) list"

fun plug :: "btree \<Rightarrow> frame list \<Rightarrow> btree" where
  "plug t [] = t"
| "plug t ((p, ls, k, rs) # c) = plug (Node p (ls @ (k, t) # rs)) c"

fun hole_lo :: "bytes \<Rightarrow> frame list \<Rightarrow> bytes" where
  "hole_lo lo [] = lo"
| "hole_lo lo ((p, ls, k, rs) # c) = k"

fun hole_hi :: "bytes option \<Rightarrow> frame list \<Rightarrow> bytes option" where
  "hole_hi hi [] = hi"
| "hole_hi hi ((p, ls, k, rs) # c) = nxt (hole_hi hi c) rs"

fun cpgs :: "frame list \<Rightarrow> u32 list" where
  "cpgs [] = []"
| "cpgs ((p, ls, k, rs) # c) = p # pgs_l ls @ pgs_l rs @ cpgs c"

fun csmall :: "nat \<Rightarrow> frame list \<Rightarrow> bool" where
  "csmall b [] = True"
| "csmall b ((p, ls, k, rs) # c) = (smalls b ls \<and> key_bytes k + 2 \<le> b \<and> smalls b rs \<and> csmall b c)"

fun before :: "frame list \<Rightarrow> (bytes \<times> bytes) list" where
  "before [] = []"
| "before ((p, ls, k, rs) # c) = before c @ flats ls"

fun after :: "frame list \<Rightarrow> (bytes \<times> bytes) list" where
  "after [] = []"
| "after ((p, ls, k, rs) # c) = flats rs @ after c"

fun leaves_before :: "frame list \<Rightarrow> u32 list" where
  "leaves_before [] = []"
| "leaves_before ((p, ls, k, rs) # c) = leaves_before c @ leaf_pgs_l ls"

fun leaves_after :: "frame list \<Rightarrow> u32 list" where
  "leaves_after [] = []"
| "leaves_after ((p, ls, k, rs) # c) = leaf_pgs_l rs @ leaves_after c"

text \<open>The path of page numbers and slots that the code keeps of a context.\<close>

definition slots :: "frame list \<Rightarrow> (u32 \<times> nat) list" where
  "slots c = map (\<lambda>(p, ls, k, rs). (p, length ls)) c"

lemma plug_append: "plug t (c @ d) = plug (plug t c) d"
  by (induction c arbitrary: t) auto

lemma flat_plug: "flat (plug t c) = before c @ flat t @ after c"
  by (induction t c rule: plug.induct) simp_all

lemma leaf_pgs_plug: "leaf_pgs (plug t c) = leaves_before c @ leaf_pgs t @ leaves_after c"
  by (induction t c rule: plug.induct) simp_all

lemma mset_pgs_plug: "mset (pgs (plug t c)) = mset (pgs t) + mset (cpgs c)"
  by (induction t c rule: plug.induct) simp_all

lemma set_pgs_plug: "set (pgs (plug t c)) = set (pgs t) \<union> set (cpgs c)"
  using mset_pgs_plug [of t c] by (metis set_mset_mset set_mset_union)

lemma distinct_pgs_plug:
  "distinct (pgs (plug t c)) \<longleftrightarrow> distinct (pgs t) \<and> distinct (cpgs c) \<and> set (pgs t) \<inter> set (cpgs c) = {}"
  using mset_pgs_plug [of t c] by (metis distinct_append mset_append mset_eq_imp_distinct_iff)

lemma small_plug: "small b (plug t c) \<longleftrightarrow> small b t \<and> csmall b c"
  by (induction t c rule: plug.induct) auto

lemma tree_ok_hole:
  assumes "tree_ok lo hi (plug t c)" "below lo hi"
  shows "tree_ok (hole_lo lo c) (hole_hi hi c) t" "below (hole_lo lo c) (hole_hi hi c)"
proof -
  have "tree_ok (hole_lo lo c) (hole_hi hi c) t \<and> below (hole_lo lo c) (hole_hi hi c)"
    using assms by (induction t c rule: plug.induct) (auto simp: kids_ok_append)
  then show "tree_ok (hole_lo lo c) (hole_hi hi c) t" "below (hole_lo lo c) (hole_hi hi c)" by simp_all
qed

lemma fst_hd_replace: "fst (hd (ls @ (k, t) # rs)) = fst (hd (ls @ (k, t') # rs'))"
  by (cases ls) simp_all

lemma tree_ok_replace:
  "tree_ok lo hi (plug t c) \<Longrightarrow> below lo hi \<Longrightarrow> tree_ok (hole_lo lo c) (hole_hi hi c) t' \<Longrightarrow>
   tree_ok lo hi (plug t' c)"
proof (induction t c arbitrary: t' rule: plug.induct)
  case (2 t p ls k rs c)
  from tree_ok_hole(1) [OF 2(2) [unfolded plug.simps] 2(3)]
  have "tree_ok (hole_lo lo c) (hole_hi hi c) (Node p (ls @ (k, t') # rs))"
    using 2(4) fst_hd_replace [of ls k t rs t' rs] by (simp add: kids_ok_append)
  with 2 show ?case by simp
qed simp

text \<open>A child that was split in two.\<close>

lemma tree_ok_split_child:
  assumes "tree_ok lo hi (Node p (ls @ (k, t) # rs))"
    and "tree_ok k (Some s) t1" "tree_ok s (nxt hi rs) t2" "k < s" "below s (nxt hi rs)"
  shows "tree_ok lo hi (Node p (ls @ (k, t1) # (s, t2) # rs))"
  using assms fst_hd_replace [of ls k t rs t1 "(s, t2) # rs"] by (simp add: kids_ok_append)

lemma tree_ok_split_node:
  assumes ok: "tree_ok lo hi (Node p kts)" and m: "1 \<le> m" "m < length kts"
  defines "s \<equiv> fst (kts ! m)"
  shows "tree_ok lo (Some s) (Node p (take m kts))" "tree_ok s hi (Node q (drop m kts))"
    "lo < s" "below s hi"
proof -
  have e: "kts = take m kts @ drop m kts" by simp
  have d: "drop m kts = kts ! m # drop (Suc m) kts" using m by (simp add: Cons_nth_drop_Suc)
  have k: "kids_ok (Some s) (take m kts)" "kids_ok hi (drop m kts)"
    using ok e kids_ok_append [of hi "take m kts" "drop m kts"] unfolding d s_def by auto
  have hd: "hd (take m kts) = hd kts" using m by (cases kts; cases m) auto
  show "tree_ok lo (Some s) (Node p (take m kts))"
    using k hd ok m by auto
  show "tree_ok s hi (Node q (drop m kts))" using k(2) d by (simp add: s_def)
  have "kts ! 0 = hd kts" using m by (cases kts) simp_all
  then show "lo < s"
    using ascendingD [OF kids_ascending, of hi kts 0 m] ok m by (simp add: s_def)
  show "below s hi" using kids_ok_keys [of hi kts "kts ! m"] ok m by (simp add: s_def)
qed

section \<open>The entries leaf by leaf\<close>

fun groups :: "btree \<Rightarrow> (bytes \<times> bytes) list list" and groups_l :: "(bytes \<times> btree) list \<Rightarrow> (bytes \<times> bytes) list list" where
  "groups (Leaf p kvs) = [kvs]"
| "groups (Node p kts) = groups_l kts"
| "groups_l [] = []"
| "groups_l (kt # kts) = groups (snd kt) @ groups_l kts"

fun gbefore :: "frame list \<Rightarrow> (bytes \<times> bytes) list list" where
  "gbefore [] = []"
| "gbefore ((p, ls, k, rs) # c) = gbefore c @ groups_l ls"

fun gafter :: "frame list \<Rightarrow> (bytes \<times> bytes) list list" where
  "gafter [] = []"
| "gafter ((p, ls, k, rs) # c) = groups_l rs @ gafter c"

lemma groups_append [simp]: "groups_l (xs @ ys) = groups_l xs @ groups_l ys"
  by (induction xs) auto

lemma concat_groups: "concat (groups t) = flat t" "concat (groups_l kts) = flats kts"
  by (induction t and kts rule: groups_groups_l.induct) simp_all

lemma concat_context: "concat (gbefore c) = before c" "concat (gafter c) = after c"
  by (induction c rule: gbefore.induct) (simp_all add: concat_groups)

lemma groups_plug: "groups (plug t c) = gbefore c @ groups t @ gafter c"
  by (induction t c rule: plug.induct) simp_all

section \<open>Height\<close>

fun ht :: "btree \<Rightarrow> nat" and hts :: "(bytes \<times> btree) list \<Rightarrow> nat" where
  "ht (Leaf p kvs) = 0"
| "ht (Node p kts) = Suc (hts kts)"
| "hts [] = 0"
| "hts (kt # kts) = max (ht (snd kt)) (hts kts)"

lemma hts_append [simp]: "hts (xs @ ys) = max (hts xs) (hts ys)"
  by (induction xs) auto

lemma hts_take_drop: "hts (take m xs) \<le> hts xs" "hts (drop m xs) \<le> hts xs"
  using hts_append [of "take m xs" "drop m xs"] by simp_all

lemma ht_plug_mono: "ht t \<le> ht t' \<Longrightarrow> ht (plug t c) \<le> ht (plug t' c)"
proof (induction t c arbitrary: t' rule: plug.induct)
  case (2 t p ls k rs c)
  show ?case unfolding plug.simps by (rule "2.IH") (use 2(2) in auto)
qed simp

lemma length_ht: "ht t + length c \<le> ht (plug t c)"
proof (induction t c rule: plug.induct)
  case (2 t p ls k rs c)
  have "ht t + length ((p, ls, k, rs) # c) \<le> ht (Node p (ls @ (k, t) # rs)) + length c" by simp
  also have "\<dots> \<le> ht (plug t ((p, ls, k, rs) # c))" using 2 by simp
  finally show ?case .
qed simp

end
