(* ===== verification/Store.thy ===== *)
theory Store
  imports Tree
begin

text \<open>
  The pages of a writer as a function of the page number, the operations on the arena as
  updates of that function, and the relation between pages and trees: \<open>rep\<close> says that the
  pages spell out a tree, \<open>store_ok\<close> is the invariant of the writer.
\<close>

section \<open>The arena as a function\<close>

definition page_at :: "writer \<Rightarrow> u32 \<Rightarrow> bytes" where
  "page_at w p = sub (w_pages w) (unat p * w_psize w) (w_psize w)"

definition page_count :: "writer \<Rightarrow> nat" where
  "page_count w = length (w_pages w) div w_psize w"

definition arena_ok :: "writer \<Rightarrow> bool" where
  "arena_ok w \<longleftrightarrow> length (w_pages w) = page_count w * w_psize w \<and>
     MIN_PSIZE \<le> w_psize w \<and> w_psize w \<le> MAX_PSIZE"

text \<open>The fields other than the pages.\<close>

definition fixed_part :: "writer \<Rightarrow> string \<times> nat \<times> u32 \<times> u32 \<times> u32" where
  "fixed_part w = (w_file w, w_psize w, w_free w, w_nrecs w, w_flags w)"

lemma arena_bounds:
  "arena_ok w \<Longrightarrow> 512 \<le> w_psize w \<and> w_psize w \<le> 32768 \<and> length (w_pages w) = page_count w * w_psize w"
  by (simp add: arena_ok_def)

lemma page_fits:
  assumes "arena_ok w" "unat p < page_count w"
  shows "unat p * w_psize w + w_psize w \<le> length (w_pages w)"
proof -
  have "(unat p + 1) * w_psize w \<le> page_count w * w_psize w"
    using assms(2) by (intro mult_le_mono1) simp
  then show ?thesis using assms(1) by (simp add: arena_ok_def)
qed

lemma page_bytes_eq:
  "arena_ok w \<Longrightarrow> unat p < page_count w \<Longrightarrow> page_bytes w p = Ok (page_at w p)"
  "arena_ok w \<Longrightarrow> unat p < page_count w \<Longrightarrow> length (page_at w p) = w_psize w"
  using page_fits [of w p] by (simp_all add: page_bytes_def page_at_def index_range_def Let_def)

lemma page_at_beyond:
  assumes "arena_ok w" "page_count w \<le> unat p"
  shows "page_at w p = []"
proof -
  have "length (w_pages w) \<le> unat p * w_psize w"
    using assms by (simp add: arena_ok_def mult_le_mono1)
  then show ?thesis by (simp add: page_at_def sub_def)
qed

text \<open>A change of one page.\<close>

definition set_page :: "writer \<Rightarrow> u32 \<Rightarrow> bytes \<Rightarrow> writer" where
  "set_page w p b = w\<lparr>w_pages := splice (w_pages w) (unat p * w_psize w) b\<rparr>"

lemma set_page_facts:
  assumes ok: "arena_ok w" and p: "unat p < page_count w" and b: "length b = w_psize w"
  shows "arena_ok (set_page w p b)" "page_count (set_page w p b) = page_count w"
    "page_at (set_page w p b) = (page_at w)(p := b)" "fixed_part (set_page w p b) = fixed_part w"
    "w_psize (set_page w p b) = w_psize w"
proof -
  note fit = page_fits [OF ok p]
  have len: "length (splice (w_pages w) (unat p * w_psize w) b) = length (w_pages w)"
    using fit b by simp
  then show cnt: "page_count (set_page w p b) = page_count w"
    by (simp add: set_page_def page_count_def)
  show "arena_ok (set_page w p b)"
    using ok len cnt by (simp add: arena_ok_def set_page_def)
  show "fixed_part (set_page w p b) = fixed_part w" "w_psize (set_page w p b) = w_psize w"
    by (simp_all add: fixed_part_def set_page_def)
  show "page_at (set_page w p b) = (page_at w)(p := b)"
  proof
    fix q :: u32
    show "page_at (set_page w p b) q = ((page_at w)(p := b)) q"
    proof (cases "q = p")
      case True
      then show ?thesis using fit b by (simp add: page_at_def set_page_def sub_splice_same)
    next
      case False
      then have "unat q < unat p \<or> unat p < unat q" by (metis linorder_less_linear word_unat_eq_iff)
      then have "(unat q + 1) * w_psize w \<le> unat p * w_psize w \<or> (unat p + 1) * w_psize w \<le> unat q * w_psize w"
        by (metis Suc_eq_plus1 Suc_leI mult_le_mono1)
      then have "unat q * w_psize w + w_psize w \<le> unat p * w_psize w \<or>
          unat p * w_psize w + length b \<le> unat q * w_psize w"
        using b by (auto simp: algebra_simps)
      then have "sub (splice (w_pages w) (unat p * w_psize w) b) (unat q * w_psize w) (w_psize w)
          = sub (w_pages w) (unat q * w_psize w) (w_psize w)"
        by (intro sub_splice_other) (use fit b in simp_all)
      with False show ?thesis by (simp add: page_at_def set_page_def)
    qed
  qed
qed

lemma page_update_eq:
  assumes "arena_ok w" "unat p < page_count w" "f (page_at w p) = Ok b"
  shows "page_update w p f = Ok (set_page w p b)"
  using assms by (simp add: page_update_def page_bytes_eq set_page_def)

lemma replace_page_eq:
  assumes "arena_ok w" "unat p < page_count w" "length b = w_psize w"
  shows "replace_page w p b = Ok (set_page w p b)"
proof -
  have "copy_from_slice (page_at w p) 0 (length (page_at w p)) b = Ok b"
    using assms page_bytes_eq(2) [OF assms(1,2)] by (simp add: copy_from_slice_def splice_all)
  then show ?thesis
    using page_update_eq [of w p "\<lambda>p. copy_from_slice p 0 (length p) b" b] assms by (simp add: replace_page_def)
qed

text \<open>A page appended at the end.\<close>

definition add_page :: "writer \<Rightarrow> bytes \<Rightarrow> writer" where
  "add_page w b = w\<lparr>w_pages := w_pages w @ b\<rparr>"

lemma next_free_pgno_eq:
  assumes "arena_ok w" "page_count w < 2 ^ 32"
  shows "next_free_pgno w = Ok (of_nat (page_count w))"
  using assms by (auto simp: next_free_pgno_def page_count_def Let_def arena_ok_def)

lemma add_page_facts:
  assumes ok: "arena_ok w" and n: "page_count w < 2 ^ 32" and b: "length b = w_psize w"
  shows "push_page w b = Ok (add_page w b, of_nat (page_count w))"
    "arena_ok (add_page w b)" "page_count (add_page w b) = Suc (page_count w)"
    "page_at (add_page w b) = (page_at w)(of_nat (page_count w) := b)"
    "fixed_part (add_page w b) = fixed_part w" "w_psize (add_page w b) = w_psize w"
proof -
  show "push_page w b = Ok (add_page w b, of_nat (page_count w))"
    by (simp add: push_page_def b next_free_pgno_eq [OF ok n] add_page_def)
  have ps: "w_psize w \<noteq> 0" "length (w_pages w) = page_count w * w_psize w"
    using arena_bounds [OF ok] by auto
  have len: "length (w_pages (add_page w b)) = Suc (page_count w) * w_psize w"
    using ps(2) b by (simp add: add_page_def)
  have psz: "w_psize (add_page w b) = w_psize w" by (simp add: add_page_def)
  show cnt: "page_count (add_page w b) = Suc (page_count w)"
    unfolding page_count_def [of "add_page w b"] len psz by (rule nonzero_mult_div_cancel_right [OF ps(1)])
  show "fixed_part (add_page w b) = fixed_part w" "w_psize (add_page w b) = w_psize w"
    by (simp_all add: fixed_part_def add_page_def)
  show ok': "arena_ok (add_page w b)"
    unfolding arena_ok_def len cnt psz using ok by (simp add: arena_ok_def)
  have un: "unat (of_nat (page_count w) :: u32) = page_count w" using n by simp
  show "page_at (add_page w b) = (page_at w)(of_nat (page_count w) := b)"
  proof
    fix q :: u32
    consider "unat q < page_count w" | "unat q = page_count w" | "page_count w < unat q" by linarith
    then show "page_at (add_page w b) q = ((page_at w)(of_nat (page_count w) := b)) q"
    proof cases
      case 1
      then have "q \<noteq> of_nat (page_count w)" using un by auto
      with page_fits [OF ok 1] show ?thesis by (simp add: page_at_def add_page_def sub_append_left)
    next
      case 2
      then have q: "q = of_nat (page_count w)" using un by (simp add: word_unat_eq_iff)
      have "unat q * w_psize w = length (w_pages w)" using 2 ps by simp
      then have "page_at (add_page w b) q = sub b 0 (length b)"
        using b by (simp add: page_at_def add_page_def sub_append_right)
      then show ?thesis using q by simp
    next
      case 3
      then have "q \<noteq> of_nat (page_count w)" using un by auto
      then show ?thesis using 3 page_at_beyond [OF ok, of q] page_at_beyond [OF ok', of q] cnt by simp
    qed
  qed
qed

section \<open>Pages and trees\<close>

definition heads :: "(bytes \<times> btree) list \<Rightarrow> (bytes \<times> u32) list" where
  "heads kts = map (\<lambda>kt. (fst kt, pg (snd kt))) kts"

lemma heads_simps [simp]: "heads [] = []" "heads (kt # kts) = (fst kt, pg (snd kt)) # heads kts"
  "heads (xs @ ys) = heads xs @ heads ys" "length (heads kts) = length kts"
  "heads kts = [] \<longleftrightarrow> kts = []"
  by (simp_all add: heads_def)

lemma nth_heads [simp]: "i < length kts \<Longrightarrow> heads kts ! i = (fst (kts ! i), pg (snd (kts ! i)))"
  by (simp add: heads_def)

lemma take_drop_heads: "take m (heads kts) = heads (take m kts)" "drop m (heads kts) = heads (drop m kts)"
  by (simp_all add: heads_def take_map drop_map)

lemma ascending_heads [simp]: "ascending (heads kts) \<longleftrightarrow> ascending kts"
  by (simp add: ascending_def heads_def sorted_wrt_map)

fun rep :: "endian \<Rightarrow> (u32 \<Rightarrow> bytes) \<Rightarrow> btree \<Rightarrow> bool"
and reps :: "endian \<Rightarrow> (u32 \<Rightarrow> bytes) \<Rightarrow> (bytes \<times> btree) list \<Rightarrow> bool" where
  "rep h P (Leaf p kvs) = leaf_page h (P p) kvs"
| "rep h P (Node p kts) = (int_page h (P p) (heads kts) \<and> reps h P kts)"
| "reps h P [] = True"
| "reps h P (kt # kts) = (rep h P (snd kt) \<and> reps h P kts)"

lemma reps_append [simp]: "reps h P (xs @ ys) \<longleftrightarrow> reps h P xs \<and> reps h P ys"
  by (induction xs) auto

lemma reps_nth: "reps h P kts \<Longrightarrow> i < length kts \<Longrightarrow> rep h P (snd (kts ! i))"
  by (induction kts arbitrary: i) (auto simp: nth_Cons split: nat.split)

fun crep :: "endian \<Rightarrow> (u32 \<Rightarrow> bytes) \<Rightarrow> u32 \<Rightarrow> frame list \<Rightarrow> bool" where
  "crep h P q [] = True"
| "crep h P q ((p, ls, k, rs) # c) =
     (int_page h (P p) (heads ls @ (k, q) # heads rs) \<and> reps h P ls \<and> reps h P rs \<and> crep h P p c)"

lemma rep_plug: "rep h P (plug t c) \<longleftrightarrow> rep h P t \<and> crep h P (pg t) c"
  by (induction t c rule: plug.induct) auto

text \<open>
  Two pages that agree but for the number of the page and its left sibling hold the same
  entries.
\<close>

definition alike :: "bytes \<Rightarrow> bytes \<Rightarrow> bool" where
  "alike b b' \<longleftrightarrow> length b' = length b \<and> drop 8 b' = drop 8 b"

lemma alike_refl [simp]: "alike b b"
  by (simp add: alike_def)

lemma alike_trans: "alike a b \<Longrightarrow> alike b c \<Longrightarrow> alike a c"
  by (simp add: alike_def)

lemma alike_sub: "alike b b' \<Longrightarrow> 8 \<le> off \<Longrightarrow> sub b' off n = sub b off n"
proof -
  assume "alike b b'" "8 \<le> off"
  then obtain d where "off = 8 + d" "drop 8 b' = drop 8 b" by (auto simp: alike_def le_iff_add)
  then show ?thesis by (metis add.commute drop_drop sub_def)
qed

lemma alike_hd:
  assumes "alike b b'"
  shows "hd_next h b' = hd_next h b" "hd_flags h b' = hd_flags h b" "hd_lower h b' = hd_lower h b"
    "hd_upper h b' = hd_upper h b" "hd_linp h b' i = hd_linp h b i"
  using assms by (simp_all add: hd_defs alike_sub)

lemma alike_page_holds:
  assumes a: "alike b b'" and P: "page_holds h b encs"
  shows "page_holds h b' encs"
proof -
  note pg = page_holds_header [OF P]
  have H: "holds h b (hd_lower h b) (hd_upper h b) (List.enumerate 0 encs)"
    using P unfolding page_holds_def by blast
  have "holds h b' (hd_lower h b) (hd_upper h b) (List.enumerate 0 encs)"
  proof (rule holds_frame [OF H])
    show "length b' = length b" using a by (simp add: alike_def)
    fix i e assume i: "(i, e) \<in> set (List.enumerate 0 encs)"
    show "22 + 2 * i \<le> hd_lower h b \<and> hd_linp h b' i = hd_linp h b i"
      using holds_slotD(1) [OF H i] alike_hd [OF a] by simp
    show "sub b' (hd_linp h b i) (length e) = sub b (hd_linp h b i) (length e)"
      using holds_slotD(1,3) [OF H i] pg by (intro alike_sub [OF a]) simp
  qed (use pg in simp_all)
  then show ?thesis using pg alike_hd [OF a] unfolding page_holds_def by simp
qed

lemma alike_pages:
  "alike b b' \<Longrightarrow> leaf_page h b kvs \<Longrightarrow> leaf_page h b' kvs"
  "alike b b' \<Longrightarrow> int_page h b kcs \<Longrightarrow> int_page h b' kcs"
  by (simp_all add: leaf_page_def int_page_def alike_page_holds alike_hd)

lemma rep_alike:
  "rep h P t \<Longrightarrow> (\<And>p. p \<in> set (pgs t) \<Longrightarrow> alike (P p) (P' p)) \<Longrightarrow> rep h P' t"
  "reps h P kts \<Longrightarrow> (\<And>p. p \<in> set (pgs_l kts) \<Longrightarrow> alike (P p) (P' p)) \<Longrightarrow> reps h P' kts"
  by (induction h P t and h P kts rule: rep_reps.induct) (auto intro: alike_pages)

lemma crep_alike:
  "crep h P q c \<Longrightarrow> (\<And>p. p \<in> set (cpgs c) \<Longrightarrow> alike (P p) (P' p)) \<Longrightarrow> crep h P' q c"
  by (induction h P q c rule: crep.induct) (auto intro: alike_pages rep_alike)

lemma alike_set_prev: "20 \<le> length b \<Longrightarrow> alike b (wr32 h b 4 w)"
proof -
  assume "20 \<le> length b"
  then have "drop 8 (wr32 h b 4 w) = drop 8 b" by (simp add: wr32_def splice_def)
  then show ?thesis using \<open>20 \<le> length b\<close> by (simp add: alike_def)
qed

section \<open>The leaf chain\<close>

fun links :: "(u32 \<Rightarrow> u32) \<Rightarrow> u32 list \<Rightarrow> bool" where
  "links nx [] = True"
| "links nx [p] = (nx p = P_INVALID)"
| "links nx (p # q # ps) = (nx p = q \<and> links nx (q # ps))"

lemma links_cong: "(\<And>p. p \<in> set ps \<Longrightarrow> nx p = nx' p) \<Longrightarrow> links nx ps = links nx' ps"
  by (induction nx ps rule: links.induct) auto

lemma links_insert:
  assumes "links nx (xs @ p # ys)" "distinct (xs @ p # ys)" "r \<notin> set (xs @ p # ys)"
    and "nx' p = r" "nx' r = nx p" "\<And>q. q \<in> set (xs @ ys) \<Longrightarrow> nx' q = nx q"
  shows "links nx' (xs @ p # r # ys)"
  using assms
proof (induction xs)
  case Nil
  have "links nx' ys" if "links nx ys" using that Nil links_cong [of ys nx nx'] by simp
  with Nil show ?case by (cases ys) auto
next
  case (Cons x xs)
  then have IH: "links nx' (xs @ p # r # ys)" by (cases xs) auto
  have "nx' x = nx x" using Cons.prems(6) [of x] by simp
  with Cons.prems(1) IH show ?case by (cases xs) auto
qed

end
