(* ===== verification/Root_Page.thy ===== *)
theory Root_Page
  imports Store
begin

text \<open>
  The pages built by a split of the root, the meta page, and the separator keys: the root
  becomes an internal page of two entries, and a separator cut by \<open>bt_defpfx\<close> still lies
  between the two keys it separates.
\<close>

section \<open>The new root\<close>

lemma holds_two:
  assumes u0: "u0 + esize e0 = length b" and u1: "u1 + esize e1 = u0" and room: "24 \<le> u1"
    and le: "length b \<le> 32768" and ne: "e0 \<noteq> []" "e1 \<noteq> []"
    and l0: "hd_linp h b 0 = u0" "sub b u0 (length e0) = e0"
    and l1: "hd_linp h b 1 = u1" "sub b u1 (length e1) = e1"
  shows "holds h b 24 u1 (List.enumerate 0 [e0, e1])"
proof -
  have E: "holds h b 24 (length b) []" by (rule holds_empty) (use assms in simp_all)
  have d: "length b - esize e0 = u0" "u0 - esize e1 = u1" using u0 u1 by linarith+
  have "holds h b 24 (length b - esize e0) [(0, e0)]"
    by (rule holds_add [OF E ne(1)]) (use d l0 u0 u1 room in \<open>simp_all only: d\<close>, simp_all)
  then have F: "holds h b 24 u0 [(0, e0)]" unfolding d .
  have "holds h b 24 (u0 - esize e1) [(1, e1), (0, e0)]"
  proof (rule holds_add [OF F ne(2)])
    show "22 + 2 * 1 \<le> (24 :: nat)" "(1 :: nat) \<notin> fst ` set [(0, e0)]" by simp_all
    show "24 + esize e1 \<le> u0" using u1 room by linarith
    show "hd_linp h b 1 = u0 - esize e1" by (rule trans [OF l1(1) d(2) [symmetric]])
    show "sub b (u0 - esize e1) (length e1) = e1" unfolding d by (rule l1(2))
  qed
  then have "holds h b 24 u1 [(1, e1), (0, e0)]" unfolding d .
  moreover have "mset [(1, e1), (0, e0)] = mset (List.enumerate 0 [e0, e1])" by simp
  ultimately show ?thesis using holds_perm by blast
qed

lemma root_flags:
  "f = P_BLEAF \<or> f = P_BINTERNAL \<Longrightarrow> (f AND NOT P_TYPE) OR P_BINTERNAL = P_BINTERNAL"
  by (auto simp: format_defs)

lemma convert_root_page:
  assumes len: "length p = psize" "512 \<le> psize" "psize \<le> 32768"
    and flags: "hd_flags h p = P_BLEAF \<or> hd_flags h p = P_BINTERNAL"
    and fit: "key_bytes k + 36 \<le> psize"
  obtains b where "convert_root_to_internal h p psize l r k = Ok b" "int_page h b [([], l), (k, r)]"
    "length b = psize" "hd_next h b = hd_next h p" "hd_prev h b = hd_prev h p"
proof -
  let ?e0 = "enc_bint h ([], l)" and ?e1 = "enc_bint h (k, r)"
  have s0: "esize ?e0 = 12" by (simp add: int_bytes_key key_bytes_def align_entry_eq)
  have s1: "esize ?e1 = key_bytes k" by (simp add: int_bytes_key)
  have a0: "align_entry 9 = 12" by (simp add: align_entry_eq)
  have a1: "align_entry (9 + length k) = key_bytes k" by (simp add: key_bytes_def)
  define u0 where "u0 = psize - 12"
  define u1 where "u1 = u0 - key_bytes k"
  have u: "u0 + 12 = psize" "u1 + key_bytes k = u0" "24 \<le> u1" "u0 < 32768"
    using len fit by (simp_all add: u0_def u1_def)
  have lk: "9 + length k \<le> key_bytes k" by (simp add: key_bytes_def align_entry_ge)
  let ?p1 = "splice p u0 ?e0"
  let ?p2 = "splice ?p1 u1 ?e1"
  let ?p3 = "wr16 h ?p2 (20 + 2 * 0) u0"
  let ?p4 = "wr16 h ?p3 (20 + 2 * 1) u1"
  let ?p5 = "wr16 h ?p4 16 24"
  let ?p6 = "wr16 h ?p5 18 u1"
  let ?b = "wr32 h ?p6 12 P_BINTERNAL"
  have lens: "length ?p1 = psize" "length ?p2 = psize" "length ?p3 = psize" "length ?p4 = psize"
    "length ?p5 = psize" "length ?p6 = psize" "length ?b = psize"
    using u lk len by simp_all
  have w1: "write_binternal_inline h p u0 0 [] l = Ok ?p1"
    by (subst write_binternal_inline_eq) (use u lk len in simp_all)
  have w2: "write_binternal_inline h ?p1 u1 (length k) k r = Ok ?p2"
    by (subst write_binternal_inline_eq) (use u lk lens len in simp_all)
  have w3: "pb_set_linp h ?p2 0 u0 = Ok ?p3"
    by (rule pb_set_linp_eq) (use u lens len in simp_all)
  have w4: "pb_set_linp h ?p3 1 u1 = Ok ?p4"
    by (rule pb_set_linp_eq) (use u lens len in simp_all)
  have w5: "pb_set_lower h ?p4 24 = Ok ?p5" by (rule pb_set_eqs(5)) (use lens len in simp_all)
  have w6: "pb_set_upper h ?p5 u1 = Ok ?p6" by (rule pb_set_eqs(6)) (use lens len u in simp_all)
  have id6: "ident ?p6 = ident p" using lens u lk len by simp
  have w7: "pb_flags h ?p6 = Ok (hd_flags h p)"
    using lens len ident_hd(4) [OF id6] by simp
  have w8: "pb_set_flags h ?p6 P_BINTERNAL = Ok ?b" using lens len by (simp add: pb_set_eqs)
  have us: "usub psize (align_entry 9) = Ok u0" "usub u0 (align_entry (9 + length k)) = Ok u1"
    unfolding a0 a1 using u by (simp_all add: usub_def u0_def u1_def)
  have res: "convert_root_to_internal h p psize l r k = Ok ?b"
    unfolding convert_root_to_internal_def sizes us and_then_simps w1 w2 w3 w4 w6 w7
      root_flags [OF flags] w8
    using w5 w6 w7 root_flags [OF flags] w8 by simp
  have "hd_linp h ?b i = hd_linp h ?p4 i" for i using lens len by (simp add: hd_wr32)
  moreover have "hd_linp h ?p4 i = (if i = 1 then u1 else hd_linp h ?p3 i)" for i
    by (rule hd_wr_linp(1)) (use lens len u in simp_all)
  moreover have "hd_linp h ?p3 i = (if i = 0 then u0 else hd_linp h ?p2 i)" for i
    by (rule hd_wr_linp(1)) (use lens len u in simp_all)
  ultimately have lin: "hd_linp h ?b 0 = u0" "hd_linp h ?b 1 = u1" by simp_all
  have "sub ?b u0 (length ?e0) = sub ?p2 u0 (length ?e0)" "sub ?b u1 (length ?e1) = sub ?p2 u1 (length ?e1)"
    using lens len u lk by (simp_all add: sub_wr32 sub_wr16)
  moreover have "sub ?p2 u0 (length ?e0) = ?e0"
    using lens len u lk by (simp add: sub_splice_other sub_splice_same)
  moreover have "sub ?p2 u1 (length ?e1) = ?e1"
    using lens len u lk by (simp add: sub_splice_same)
  ultimately have pay: "sub ?b u0 (length ?e0) = ?e0" "sub ?b u1 (length ?e1) = ?e1" by simp_all
  have H: "holds h ?b 24 u1 (List.enumerate 0 [?e0, ?e1])"
  proof (rule holds_two [OF _ _ u(3) _ _ _ lin(1) pay(1) lin(2) pay(2)])
    show "u0 + esize ?e0 = length ?b" unfolding s0 lens(7) by (rule u(1))
    show "u1 + esize ?e1 = u0" unfolding s1 by (rule u(2))
    show "length ?b \<le> 32768" unfolding lens(7) by (rule len(3))
  qed simp_all
  have low: "hd_lower h ?b = 24" "hd_upper h ?b = u1"
    using lens len u by (simp_all add: hd_wr32)
  have "page_holds h ?b [?e0, ?e1]"
    unfolding page_holds_def low using H by simp
  moreover have "hd_flags h ?b = P_BINTERNAL" using lens len by (simp add: hd_wr32)
  ultimately have "int_page h ?b [([], l), (k, r)]" by (simp add: int_page_def)
  moreover have "hd_next h ?b = hd_next h p" "hd_prev h ?b = hd_prev h p"
    using lens len ident_hd [OF id6] by (simp_all add: hd_wr32)
  ultimately show ?thesis using that [OF res] lens by simp
qed

section \<open>Separator keys\<close>

lemma bt_defpfx_Cons:
  "bt_defpfx (x # a) (y # b) = (if x \<noteq> y then 1 else bt_defpfx a b + 1)"
  by (auto simp: bt_defpfx_def split: option.split)

lemma bt_defpfx_separates:
  "a < b \<Longrightarrow> a < take (bt_defpfx a b) b \<and> bt_defpfx a b \<le> length b"
proof (induction a b rule: cmp_bytes.induct)
  case (2 y ys)
  then show ?case by (simp add: bt_defpfx_def)
next
  case (4 x xs y ys)
  then show ?case by (cases "x = y") (auto simp: bt_defpfx_Cons)
qed simp_all

lemma take_le: "take n b \<le> (b :: bytes)"
proof (induction b arbitrary: n)
  case (Cons y b)
  then show ?case by (cases n) simp_all
qed simp

text \<open>The lengths to which the key of a separator may be cut when it is inserted.\<close>

definition sep_lens :: "separator \<Rightarrow> nat set" where
  "sep_lens sep = (case sep of SepInternal k c n \<Rightarrow> {n} | SepLeaf k c l \<Rightarrow> {length k, bt_defpfx l k})"

lemma encoded_size_lens:
  "encoded_size sep prev skip = (nk, nb) \<Longrightarrow> nk \<in> sep_lens sep \<and> nb = align_entry (9 + nk)"
  by (auto simp: encoded_size_def sep_lens_def Let_def split: separator.splits if_splits)

lemma key_bytes_mono: "length a \<le> length b \<Longrightarrow> key_bytes a \<le> key_bytes b"
  by (simp add: key_bytes_def align_entry_mono)

lemma key_bytes_leaf: "key_bytes (fst kv) \<le> leaf_bytes kv"
  by (simp add: key_bytes_def leaf_bytes_def align_entry_mono)

end
