(* ===== verification/Well_Formed.thy ===== *)
theory Well_Formed
  imports Root_Page
begin

text \<open>
  The invariant of the writer. \<open>well h w ts c\<close> says that the pages of \<open>w\<close> spell out the
  context \<open>c\<close> with the trees \<open>ts\<close> side by side in its hole: one tree in a finished state,
  two while a split has not reached the parent yet. The last clause counts: besides page 0, the
  file's meta page, the arena holds the pages of these trees and no others. \<open>store_ok\<close> is the invariant between
  operations.
\<close>

definition half_page :: "writer \<Rightarrow> nat" where
  "half_page w = (w_psize w - 20) div 2"

definition nexts :: "endian \<Rightarrow> writer \<Rightarrow> u32 \<Rightarrow> u32" where
  "nexts h w p = hd_next h (page_at w p)"

definition in_range :: "endian \<Rightarrow> writer \<Rightarrow> u32 \<Rightarrow> bool" where
  "in_range h w p \<longleftrightarrow> 1 \<le> unat p \<and> unat p < page_count w \<and> unat (nexts h w p) < page_count w"

definition all_pgs :: "btree list \<Rightarrow> u32 list" where
  "all_pgs ts = concat (map pgs ts)"

definition all_leaves :: "btree list \<Rightarrow> u32 list" where
  "all_leaves ts = concat (map leaf_pgs ts)"

lemma all_simps [simp]:
  "all_pgs [] = []" "all_pgs (t # ts) = pgs t @ all_pgs ts"
  "all_leaves [] = []" "all_leaves (t # ts) = leaf_pgs t @ all_leaves ts"
  by (simp_all add: all_pgs_def all_leaves_def)

definition well :: "endian \<Rightarrow> writer \<Rightarrow> btree list \<Rightarrow> frame list \<Rightarrow> bool" where
  "well h w ts c \<longleftrightarrow> arena_ok w \<and> ts \<noteq> [] \<and>
     (\<forall>t \<in> set ts. rep h (page_at w) t \<and> small (half_page w) t) \<and>
     crep h (page_at w) (pg (hd ts)) c \<and> csmall (half_page w) c \<and>
     distinct (all_pgs ts @ cpgs c) \<and> (\<forall>p \<in> set (all_pgs ts @ cpgs c). in_range h w p) \<and>
     links (nexts h w) (leaves_before c @ all_leaves ts @ leaves_after c) \<and>
     page_count w = Suc (length (all_pgs ts @ cpgs c))"

definition store_ok :: "endian \<Rightarrow> writer \<Rightarrow> btree \<Rightarrow> bool" where
  "store_ok h w t \<longleftrightarrow> well h w [t] [] \<and> pg t = P_ROOT \<and> tree_ok [] None t"

lemma wellD:
  assumes "well h w ts c"
  shows "arena_ok w" "ts \<noteq> []" "\<And>t. t \<in> set ts \<Longrightarrow> rep h (page_at w) t"
    "\<And>t. t \<in> set ts \<Longrightarrow> small (half_page w) t" "crep h (page_at w) (pg (hd ts)) c"
    "csmall (half_page w) c" "distinct (all_pgs ts @ cpgs c)"
    "\<And>p. p \<in> set (all_pgs ts @ cpgs c) \<Longrightarrow> in_range h w p"
    "links (nexts h w) (leaves_before c @ all_leaves ts @ leaves_after c)"
    "page_count w = Suc (length (all_pgs ts @ cpgs c))"
  using assms by (simp_all add: well_def)

lemma length_pgs_plug: "length (pgs (plug t c)) = length (pgs t) + length (cpgs c)"
  using mset_pgs_plug [of t c] by (metis size_mset size_union)

lemma well_plug: "well h w [plug t c] [] \<longleftrightarrow> well h w [t] c"
proof -
  have "distinct (pgs (plug t c)) \<longleftrightarrow> distinct (pgs t @ cpgs c)"
    by (auto simp: distinct_pgs_plug)
  moreover have "set (pgs (plug t c)) = set (pgs t @ cpgs c)" by (simp add: set_pgs_plug)
  ultimately show ?thesis
    by (auto simp: well_def rep_plug small_plug leaf_pgs_plug length_pgs_plug)
qed

lemma half_page_bounds:
  assumes "arena_ok w"
  shows "246 \<le> half_page w" "2 * half_page w + 20 \<le> w_psize w"
  using arena_bounds [OF assms] unfolding half_page_def by linarith+

lemma page_len:
  "well h w ts c \<Longrightarrow> p \<in> set (all_pgs ts @ cpgs c) \<Longrightarrow>
   length (page_at w p) = w_psize w \<and> page_bytes w p = Ok (page_at w p) \<and> 1 \<le> unat p \<and> unat p < page_count w"
  using wellD(1,8) [of h w ts c] page_bytes_eq [of w p] by (auto simp: in_range_def)

text \<open>The pages of a whole tree are all the pages of the arena but the first.\<close>

lemma well_page_numbers:
  assumes W: "well h w [t] []"
  shows "unat ` set (pgs t) = {1 ..< page_count w}" "page_count w = Suc (length (pgs t))"
proof -
  note D = wellD [OF W]
  show n: "page_count w = Suc (length (pgs t))" using D(10) by simp
  have "inj_on (unat :: u32 \<Rightarrow> nat) (set (pgs t))" by (intro inj_onI iffD2 [OF word_unat_eq_iff])
  then have "card (unat ` set (pgs t)) = card {1 ..< page_count w}"
    using D(7) n by (simp add: card_image distinct_card)
  moreover have "unat ` set (pgs t) \<subseteq> {1 ..< page_count w}" using D(8) by (auto simp: in_range_def)
  ultimately show "unat ` set (pgs t) = {1 ..< page_count w}" by (intro card_subset_eq) auto
qed

text \<open>A change that touches only the pages in the hole, up to links to the left.\<close>

lemma well_step:
  assumes W: "well h w ts c"
    and w': "arena_ok w'" "w_psize w' = w_psize w" "page_count w \<le> page_count w'"
    and ne: "ts' \<noteq> []" "pg (hd ts') = pg (hd ts)"
    and new: "\<And>t. t \<in> set ts' \<Longrightarrow> rep h (page_at w') t" "\<And>t. t \<in> set ts' \<Longrightarrow> small (half_page w) t"
    and dist: "distinct (all_pgs ts')" "set (all_pgs ts') \<inter> set (cpgs c) = {}"
    and ctx: "\<And>p. p \<in> set (cpgs c) \<Longrightarrow> alike (page_at w p) (page_at w' p)"
    and range: "\<And>p. p \<in> set (all_pgs ts') \<Longrightarrow> in_range h w' p"
    and chain: "links (nexts h w') (leaves_before c @ all_leaves ts' @ leaves_after c)"
    and count: "page_count w' + length (all_pgs ts) = page_count w + length (all_pgs ts')"
  shows "well h w' ts' c"
proof -
  note D = wellD [OF W]
  have half: "half_page w' = half_page w" using w'(2) by (simp add: half_page_def)
  have "crep h (page_at w') (pg (hd ts')) c"
    unfolding ne(2) by (rule crep_alike [OF D(5) ctx])
  moreover have "in_range h w' p" if "p \<in> set (cpgs c)" for p
    using D(8) [of p] that w'(3) alike_hd(1) [OF ctx [OF that]] by (auto simp: in_range_def nexts_def)
  moreover have "page_count w' = Suc (length (all_pgs ts' @ cpgs c))" using count D(10) by simp
  ultimately show ?thesis
    using w' ne(1) new D(6,7) dist range chain unfolding well_def half by auto
qed

lemma well_alike:
  assumes W: "well h w ts c"
    and w': "arena_ok w'" "w_psize w' = w_psize w" "page_count w' = page_count w"
    and al: "\<And>p. alike (page_at w p) (page_at w' p)"
  shows "well h w' ts c"
proof (rule well_step [OF W w'(1,2)])
  note D = wellD [OF W]
  have nx: "nexts h w' = nexts h w" using alike_hd(1) [OF al] by (auto simp: nexts_def)
  show "links (nexts h w') (leaves_before c @ all_leaves ts @ leaves_after c)"
    unfolding nx by (rule D(9))
  show "in_range h w' p" if "p \<in> set (all_pgs ts)" for p
    using D(8) [of p] that nx w'(3) by (auto simp: in_range_def)
  show "distinct (all_pgs ts)" "set (all_pgs ts) \<inter> set (cpgs c) = {}" using D(7) by auto
  show "rep h (page_at w') t" "small (half_page w) t" if "t \<in> set ts" for t
    using rep_alike(1) [OF D(3) [OF that] al] D(4) [OF that] by auto
qed (use wellD(2) [OF W] w' al in auto)

section \<open>Descent\<close>

text \<open>The path from the root to the leaf that is responsible for a key.\<close>

lemma hole_append:
  "hole_lo lo (c @ d) = hole_lo (hole_lo lo d) c" "hole_hi hi (c @ d) = hole_hi (hole_hi hi d) c"
  by (induction c) auto

lemma slots_simps [simp]: "slots [] = []" "slots ((p, ls, k, rs) # c) = (p, length ls) # slots c"
  "slots (c @ d) = slots c @ slots d"
  by (simp_all add: slots_def)

text \<open>The child that a search chooses, and the frame it leaves.\<close>

lemma chosen_child:
  assumes ok: "tree_ok lo hi (Node p kts)" and key: "below key hi" and c: "child_slot (heads kts) key c"
  defines "k \<equiv> fst (kts ! c)" and "rs \<equiv> drop (Suc c) kts"
  shows "kts = take c kts @ (k, snd (kts ! c)) # rs" "c < length kts" "tree_ok k (nxt hi rs) (snd (kts ! c))"
    "k \<le> key" "below key (nxt hi rs)"
proof -
  show len: "c < length kts" using c by (simp add: child_slot_def)
  then show eq: "kts = take c kts @ (k, snd (kts ! c)) # rs"
    by (simp add: k_def rs_def id_take_nth_drop)
  have "kids_ok hi (take c kts @ (k, snd (kts ! c)) # rs)" using ok eq by simp
  then show "tree_ok k (nxt hi rs) (snd (kts ! c))" by (simp add: kids_ok_append)
  show "k \<le> key" using c len by (simp add: child_slot_def k_def)
  show "below key (nxt hi rs)"
  proof (cases "Suc c < length kts")
    case True
    then have "key < fst (kts ! Suc c)" using c by (simp add: child_slot_def)
    moreover have "rs = kts ! Suc c # drop (Suc (Suc c)) kts" using True by (simp add: rs_def Cons_nth_drop_Suc)
    ultimately show ?thesis by simp
  next
    case False
    then show ?thesis using key by (simp add: rs_def)
  qed
qed

lemma size_child: "kt \<in> set kts \<Longrightarrow> size (snd kt) < size (Node p kts)"
  by (induction kts) (auto simp: size_prod_def)

lemma node_search:
  assumes ok: "tree_ok lo hi (Node p kts)" and I: "int_page h buf (heads kts)" and lo: "lo \<le> key"
  obtains c where
    "descend_internal_pick h (view_of h p buf False) key (hd_prev h buf = P_INVALID) = Ok c"
    "child_slot (heads kts) key c"
    "\<exists>item. pv_internal_entry h (view_of h p buf False) c = Ok \<lparr>ie_key = item, ie_child = pg (snd (kts ! c))\<rparr>"
proof -
  have ne: "heads kts \<noteq> []" and asc: "ascending (heads kts)" and hd: "fst (heads kts ! 0) \<le> key"
    using ok lo kids_ascending [of hi kts] by (auto simp: hd_conv_nth)
  obtain c where c: "descend_internal_pick h (view_of h p buf False) key (hd_prev h buf = P_INVALID) = Ok c"
      "child_slot (heads kts) key c"
    by (rule descend_internal_pick_page [OF I asc ne hd])
  then have len: "c < length (heads kts)" by (simp add: child_slot_def)
  show ?thesis
    using internal_entry_page [of h False buf "heads kts" c p, unfolded eff_simps, OF I len] that [OF c] len
    by (metis heads_simps(4) nth_heads snd_conv)
qed

lemma descend_hop_node:
  assumes ok: "tree_ok lo hi (Node p kts)" and R: "rep h (page_at w) (Node p kts)"
    and pb: "page_bytes w p = Ok (page_at w p)" and lo: "lo \<le> key"
  obtains c where "descend_hop h w key p = Ok (Some (c, pg (snd (kts ! c))))"
    "child_slot (heads kts) key c"
proof -
  have I: "int_page h (page_at w p) (heads kts)" using R by simp
  note ih = int_page_header [OF I] and pi = parse_int_page [of h False _ _ p, unfolded eff_simps, OF I]
  obtain c item where c: "descend_internal_pick h (view_of h p (page_at w p) False) key
        (hd_prev h (page_at w p) = P_INVALID) = Ok c" "child_slot (heads kts) key c"
      "pv_internal_entry h (view_of h p (page_at w p) False) c = Ok \<lparr>ie_key = item, ie_child = pg (snd (kts ! c))\<rparr>"
    using node_search [OF ok I lo] by metis
  have "descend_hop h w key p = Ok (Some (c, pg (snd (kts ! c))))"
    by (simp add: descend_hop_def pb ih(1,7) pi(1) c(1,3))
  with c(2) show ?thesis using that by blast
qed

lemma descend_hop_leaf:
  assumes R: "rep h (page_at w) (Leaf p kvs)" and pb: "page_bytes w p = Ok (page_at w p)"
  shows "descend_hop h w key p = Ok None"
proof -
  have L: "leaf_page h (page_at w p) kvs" using R by simp
  show ?thesis using leaf_page_header(1,7) [OF L] by (simp add: descend_hop_def pb)
qed

lemma descend_from_tree:
  assumes "rep h (page_at w) t" "tree_ok lo hi t" "lo \<le> key" "below key hi"
    and "\<And>p. p \<in> set (pgs t) \<Longrightarrow> page_bytes w p = Ok (page_at w p)"
  shows "\<exists>c lp kvs. plug (Leaf lp kvs) c = t \<and>
    descend_from h w key path (pg t) = Some (Ok \<lparr>sp_path = path @ rev (slots c), sp_leaf_pgno = lp\<rparr>) \<and>
    hole_lo lo c \<le> key \<and> below key (hole_hi hi c)"
  using assms
proof (induction t arbitrary: lo hi path rule: measure_induct_rule [where f = size])
  case (less t)
  show ?case
  proof (cases t)
    case (Leaf lp kvs)
    have pb: "page_bytes w lp = Ok (page_at w lp)" using less.prems(5) Leaf by simp
    have "descend_from h w key path lp = Some (Ok \<lparr>sp_path = path, sp_leaf_pgno = lp\<rparr>)"
      using descend_hop_leaf [OF less.prems(1) [unfolded Leaf] pb] by (subst descend_from.simps) simp
    then show ?thesis using less.prems(3,4) Leaf
      by (intro exI [of _ "[]"] exI [of _ lp] exI [of _ kvs]) simp
  next
    case (Node p kts)
    note ok = less.prems(2) [unfolded Node] and R = less.prems(1) [unfolded Node]
    have pb: "page_bytes w p = Ok (page_at w p)" using less.prems(5) Node by simp
    obtain i where hop: "descend_hop h w key p = Ok (Some (i, pg (snd (kts ! i))))"
        and i: "child_slot (heads kts) key i"
      by (rule descend_hop_node [OF ok R pb less.prems(3)])
    note ch = chosen_child [OF ok less.prems(4) i]
    let ?t = "snd (kts ! i)" and ?k = "fst (kts ! i)" and ?rs = "drop (Suc i) kts"
    have mem: "kts ! i \<in> set kts" using ch(2) by simp
    have sub: "set (pgs ?t) \<subseteq> set (pgs t)"
    proof -
      have "set (pgs_l (xs @ kt # ys)) \<supseteq> set (pgs (snd kt))" for xs kt ys by auto
      then have "set (pgs ?t) \<subseteq> set (pgs_l kts)" using ch(1) by (metis snd_conv)
      then show ?thesis using Node by auto
    qed
    have "rep h (page_at w) ?t" using reps_nth [OF _ ch(2)] R by simp
    from less.IH [OF _ this ch(3,4,5)] size_child [OF mem, of p] Node less.prems(5) sub
    obtain c lp kvs where IH: "plug (Leaf lp kvs) c = ?t"
      "descend_from h w key (path @ [(p, i)]) (pg ?t)
        = Some (Ok \<lparr>sp_path = (path @ [(p, i)]) @ rev (slots c), sp_leaf_pgno = lp\<rparr>)"
      "hole_lo ?k c \<le> key" "below key (hole_hi (nxt hi ?rs) c)"
      by blast
    let ?c = "c @ [(p, take i kts, ?k, ?rs)]"
    have "plug (Leaf lp kvs) ?c = t" using IH(1) ch(1) Node by (simp add: plug_append)
    moreover have "descend_from h w key path (pg t)
        = Some (Ok \<lparr>sp_path = path @ rev (slots ?c), sp_leaf_pgno = lp\<rparr>)"
      using IH(2) hop ch(2) Node by (subst descend_from.simps) simp
    moreover have "hole_lo lo ?c \<le> key" "below key (hole_hi hi ?c)"
      using IH(3,4) by (simp_all add: hole_append)
    ultimately show ?thesis by blast
  qed
qed

lemma descend_store:
  assumes S: "store_ok h w t"
  obtains c lp kvs where "plug (Leaf lp kvs) c = t" "well h w [Leaf lp kvs] c"
    "descend h w key = Some (Ok \<lparr>sp_path = rev (slots c), sp_leaf_pgno = lp\<rparr>)"
    "hole_lo [] c \<le> key" "below key (hole_hi None c)"
    "tree_ok (hole_lo [] c) (hole_hi None c) (Leaf lp kvs)"
proof -
  have W: "well h w [t] []" and pg: "pg t = P_ROOT" and ok: "tree_ok [] None t"
    using S by (simp_all add: store_ok_def)
  have pb: "page_bytes w p = Ok (page_at w p)" if "p \<in> set (pgs t)" for p
    using page_len [OF W, of p] that by simp
  have "[] \<le> key" by simp
  from descend_from_tree [OF wellD(3) [OF W] ok this, of "[]"] pb
  obtain c lp kvs where c: "plug (Leaf lp kvs) c = t"
      "descend h w key = Some (Ok \<lparr>sp_path = rev (slots c), sp_leaf_pgno = lp\<rparr>)"
      "hole_lo [] c \<le> key" "below key (hole_hi None c)"
    unfolding descend_def pg [symmetric] by auto
  moreover have "well h w [Leaf lp kvs] c" using W c(1) well_plug by metis
  moreover have "tree_ok (hole_lo [] c) (hole_hi None c) (Leaf lp kvs)"
    using tree_ok_hole(1) [of "[]" None "Leaf lp kvs" c] ok c(1) by simp
  ultimately show ?thesis using that by blast
qed

end
