(* ===== verification/Leaf_Update.thy ===== *)
theory Leaf_Update
  imports Well_Formed
begin

text \<open>
  Changes of one leaf in place, and what they mean for the contents of the file: the entries
  in order, as a finite map.
\<close>

definition contents :: "btree \<Rightarrow> bytes \<rightharpoonup> bytes" where
  "contents t = map_of (flat t)"

lemma distinct_keys: "ascending xs \<Longrightarrow> distinct (map fst xs)"
  by (induction xs) auto

lemma store_distinct: "store_ok h w t \<Longrightarrow> distinct (map fst (flat t))"
  by (metis distinct_keys flat_bounds(1) store_ok_def)

text \<open>Where a key is located in a leaf is where it is in the file.\<close>

lemma located_In: "located kvs key True i \<Longrightarrow> i < length kvs \<and> fst (kvs ! i) = key"
  by (simp add: located_def)

lemma located_absent:
  assumes "located kvs key False i"
  shows "i \<le> length kvs" "key \<notin> fst ` set kvs"
proof -
  show "i \<le> length kvs" using assms by (simp add: located_def)
  have "fst (kvs ! j) < key \<or> key < fst (kvs ! j)" if "j < length kvs" for j
    using assms that by (cases "j < i") (auto simp: located_def not_less)
  then have "fst (kvs ! j) \<noteq> key" if "j < length kvs" for j using that by fastforce
  then show "key \<notin> fst ` set kvs" by (metis imageE in_set_conv_nth)
qed

lemma ascending_ins:
  assumes "ascending kvs" "located kvs key False i"
  shows "ascending (ins_at i (key, v) kvs)"
proof -
  have lt: "fst x < key" if "x \<in> set (take i kvs)" for x
    using that assms(2) by (auto simp: located_def in_set_conv_nth)
  have gt: "key < fst x" if "x \<in> set (drop i kvs)" for x
    using that assms(2) by (auto simp: located_def in_set_conv_nth)
  have "ascending (take i kvs @ drop i kvs)" using assms(1) by simp
  then show ?thesis using lt gt unfolding ins_at_def
    by (simp del: append_take_drop_id)
qed

lemma ascending_rem:
  assumes "ascending kvs" shows "ascending (rem_at i kvs)"
proof (cases "i < length kvs")
  case True
  then have "ascending (take i kvs @ kvs ! i # drop (Suc i) kvs)"
    using assms by (simp only: id_take_nth_drop [symmetric])
  then show ?thesis by (simp add: rem_at_def)
qed (use assms in \<open>simp add: rem_at_def\<close>)

lemma tree_ok_ins:
  assumes ok: "tree_ok lo hi (Leaf p kvs)" and "located kvs key False i"
    and key: "lo \<le> key" "below key hi"
  shows "tree_ok lo hi (Leaf p (ins_at i (key, v) kvs))"
  using assms ascending_ins by auto

lemma tree_ok_rem:
  assumes "tree_ok lo hi (Leaf p kvs)"
  shows "tree_ok lo hi (Leaf p (rem_at i kvs))"
  using assms ascending_rem by (auto simp: rem_at_def dest: in_set_takeD in_set_dropD)

text \<open>
  A key in the range of a hole occurs nowhere else, so a change of the leaf in the hole
  changes the map at that key only.
\<close>

lemma outside_hole:
  assumes "tree_ok lo hi (plug t c)" "below lo hi" "hole_lo lo c \<le> key" "below key (hole_hi hi c)"
  shows "key \<notin> fst ` set (before c)" "key \<notin> fst ` set (after c)"
proof -
  have "tree_ok (hole_lo lo c) (hole_hi hi c) (Leaf 0 [(key, [])])" using assms(3,4) by simp
  from flat_bounds(1) [OF tree_ok_replace [OF assms(1,2) this]]
  have "ascending (before c @ [(key, [])] @ after c)" by (simp add: flat_plug)
  then show "key \<notin> fst ` set (before c)" "key \<notin> fst ` set (after c)" by fastforce+
qed

lemma map_of_ins:
  assumes "i \<le> length ys" "key \<notin> fst ` set xs" "key \<notin> fst ` set (take i ys)"
  shows "map_of (xs @ ins_at i (key, v) ys @ zs) = (map_of (xs @ ys @ zs))(key \<mapsto> v)"
proof
  fix x
  have n: "map_of xs key = None" "map_of (take i ys) key = None"
    using assms(2,3) by (simp_all add: map_of_eq_None_iff)
  have "map_of ys = map_of (take i ys @ drop i ys)" by simp
  then have "map_of ys x = (case map_of (take i ys) x of Some b \<Rightarrow> Some b | None \<Rightarrow> map_of (drop i ys) x)"
    by (metis map_add_def map_of_append)
  then show "map_of (xs @ ins_at i (key, v) ys @ zs) x = ((map_of (xs @ ys @ zs))(key \<mapsto> v)) x"
    using n by (auto simp: ins_at_def map_add_def split: option.split)
qed

lemma contents_ins:
  assumes S: "tree_ok [] None (plug (Leaf p kvs) c)"
    and key: "hole_lo [] c \<le> key" "below key (hole_hi None c)" and i: "located kvs key False i"
    and f: "flat t' = before c @ ins_at i (key, v) kvs @ after c"
  shows "contents t' = (contents (plug (Leaf p kvs) c))(key \<mapsto> v)"
    "contents (plug (Leaf p kvs) c) key = None"
proof -
  note o = outside_hole [OF S _ key, simplified] and a = located_absent [OF i]
  have "key \<notin> fst ` set (take i kvs)" using a(2) by (auto dest: in_set_takeD)
  from map_of_ins [OF a(1) o(1) this, of v "after c"]
  show "contents t' = (contents (plug (Leaf p kvs) c))(key \<mapsto> v)"
    by (simp add: contents_def f flat_plug)
  show "contents (plug (Leaf p kvs) c) key = None"
    using o a(2) by (auto simp: contents_def flat_plug map_of_eq_None_iff)
qed

lemma contents_found:
  assumes S: "tree_ok [] None (plug (Leaf p kvs) c)" and i: "located kvs key True i"
  shows "contents (plug (Leaf p kvs) c) key = Some (snd (kvs ! i))"
proof -
  let ?l = "before c @ kvs @ after c"
  have "distinct (map fst ?l)"
    using distinct_keys [OF conjunct1 [OF flat_bounds(1) [OF S]]] by (simp add: flat_plug)
  moreover have "(key, snd (kvs ! i)) \<in> set ?l"
    using located_In [OF i] nth_mem [of i kvs] by (cases "kvs ! i") auto
  ultimately have "map_of ?l key = Some (snd (kvs ! i))" by (rule map_of_is_SomeI)
  then show ?thesis unfolding contents_def flat_plug flat.simps .
qed

lemma map_of_rem:
  assumes d: "distinct (map fst (xs @ ys @ zs))" and i: "i < length ys"
  shows "map_of (xs @ rem_at i ys @ zs) = (map_of (xs @ ys @ zs))(fst (ys ! i) := None)"
proof -
  have e: "ys = take i ys @ ys ! i # drop (Suc i) ys" using i by (simp add: id_take_nth_drop)
  define a b k where "a = take i ys" and "b = drop (Suc i) ys" and "k = ys ! i"
  have y: "ys = a @ k # b" using e by (simp add: a_def b_def k_def)
  have n: "fst k \<notin> fst ` set xs" "fst k \<notin> fst ` set a" "fst k \<notin> fst ` set b" "fst k \<notin> fst ` set zs"
    using d unfolding y by auto
  then have n: "map_of xs (fst k) = None" "map_of a (fst k) = None" "map_of b (fst k) = None"
    "map_of zs (fst k) = None"
    by (simp_all add: map_of_eq_None_iff)
  have "map_of (xs @ a @ b @ zs) = (map_of (xs @ (a @ k # b) @ zs))(fst k := None)"
  proof
    fix x
    show "map_of (xs @ a @ b @ zs) x = ((map_of (xs @ (a @ k # b) @ zs))(fst k := None)) x"
      using n by (cases "x = fst k") (simp_all add: map_add_def cong: option.case_cong)
  qed
  then show ?thesis unfolding rem_at_def a_def [symmetric] b_def [symmetric] k_def [symmetric]
    by (simp only: y append_assoc)
qed

lemma contents_rem:
  assumes S: "tree_ok [] None (plug (Leaf p kvs) c)" and i: "located kvs key True i"
  shows "contents (plug (Leaf p (rem_at i kvs)) c) = (contents (plug (Leaf p kvs) c))(key := None)"
proof -
  have "distinct (map fst (before c @ kvs @ after c))"
    using distinct_keys [OF conjunct1 [OF flat_bounds(1) [OF S]]] by (simp add: flat_plug)
  from map_of_rem [OF this, of i] located_In [OF i] show ?thesis
    by (simp add: contents_def flat_plug)
qed

section \<open>Replacing the bytes of a leaf\<close>

lemma well_set_leaf:
  assumes W: "well h w [Leaf p kvs] c" and b: "leaf_page h b kvs'" "ident b = ident (page_at w p)"
      "length b = w_psize w"
    and small: "\<forall>kv \<in> set kvs'. leaf_bytes kv + 2 \<le> half_page w"
  shows "well h (set_page w p b) [Leaf p kvs'] c" "unat p < page_count w"
proof -
  note D = wellD [OF W]
  show p: "unat p < page_count w" using D(8) [of p] by (simp add: in_range_def)
  note s = set_page_facts [OF D(1) p b(3)]
  have nx: "nexts h (set_page w p b) = nexts h w"
    using ident_hd(3) [OF b(2), of h] by (auto simp: nexts_def s(3))
  show "well h (set_page w p b) [Leaf p kvs'] c"
  proof (rule well_step [OF W s(1,5)])
    show "rep h (page_at (set_page w p b)) t" if "t \<in> set [Leaf p kvs']" for t
      using that b(1) by (simp add: s(3))
    show "alike (page_at w q) (page_at (set_page w p b) q)" if "q \<in> set (cpgs c)" for q
      using that D(7) by (auto simp: s(3))
    show "in_range h (set_page w p b) q" if "q \<in> set (all_pgs [Leaf p kvs'])" for q
      using that D(8) [of p] by (simp add: in_range_def nx s(2))
    show "links (nexts h (set_page w p b)) (leaves_before c @ all_leaves [Leaf p kvs'] @ leaves_after c)"
      using D(9) by (simp add: nx)
  qed (use D(7) small s(2) in simp_all)
qed

lemma pg_plug: "pg t = pg t' \<Longrightarrow> pg (plug t c) = pg (plug t' c)"
proof (induction t c arbitrary: t' rule: plug.induct)
  case (2 t p ls k rs c)
  show ?case unfolding plug.simps by (rule 2(1)) simp
qed simp

lemma store_ok_set_leaf:
  assumes S: "store_ok h w (plug (Leaf p kvs) c)" and W: "well h w [Leaf p kvs] c"
    and b: "leaf_page h b kvs'" "ident b = ident (page_at w p)" "length b = w_psize w"
    and small: "\<forall>kv \<in> set kvs'. leaf_bytes kv + 2 \<le> half_page w"
    and ok: "tree_ok (hole_lo [] c) (hole_hi None c) (Leaf p kvs')"
  shows "store_ok h (set_page w p b) (plug (Leaf p kvs') c)"
proof -
  have "pg (plug (Leaf p kvs') c) = pg (plug (Leaf p kvs) c)" by (rule pg_plug) simp
  with S show ?thesis
    using well_set_leaf(1) [OF W b small] tree_ok_replace [of "[]" None "Leaf p kvs" c] ok
    by (simp add: store_ok_def well_plug)
qed

end
