(* ===== verification/Pending.thy ===== *)
theory Pending
  imports Leaf_Update
begin

text \<open>
  A split in progress: a page has become two, and the separator between them is not yet in
  the parent. \<open>pending\<close> is the state in which \<open>propagate_separator\<close> finds the file at every
  level. The lemmas here say when two new pages and a separator form such a state.
\<close>

definition sep_ok ::
  "nat \<Rightarrow> bytes \<Rightarrow> bytes option \<Rightarrow> separator \<Rightarrow> btree \<Rightarrow> btree \<Rightarrow> bool" where
  "sep_ok b lo hi sep t1 t2 \<longleftrightarrow> sep_child sep = pg t2 \<and>
     (\<forall>n \<in> sep_lens sep. n \<le> length (sep_key sep) \<and>
        tree_ok lo (Some (take n (sep_key sep))) t1 \<and> tree_ok (take n (sep_key sep)) hi t2 \<and>
        lo < take n (sep_key sep) \<and> below (take n (sep_key sep)) hi \<and>
        key_bytes (take n (sep_key sep)) + 2 \<le> b)"

definition pending :: "endian \<Rightarrow> writer \<Rightarrow> btree \<Rightarrow> separator \<Rightarrow> btree \<Rightarrow> frame list \<Rightarrow> bool" where
  "pending h w t1 sep t2 c \<longleftrightarrow> well h w [t1, t2] c \<and>
     tree_ok [] None (plug t1 c) \<and> pg (plug t1 c) = P_ROOT \<and>
     sep_ok (half_page w) (hole_lo [] c) (hole_hi None c) sep t1 t2"

section \<open>Separators\<close>

lemma ascending_split:
  "ascending xs \<Longrightarrow> ascending (take m xs) \<and> ascending (drop m xs)"
  by (metis append_take_drop_id ascending_simps(3))

lemma leaf_sep_ok:
  assumes ok: "tree_ok lo hi (Leaf p xs)" and m: "1 \<le> m" "m < length xs"
    and small: "\<forall>kv \<in> set xs. leaf_bytes kv + 2 \<le> b"
  shows "sep_ok b lo hi (SepLeaf (fst (xs ! m)) r (fst (xs ! (m - 1)))) (Leaf p (take m xs)) (Leaf r (drop m xs))"
proof -
  let ?a = "fst (xs ! (m - 1))" and ?k = "fst (xs ! m)"
  have asc: "ascending xs" and bnd: "\<And>kv. kv \<in> set xs \<Longrightarrow> lo \<le> fst kv \<and> below (fst kv) hi"
    using ok by auto
  have lt: "?a < ?k" using ascendingD [OF asc, of "m - 1" m] m by simp
  have lo: "lo \<le> ?a" and hi: "below ?k hi" using bnd nth_mem m by simp_all
  have left: "fst kv \<le> ?a" if "kv \<in> set (take m xs)" for kv
  proof -
    from that obtain j where j: "j < m" "kv = xs ! j" using m by (auto simp: in_set_conv_nth)
    then consider "j = m - 1" | "j < m - 1" by linarith
    then show ?thesis
      by cases (use j m ascendingD [OF asc, of j "m - 1"] in \<open>auto intro: less_imp_le\<close>)
  qed
  have right: "?k \<le> fst kv" if "kv \<in> set (drop m xs)" for kv
  proof -
    from that obtain j where j: "m + j < length xs" "kv = xs ! (m + j)"
      using m by (auto simp: in_set_conv_nth less_diff_conv add.commute)
    then show ?thesis
      by (cases "j = 0") (use m ascendingD [OF asc, of m "m + j"] in \<open>auto intro: less_imp_le\<close>)
  qed
  have one: "n \<le> length ?k \<and> tree_ok lo (Some s) (Leaf p (take m xs)) \<and> tree_ok s hi (Leaf r (drop m xs)) \<and>
      lo < s \<and> below s hi \<and> key_bytes s + 2 \<le> b"
    if n: "n \<le> length ?k" "?a < s" and s: "s = take n ?k" for n s
  proof -
    have sk: "s \<le> ?k" unfolding s by (rule take_le)
    have "tree_ok lo (Some s) (Leaf p (take m xs))"
      using ascending_split [OF asc] left bnd n(2) by (auto dest: in_set_takeD intro: order.strict_trans1)
    moreover have "tree_ok s hi (Leaf r (drop m xs))"
      using ascending_split [OF asc] right bnd sk by (auto dest: in_set_dropD intro: order.trans)
    moreover have "lo < s" using lo n(2) by (rule order.strict_trans1)
    moreover have "below s hi" using sk hi by (rule below_le)
    moreover have "key_bytes s + 2 \<le> b"
      using key_bytes_mono [of s ?k] key_bytes_leaf [of "xs ! m"] small nth_mem [OF m(2)] s
      by (fastforce intro: order.trans)
    ultimately show ?thesis using n(1) by blast
  qed
  note d = bt_defpfx_separates [OF lt]
  show ?thesis
    unfolding sep_ok_def sep_lens_def separator.case separator.sel
    using one [of "length ?k" ?k] one [of "bt_defpfx ?a ?k" "take (bt_defpfx ?a ?k) ?k"] d lt by auto
qed

lemma smalls_take_drop: "smalls b kts \<Longrightarrow> smalls b (take m kts) \<and> smalls b (drop m kts)"
  by (metis append_take_drop_id list_appends(4))

lemma smalls_key: "smalls b kts \<Longrightarrow> kt \<in> set kts \<Longrightarrow> key_bytes (fst kt) + 2 \<le> b"
  by (induction kts) auto

lemma node_sep_ok:
  assumes ok: "tree_ok lo hi (Node p kts)" and m: "1 \<le> m" "m < length kts"
    and small: "smalls b kts" and n: "n \<le> length k" "take n k = fst (kts ! m)"
  shows "sep_ok b lo hi (SepInternal k r n) (Node p (take m kts)) (Node r (drop m kts))"
  using tree_ok_split_node [OF ok m] smalls_key [OF small nth_mem [OF m(2)]] n
  by (simp add: sep_ok_def sep_lens_def del: tree_ok.simps)

section \<open>The arena after a split\<close>

text \<open>
  The page being split is replaced, the new page is appended, and the right sibling, if
  there is one, gets its left link changed.
\<close>

definition sibling_link :: "endian \<Rightarrow> writer \<Rightarrow> u32 \<Rightarrow> u32 \<Rightarrow> writer outcome" where
  "sibling_link h w q v =
     (if q \<noteq> P_INVALID then page_update w q (\<lambda>p. pb_set_prev_pg h p v) else Ok w)"

lemma sibling_link_ok:
  assumes ok: "arena_ok w" and q: "unat q < page_count w"
  obtains w' where "sibling_link h w q v = Ok w'" "arena_ok w'" "w_psize w' = w_psize w"
    "page_count w' = page_count w" "fixed_part w' = fixed_part w"
    "\<And>p. alike (page_at w p) (page_at w' p)"
proof (cases "q = P_INVALID")
  case True
  then show ?thesis using that [of w] ok by (simp add: sibling_link_def)
next
  case False
  have len: "20 \<le> length (page_at w q)" "length (page_at w q) = w_psize w"
    using page_bytes_eq(2) [OF ok q] arena_bounds [OF ok] by simp_all
  let ?b = "wr32 h (page_at w q) 4 v"
  have b: "pb_set_prev_pg h (page_at w q) v = Ok ?b" "length ?b = w_psize w"
    using len by (simp_all add: pb_set_eqs)
  note s = set_page_facts [OF ok q b(2)]
  have "sibling_link h w q v = Ok (set_page w q ?b)"
    using page_update_eq [where f = "\<lambda>p. pb_set_prev_pg h p v", OF ok q b(1)] False by (simp add: sibling_link_def)
  moreover have "alike (page_at w p) (page_at (set_page w q ?b) p)" for p
    using alike_set_prev [OF len(1)] by (simp add: s(3))
  ultimately show ?thesis using that s by blast
qed

text \<open>A page is new when its number is the current number of pages.\<close>

lemma fresh_number:
  assumes W: "well h w ts c" and n: "page_count w < 2 ^ 32"
  defines "r \<equiv> (of_nat (page_count w) :: u32)"
  shows "unat r = page_count w" "r \<notin> set (all_pgs ts @ cpgs c)" "1 \<le> unat r"
proof -
  show u: "unat r = page_count w" using n by (simp add: r_def)
  show "r \<notin> set (all_pgs ts @ cpgs c)"
    using wellD(8) [OF W, of r] u by (auto simp: in_range_def)
  obtain p where "p \<in> set (all_pgs ts)"
    using wellD(2) [OF W] pg_in_pgs by (cases ts) auto
  then show "1 \<le> unat r" using wellD(8) [OF W, of p] u by (auto simp: in_range_def)
qed

lemma distinct_leaf_pgs:
  "distinct (pgs t) \<Longrightarrow> distinct (leaf_pgs t)" "distinct (pgs_l kts) \<Longrightarrow> distinct (leaf_pgs_l kts)"
proof (induction t and kts rule: leaf_pgs_leaf_pgs_l.induct)
  case (4 kt kts)
  then show ?case using leaf_pgs_subset(1) [of "snd kt"] leaf_pgs_subset(2) [of kts] by auto
qed auto

lemma chain_distinct:
  assumes "well h w [t] c"
  shows "distinct (leaves_before c @ leaf_pgs t @ leaves_after c)"
    "set (leaves_before c @ leaf_pgs t @ leaves_after c) \<subseteq> set (all_pgs [t] @ cpgs c)"
proof -
  have "distinct (pgs (plug t c))" using wellD(7) [OF assms] by (auto simp: distinct_pgs_plug)
  from distinct_leaf_pgs(1) [OF this]
  show "distinct (leaves_before c @ leaf_pgs t @ leaves_after c)" by (simp add: leaf_pgs_plug)
  show "set (leaves_before c @ leaf_pgs t @ leaves_after c) \<subseteq> set (all_pgs [t] @ cpgs c)"
    using leaf_pgs_subset(1) [of "plug t c"] by (simp add: leaf_pgs_plug set_pgs_plug)
qed

section \<open>A split leaf\<close>

lemma leaf_split_pending:
  fixes r m xs p c l rb
  assumes W: "well h w [Leaf p kvs] c" and T: "tree_ok [] None (plug (Leaf p kvs) c)"
      "pg (plug (Leaf p kvs) c) = P_ROOT"
    and n: "page_count w < 2 ^ 32" and r: "r = of_nat (page_count w)"
    and w': "arena_ok w'" "w_psize w' = w_psize w" "page_count w' = Suc (page_count w)"
    and al: "\<And>q. alike (((page_at w)(p := l, r := rb)) q) (page_at w' q)"
    and l: "leaf_page h l (take m xs)" "hd_next h l = r"
    and rb: "leaf_page h rb (drop m xs)" "hd_next h rb = hd_next h (page_at w p)"
    and m: "1 \<le> m" "m < length xs"
    and xs: "tree_ok (hole_lo [] c) (hole_hi None c) (Leaf p xs)"
      "\<forall>kv \<in> set xs. leaf_bytes kv + 2 \<le> half_page w"
  shows "pending h w' (Leaf p (take m xs)) (SepLeaf (fst (xs ! m)) r (fst (xs ! (m - 1))))
    (Leaf r (drop m xs)) c"
proof -
  note D = wellD [OF W]
  note f = fresh_number [OF W n, folded r]
  have pr: "p \<noteq> r" using f(2) by auto
  have sm: "\<forall>kv \<in> set (take m xs). leaf_bytes kv + 2 \<le> half_page w"
    "\<forall>kv \<in> set (drop m xs). leaf_bytes kv + 2 \<le> half_page w"
    using xs(2) by (meson in_set_takeD in_set_dropD)+
  have half: "half_page w' = half_page w" using w'(2) by (simp add: half_page_def)
  have nx: "nexts h w' q = (if q = p then r else if q = r then nexts h w p else nexts h w q)" for q
    using alike_hd(1) [OF al [of q]] l(2) rb(2) pr by (simp add: nexts_def)
  have "well h w' [Leaf p (take m xs), Leaf r (drop m xs)] c"
  proof (rule well_step [OF W w'(1,2)])
    fix t assume "t \<in> set [Leaf p (take m xs), Leaf r (drop m xs)]"
    then show "rep h (page_at w') t"
      using alike_pages(1) [OF al [of p]] alike_pages(1) [OF al [of r]] l(1) rb(1) pr by auto
    show "small (half_page w) t"
      using \<open>t \<in> set _\<close> sm by auto
  next
    show "alike (page_at w q) (page_at w' q)" if "q \<in> set (cpgs c)" for q
      using al [of q] that D(7) f(2) by (auto split: if_splits)
    show "in_range h w' q" if "q \<in> set (all_pgs [Leaf p (take m xs), Leaf r (drop m xs)])" for q
      using that D(8) [of p] f(1,3) w'(3) by (auto simp: in_range_def nx)
    show "links (nexts h w') (leaves_before c @ all_leaves [Leaf p (take m xs), Leaf r (drop m xs)] @ leaves_after c)"
    proof -
      have d: "distinct (leaves_before c @ p # leaves_after c)"
        and s: "set (leaves_before c @ p # leaves_after c) \<subseteq> insert p (set (cpgs c))"
        using chain_distinct [OF W] by simp_all
      have rn: "r \<notin> set (leaves_before c @ p # leaves_after c)" using s f(2) pr by auto
      have "links (nexts h w') (leaves_before c @ p # r # leaves_after c)"
      proof (rule links_insert [of "nexts h w", OF _ d rn])
        show "nexts h w' q = nexts h w q" if "q \<in> set (leaves_before c @ leaves_after c)" for q
        proof -
          have "q \<noteq> p" "q \<noteq> r" using that d rn by auto
          then show ?thesis by (simp add: nx)
        qed
      qed (use D(9) nx pr in simp_all)
      then show ?thesis by simp
    qed
  qed (use D(7) f(2) pr w'(3) in auto)
  moreover have "tree_ok [] None (plug (Leaf p (take m xs)) c)"
  proof -
    have "tree_ok (hole_lo [] c) (hole_hi None c) (Leaf p (take m xs))"
      using xs(1) ascending_split [of xs m] by (auto dest: in_set_takeD)
    then show ?thesis using tree_ok_replace [OF T(1)] by simp
  qed
  moreover have "pg (plug (Leaf p (take m xs)) c) = P_ROOT"
    using T(2) pg_plug [of "Leaf p (take m xs)" "Leaf p kvs" c] by simp
  ultimately show ?thesis
    using leaf_sep_ok [OF xs(1) m xs(2), of r] by (simp add: pending_def half)
qed

end
