(* ===== verification/Shape.thy ===== *)
theory Shape
  imports Root_Page
begin

text \<open>
  The shape of the tree: all leaves at the same depth, and at least \<open>k\<close> children in every
  internal node that is not on the right spine, where a split for ascending insertions may
  leave a single child. Such a split is chosen by the link of the page to its right
  neighbour, so the nodes off the spine have one. With \<open>k = 1\<close> this is balance; with
  \<open>k = 2\<close>, which holds while no key takes more than a quarter of a page, the height is
  logarithmic in the number of leaves.
\<close>

fun bushy :: "(u32 \<Rightarrow> u32) \<Rightarrow> nat \<Rightarrow> nat \<Rightarrow> btree \<Rightarrow> bool"
and bushies :: "(u32 \<Rightarrow> u32) \<Rightarrow> nat \<Rightarrow> nat \<Rightarrow> (bytes \<times> btree) list \<Rightarrow> bool" where
  "bushy nx k n (Leaf p kvs) = (n = 0)"
| "bushy nx k n (Node p kts) = (n \<noteq> 0 \<and> nx p \<noteq> P_INVALID \<and> k \<le> length kts \<and> bushies nx k (n - 1) kts)"
| "bushies nx k n [] = True"
| "bushies nx k n (kt # kts) = (bushy nx k n (snd kt) \<and> bushies nx k n kts)"

fun right_spine :: "(u32 \<Rightarrow> u32) \<Rightarrow> nat \<Rightarrow> nat \<Rightarrow> btree \<Rightarrow> bool"
and right_spines :: "(u32 \<Rightarrow> u32) \<Rightarrow> nat \<Rightarrow> nat \<Rightarrow> (bytes \<times> btree) list \<Rightarrow> bool" where
  "right_spine nx k n (Leaf p kvs) = (n = 0)"
| "right_spine nx k n (Node p kts) = (n \<noteq> 0 \<and> right_spines nx k (n - 1) kts)"
| "right_spines nx k n [] = False"
| "right_spines nx k n (kt # kts) =
     (if kts = [] then right_spine nx k n (snd kt) else bushy nx k n (snd kt) \<and> right_spines nx k n kts)"

lemma bushies_append [simp]: "bushies nx k n (xs @ ys) \<longleftrightarrow> bushies nx k n xs \<and> bushies nx k n ys"
  by (induction xs) auto

lemma right_spines_append: "ys \<noteq> [] \<Longrightarrow> right_spines nx k n (xs @ ys) \<longleftrightarrow> bushies nx k n xs \<and> right_spines nx k n ys"
  by (induction xs) auto

text \<open>The keys of a tree, in its leaves and as separators.\<close>

fun tkeys :: "btree \<Rightarrow> bytes list" and tkeys_l :: "(bytes \<times> btree) list \<Rightarrow> bytes list" where
  "tkeys (Leaf p kvs) = map fst kvs"
| "tkeys (Node p kts) = tkeys_l kts"
| "tkeys_l [] = []"
| "tkeys_l (kt # kts) = fst kt # tkeys (snd kt) @ tkeys_l kts"

lemma tkeys_append [simp]: "tkeys_l (xs @ ys) = tkeys_l xs @ tkeys_l ys"
  by (induction xs) auto

lemma tkeys_heads: "kt \<in> set kts \<Longrightarrow> fst kt \<in> set (tkeys_l kts)"
  by (induction kts) auto

definition short :: "nat \<Rightarrow> bytes \<Rightarrow> bool" where
  "short q x \<longleftrightarrow> key_bytes x + 2 \<le> q"

lemma short_take: "short q x \<Longrightarrow> short q (take n x)"
  using align_entry_mono [of "9 + length (take n x)" "9 + length x"] by (simp add: short_def key_bytes_def)

text \<open>The whole tree.\<close>

definition root_fan :: "nat \<Rightarrow> btree \<Rightarrow> bool" where
  "root_fan k t = (case t of Leaf p kvs \<Rightarrow> True | Node p kts \<Rightarrow> k \<le> length kts)"

definition tree_shape :: "(u32 \<Rightarrow> u32) \<Rightarrow> nat \<Rightarrow> nat \<Rightarrow> btree \<Rightarrow> bool" where
  "tree_shape nx k q t \<longleftrightarrow> (\<exists>n. right_spine nx k n t) \<and> root_fan k t \<and> (\<forall>x \<in> set (tkeys t). short q x)"

section \<open>Contexts\<close>

fun right :: "frame list \<Rightarrow> bool" where
  "right [] = True"
| "right ((p, ls, key, rs) # c) = (rs = [] \<and> right c)"

definition part :: "bool \<Rightarrow> (u32 \<Rightarrow> u32) \<Rightarrow> nat \<Rightarrow> nat \<Rightarrow> btree \<Rightarrow> bool" where
  "part b nx k n t = (if b then right_spine nx k n t else bushy nx k n t)"

fun cshape :: "(u32 \<Rightarrow> u32) \<Rightarrow> nat \<Rightarrow> nat \<Rightarrow> frame list \<Rightarrow> bool" where
  "cshape nx k n [] = True"
| "cshape nx k n ((p, ls, key, rs) # c) =
     (bushies nx k n ls \<and> (rs \<noteq> [] \<longrightarrow> (if right c then right_spines nx k n rs else bushies nx k n rs)) \<and>
      (\<not> right c \<longrightarrow> nx p \<noteq> P_INVALID) \<and> (\<not> right c \<or> c = [] \<longrightarrow> k \<le> length ls + 1 + length rs) \<and>
      cshape nx k (Suc n) c)"

fun ckeys :: "frame list \<Rightarrow> bytes list" where
  "ckeys [] = []"
| "ckeys ((p, ls, key, rs) # c) = tkeys_l ls @ key # tkeys_l rs @ ckeys c"

lemma set_tkeys_plug: "set (tkeys (plug t c)) = set (tkeys t) \<union> set (ckeys c)"
  by (induction t c rule: plug.induct) auto

lemma shape_plug:
  "right_spine nx k (n + length c) (plug t c) \<and> root_fan k (plug t c) \<longleftrightarrow>
   part (right c) nx k n t \<and> cshape nx k n c \<and> (c = [] \<longrightarrow> root_fan k t)"
proof (induction t c arbitrary: n rule: plug.induct)
  case (1 t)
  then show ?case by (simp add: part_def)
next
  case (2 t p ls key rs c)
  have "right_spine nx k (n + length ((p, ls, key, rs) # c)) (plug t ((p, ls, key, rs) # c)) \<and>
      root_fan k (plug t ((p, ls, key, rs) # c)) \<longleftrightarrow>
    part (right c) nx k (Suc n) (Node p (ls @ (key, t) # rs)) \<and> cshape nx k (Suc n) c \<and>
      (c = [] \<longrightarrow> root_fan k (Node p (ls @ (key, t) # rs)))"
    using 2 [of "Suc n"] by simp
  also have "\<dots> \<longleftrightarrow> part (right ((p, ls, key, rs) # c)) nx k n t \<and> cshape nx k n ((p, ls, key, rs) # c)"
    by (cases "rs = []"; cases "right c") (auto simp: part_def root_fan_def right_spines_append)
  finally show ?case by simp
qed

text \<open>The links that matter are those of the internal pages.\<close>

lemma bushy_cong:
  "(\<And>p. p \<in> set (pgs t) \<Longrightarrow> nx' p = nx p) \<Longrightarrow> bushy nx' k n t = bushy nx k n t"
  "(\<And>p. p \<in> set (pgs_l kts) \<Longrightarrow> nx' p = nx p) \<Longrightarrow> bushies nx' k n kts = bushies nx k n kts"
  by (induction nx k n t and nx k n kts rule: bushy_bushies.induct) auto

lemma right_spine_cong:
  "(\<And>p. p \<in> set (pgs t) \<Longrightarrow> nx' p = nx p) \<Longrightarrow> right_spine nx' k n t = right_spine nx k n t"
  "(\<And>p. p \<in> set (pgs_l kts) \<Longrightarrow> nx' p = nx p) \<Longrightarrow> right_spines nx' k n kts = right_spines nx k n kts"
proof (induction nx k n t and nx k n kts rule: right_spine_right_spines.induct)
  case (4 nx k n kt kts)
  then show ?case using bushy_cong(1) [of "snd kt" nx' nx k n] by auto
qed auto

lemma cshape_cong: "(\<And>p. p \<in> set (cpgs c) \<Longrightarrow> nx' p = nx p) \<Longrightarrow> cshape nx' k n c = cshape nx k n c"
proof (induction nx k n c rule: cshape.induct)
  case (2 nx k n p ls key rs c)
  then show ?case
    using bushy_cong(2) [of ls nx' nx k n] bushy_cong(2) [of rs nx' nx k n] right_spine_cong(2) [of rs nx' nx k n]
    by auto
qed simp

lemma part_cong: "(\<And>p. p \<in> set (pgs t) \<Longrightarrow> nx' p = nx p) \<Longrightarrow> part b nx' k n t = part b nx k n t"
  using bushy_cong(1) [of t nx' nx k n] right_spine_cong(1) [of t nx' nx k n] by (simp add: part_def)

lemma plug_level: "right_spine nx k m (plug t c) \<Longrightarrow> \<exists>n. m = n + length c \<and> part (right c) nx k n t"
proof (induction t c rule: plug.induct)
  case (2 t p ls key rs c)
  then obtain n where n: "m = n + length c" "part (right c) nx k n (Node p (ls @ (key, t) # rs))" by auto
  then obtain j where j: "n = Suc j" by (cases n) (auto simp: part_def split: if_splits)
  show ?case using n unfolding j
    by (intro exI [of _ j]) (cases "rs = []"; cases "right c"; simp add: part_def right_spines_append)
qed (simp add: part_def)

lemma tree_shape_plug:
  "tree_shape nx k q (plug t c) \<longleftrightarrow>
   (\<exists>n. part (right c) nx k n t \<and> cshape nx k n c) \<and> (c = [] \<longrightarrow> root_fan k t) \<and>
   (\<forall>x \<in> set (tkeys t) \<union> set (ckeys c). short q x)"
proof -
  have "(\<exists>m. right_spine nx k m (plug t c)) \<and> root_fan k (plug t c) \<longleftrightarrow>
      (\<exists>n. right_spine nx k (n + length c) (plug t c)) \<and> root_fan k (plug t c)"
    using plug_level [of nx k _ t c] by metis
  also have "\<dots> \<longleftrightarrow> (\<exists>n. part (right c) nx k n t \<and> cshape nx k n c) \<and> (c = [] \<longrightarrow> root_fan k t)"
    using shape_plug [of nx k _ c t] by auto
  finally show ?thesis unfolding tree_shape_def set_tkeys_plug by blast
qed

section \<open>Leaves\<close>

lemma part_Leaf [simp]: "part b nx k n (Leaf p kvs) \<longleftrightarrow> n = 0"
  by (simp add: part_def)

lemma root_fan_Leaf [simp]: "root_fan k (Leaf p kvs)"
  by (simp add: root_fan_def)

lemma shape_replace_leaf:
  assumes S: "tree_shape nx k q (plug (Leaf p kvs) c)" and k: "\<And>kv. kv \<in> set kvs' \<Longrightarrow> short q (fst kv)"
    and nx: "\<And>x. x \<in> set (cpgs c) \<Longrightarrow> nx' x = nx x"
  shows "tree_shape nx' k q (plug (Leaf p kvs') c)"
  using S k cshape_cong [of c nx' nx, OF nx] by (auto simp: tree_shape_plug)

section \<open>Splits\<close>

text \<open>A tree with a pending separator.\<close>

definition pend_shape :: "(u32 \<Rightarrow> u32) \<Rightarrow> nat \<Rightarrow> nat \<Rightarrow> btree \<Rightarrow> separator \<Rightarrow> btree \<Rightarrow> frame list \<Rightarrow> bool" where
  "pend_shape nx k q u1 sep u2 c \<longleftrightarrow>
     (\<exists>n. bushy nx k n u1 \<and> part (right c) nx k n u2 \<and> cshape nx k n c) \<and>
     (\<forall>x \<in> set (tkeys u1) \<union> set (tkeys u2) \<union> set (ckeys c). short q x) \<and>
     (\<forall>nk \<in> sep_lens sep. short q (take nk (sep_key sep)))"

lemma shape_split_leaf:
  assumes S: "tree_shape nx k q (plug (Leaf p kvs) c)" and k: "\<And>kv. kv \<in> set xs \<Longrightarrow> short q (fst kv)"
    and nx: "\<And>x. x \<in> set (cpgs c) \<Longrightarrow> nx' x = nx x"
    and sep: "\<And>nk. nk \<in> sep_lens sep \<Longrightarrow> short q (take nk (sep_key sep))"
  shows "pend_shape nx' k q (Leaf p (take m xs)) sep (Leaf r (drop m xs)) c"
  using S k sep cshape_cong [of c nx' nx, OF nx]
  by (auto simp: tree_shape_plug pend_shape_def dest: in_set_takeD in_set_dropD)

text \<open>The parent takes the separator.\<close>

lemma pend_node:
  assumes S: "pend_shape nx k q u1 sep u2 ((p, ls, key, rs) # c)" and n: "nk \<in> sep_lens sep"
  defines "K \<equiv> ls @ (key, u1) # (take nk (sep_key sep), u2) # rs"
  obtains n where "if right c then right_spines nx k n K else bushies nx k n K" "cshape nx k (Suc n) c"
    "\<not> right c \<Longrightarrow> nx p \<noteq> P_INVALID \<and> k < length K" "c = [] \<Longrightarrow> k < length K"
    "\<And>x. x \<in> set (tkeys_l K) \<union> set (ckeys c) \<Longrightarrow> short q x"
proof -
  obtain n where n1: "bushy nx k n u1" "part (right ((p, ls, key, rs) # c)) nx k n u2"
      "cshape nx k n ((p, ls, key, rs) # c)"
    and s: "\<forall>x \<in> set (tkeys u1) \<union> set (tkeys u2) \<union> set (ckeys ((p, ls, key, rs) # c)). short q x"
      "short q (take nk (sep_key sep))"
    using S n unfolding pend_shape_def by blast
  show ?thesis
  proof (rule that)
    show "if right c then right_spines nx k n K else bushies nx k n K"
      using n1 by (cases "rs = []"; cases "right c") (auto simp: K_def part_def right_spines_append)
    show "short q x" if "x \<in> set (tkeys_l K) \<union> set (ckeys c)" for x
      using that s by (auto simp: K_def)
  qed (use n1 in \<open>simp_all add: K_def\<close>)
qed

lemma shape_insert_node:
  assumes S: "pend_shape nx k q u1 sep u2 ((p, ls, key, rs) # c)" and n: "nk \<in> sep_lens sep"
    and K: "K = ls @ (key, u1) # (take nk (sep_key sep), u2) # rs"
  shows "tree_shape nx k q (plug (Node p K) c)"
proof -
  obtain n where "if right c then right_spines nx k n K else bushies nx k n K" "cshape nx k (Suc n) c"
    "\<not> right c \<Longrightarrow> nx p \<noteq> P_INVALID \<and> k < length K" "c = [] \<Longrightarrow> k < length K"
    "\<And>x. x \<in> set (tkeys_l K) \<union> set (ckeys c) \<Longrightarrow> short q x"
    by (rule pend_node [OF S n, folded K], rule that)
  then show ?thesis unfolding tree_shape_plug
    by (intro conjI exI [of _ "Suc n"]) (auto simp: part_def root_fan_def)
qed

lemma bushies_take_drop: "bushies nx k n K \<Longrightarrow> bushies nx k n (take m K) \<and> bushies nx k n (drop m K)"
  by (metis append_take_drop_id bushies_append)

lemma right_spines_take_drop: "right_spines nx k n K \<Longrightarrow> m < length K \<Longrightarrow> bushies nx k n (take m K) \<and> right_spines nx k n (drop m K)"
  by (metis append_take_drop_id drop_eq_Nil linorder_not_less right_spines_append)

lemma tkeys_take_drop:
  "set (tkeys_l (take m K)) \<subseteq> set (tkeys_l K)" "set (tkeys_l (drop m K)) \<subseteq> set (tkeys_l K)"
  by (metis append_take_drop_id set_append sup_ge1 sup_ge2 tkeys_append)+

lemma pgs_take_drop:
  "set (pgs_l (take m K)) \<subseteq> set (pgs_l K)" "set (pgs_l (drop m K)) \<subseteq> set (pgs_l K)"
  by (metis append_take_drop_id set_append sup_ge1 sup_ge2 list_appends(2))+

lemma shape_split_node:
  assumes S: "pend_shape nx k q u1 sep u2 ((p, ls, key, rs) # c)" and n: "nk \<in> sep_lens sep"
    and K: "K = ls @ (key, u1) # (take nk (sep_key sep), u2) # rs"
    and nx: "\<And>x. x \<in> set (pgs_l K @ cpgs c) \<Longrightarrow> nx' x = nx x" "nx' p \<noteq> P_INVALID"
      "\<not> right c \<Longrightarrow> nx p \<noteq> P_INVALID \<Longrightarrow> nx' r \<noteq> P_INVALID \<and> k \<le> length K - m"
    and m: "k \<le> m" "m < length K"
    and key': "take nk' key' = fst (K ! m)"
  shows "pend_shape nx' k q (Node p (take m K)) (SepInternal key' r nk') (Node r (drop m K)) c"
proof -
  obtain n where sh: "if right c then right_spines nx k n K else bushies nx k n K" "cshape nx k (Suc n) c"
    "\<not> right c \<Longrightarrow> nx p \<noteq> P_INVALID \<and> k < length K"
    "\<And>x. x \<in> set (tkeys_l K) \<union> set (ckeys c) \<Longrightarrow> short q x"
    by (rule pend_node [OF S n, folded K], rule that)
  have bc: "bushies nx' k n xs = bushies nx k n xs" if "set (pgs_l xs) \<subseteq> set (pgs_l K)" for xs
    using bushy_cong(2) [of xs nx' nx k n] nx(1) that by auto
  have sc: "right_spines nx' k n xs = right_spines nx k n xs" if "set (pgs_l xs) \<subseteq> set (pgs_l K)" for xs
    using right_spine_cong(2) [of xs nx' nx k n] nx(1) that by auto
  have "bushies nx k n (take m K)" using sh(1) bushies_take_drop right_spines_take_drop m(2) by (auto split: if_splits)
  then have "bushy nx' k (Suc n) (Node p (take m K))"
    using nx(2) m bc [OF pgs_take_drop(1)] by simp
  moreover have "part (right c) nx' k (Suc n) (Node r (drop m K))"
    using sh(1,3) nx(3) bc [OF pgs_take_drop(2)] sc [OF pgs_take_drop(2)] bushies_take_drop [of nx k n K m]
      right_spines_take_drop [of nx k n K m] m(2) by (auto simp: part_def split: if_splits)
  moreover have "cshape nx' k (Suc n) c" using sh(2) cshape_cong [of c nx' nx] nx(1) by auto
  moreover have "short q x" if "x \<in> set (tkeys (Node p (take m K))) \<union> set (tkeys (Node r (drop m K))) \<union> set (ckeys c)" for x
    using that sh(4) [of x] tkeys_take_drop [of m K] by auto
  moreover have "fst (K ! m) \<in> set (tkeys_l K)" using tkeys_heads nth_mem [OF m(2)] by blast
  then have "short q (take nk (sep_key (SepInternal key' r nk')))" if "nk \<in> sep_lens (SepInternal key' r nk')" for nk
    using that key' sh(4) by (simp add: sep_lens_def)
  ultimately show ?thesis unfolding pend_shape_def by blast
qed

text \<open>A new root.\<close>

lemma short_Nil: "short q x \<Longrightarrow> short q []"
  using short_take [of q x 0] by simp

lemma shape_new_root:
  assumes b: "bushy nx k n t1" "right_spine nx k n t2" and s: "\<And>x. x \<in> set (tkeys t1) \<union> set (tkeys t2) \<Longrightarrow> short q x"
    and k: "k \<le> 2" "short q key"
  shows "tree_shape nx k q (Node p [([], t1), (key, t2)])"
  using b s k short_Nil [OF k(2)] unfolding tree_shape_def root_fan_def
  by (intro conjI exI [of _ "Suc n"]) auto

lemma shape_split_root_node:
  assumes S: "pend_shape nx k q u1 sep u2 [(p, ls, key, rs)]" and n: "nk \<in> sep_lens sep"
    and K: "K = ls @ (key, u1) # (take nk (sep_key sep), u2) # rs"
    and nx: "\<And>x. x \<in> set (pgs_l K) \<Longrightarrow> nx' x = nx x" "nx' lp \<noteq> P_INVALID"
    and m: "k \<le> m" "m < length K" "k \<le> 2"
  shows "tree_shape nx' k q (Node p [([], Node lp (take m K)), (fst (K ! m), Node rp (drop m K))])"
proof -
  obtain n where sh: "right_spines nx k n K" "\<And>x. x \<in> set (tkeys_l K) \<Longrightarrow> short q x"
    by (rule pend_node [OF S n, folded K]) auto
  have bc: "bushies nx' k n (take m K) = bushies nx k n (take m K)"
    using bushy_cong(2) [of "take m K" nx' nx k n] nx(1) pgs_take_drop [of m K] by auto
  have sc: "right_spines nx' k n (drop m K) = right_spines nx k n (drop m K)"
    using right_spine_cong(2) [of "drop m K" nx' nx k n] nx(1) pgs_take_drop [of m K] by auto
  have "short q (fst (K ! m))" using sh(2) tkeys_heads nth_mem [OF m(2)] by blast
  then show ?thesis
    using right_spines_take_drop [OF sh(1) m(2)] nx(2) m tkeys_take_drop [of m K] sh(2) bc sc
    by (intro shape_new_root [of nx' k "Suc n"]) auto
qed

lemma shape_split_root_leaf:
  assumes "\<And>kv. kv \<in> set xs \<Longrightarrow> short q (fst kv)" "k \<le> 2" "m < length xs"
  shows "tree_shape nx k q (Node p [([], Leaf lp (take m xs)), (fst (xs ! m), Leaf rp (drop m xs))])"
  using assms by (intro shape_new_root [of nx k 0]) (auto dest: in_set_takeD in_set_dropD)

section \<open>Balance and counts\<close>

fun balanced :: "nat \<Rightarrow> btree \<Rightarrow> bool" and balanced_l :: "nat \<Rightarrow> (bytes \<times> btree) list \<Rightarrow> bool" where
  "balanced n (Leaf p kvs) = (n = 0)"
| "balanced n (Node p kts) = (n \<noteq> 0 \<and> kts \<noteq> [] \<and> balanced_l (n - 1) kts)"
| "balanced_l n [] = True"
| "balanced_l n (kt # kts) = (balanced n (snd kt) \<and> balanced_l n kts)"

lemma bushy_balanced:
  "bushy nx k n t \<Longrightarrow> 1 \<le> k \<Longrightarrow> balanced n t" "bushies nx k n kts \<Longrightarrow> 1 \<le> k \<Longrightarrow> balanced_l n kts"
  by (induction nx k n t and nx k n kts rule: bushy_bushies.induct) auto

lemma right_spine_balanced:
  "right_spine nx k n t \<Longrightarrow> 1 \<le> k \<Longrightarrow> balanced n t" "right_spines nx k n kts \<Longrightarrow> 1 \<le> k \<Longrightarrow> balanced_l n kts \<and> kts \<noteq> []"
  by (induction nx k n t and nx k n kts rule: right_spine_right_spines.induct)
    (auto simp: bushy_balanced split: if_splits)

lemma balanced_ht: "balanced n t \<Longrightarrow> ht t = n" "balanced_l n kts \<Longrightarrow> kts \<noteq> [] \<Longrightarrow> hts kts = n"
proof (induction n t and n kts rule: balanced_balanced_l.induct)
  case (4 n kt kts)
  then show ?case by (cases "kts = []") auto
qed auto

lemma bushy_counts:
  "bushy nx 2 n t \<Longrightarrow> 2 ^ n \<le> length (leaf_pgs t) \<and> length (pgs t) + 1 \<le> 2 * length (leaf_pgs t)"
  "bushies nx 2 n kts \<Longrightarrow> length kts * 2 ^ n \<le> length (leaf_pgs_l kts) \<and>
     length (pgs_l kts) + length kts \<le> 2 * length (leaf_pgs_l kts)"
proof (induction t and kts arbitrary: n and n rule: leaf_pgs_leaf_pgs_l.induct)
  case (2 p kts)
  then obtain j where j: "n = Suc j" "2 \<le> length kts" "bushies nx 2 j kts" by (cases n) auto
  have "2 * 2 ^ j \<le> length kts * 2 ^ j" using j(2) by (rule mult_le_mono1)
  then have "2 * 2 ^ j \<le> length (leaf_pgs_l kts)" using "2.IH" [OF j(3)] by linarith
  then show ?case using "2.IH" [OF j(3)] j by simp
next
  case (4 kt kts)
  then have "2 ^ n \<le> length (leaf_pgs (snd kt))" "length (pgs (snd kt)) + 1 \<le> 2 * length (leaf_pgs (snd kt))"
    "length kts * 2 ^ n \<le> length (leaf_pgs_l kts)" "length (pgs_l kts) + length kts \<le> 2 * length (leaf_pgs_l kts)"
    by auto
  then show ?case by simp
qed auto

lemma right_spine_counts:
  "right_spine nx 2 n t \<Longrightarrow> 1 \<le> length (leaf_pgs t) \<and> length (pgs t) + 1 \<le> 2 * length (leaf_pgs t) + n"
  "right_spines nx 2 n kts \<Longrightarrow> (length kts - 1) * 2 ^ n + 1 \<le> length (leaf_pgs_l kts) \<and>
     length (pgs_l kts) + length kts \<le> 2 * length (leaf_pgs_l kts) + n"
proof (induction t and kts arbitrary: n and n rule: leaf_pgs_leaf_pgs_l.induct)
  case (2 p kts)
  then obtain j where j: "n = Suc j" "right_spines nx 2 j kts" by (cases n) auto
  then have "kts \<noteq> []" by auto
  then have "1 \<le> length kts" by (cases kts) auto
  then show ?case using "2.IH" [OF j(2)] j by auto
next
  case (4 kt kts)
  show ?case
  proof (cases "kts = []")
    case True
    then show ?thesis using "4.IH"(1) [of n] "4.prems" by simp
  next
    case False
    then have b: "bushy nx 2 n (snd kt)" "right_spines nx 2 n kts" using "4.prems" by simp_all
    have "length kts = Suc (length kts - 1)" using False by (cases kts) auto
    then have "length kts * 2 ^ n = 2 ^ n + (length kts - 1) * 2 ^ n" by (metis mult_Suc)
    then show ?thesis using bushy_counts(1) [OF b(1)] "4.IH"(2) [OF b(2)] by simp
  qed
qed auto

text \<open>The height is logarithmic in the number of leaves.\<close>

lemma tree_shape_height:
  assumes "tree_shape nx 2 q t"
  shows "2 ^ (ht t - 1) < length (leaf_pgs t) + (if ht t = 0 then 1 else 0)"
    "length (pgs t) < 2 * length (leaf_pgs t) + ht t" "balanced (ht t) t"
proof -
  obtain n where n: "right_spine nx 2 n t" and f: "root_fan 2 t" using assms by (auto simp: tree_shape_def)
  show b: "balanced (ht t) t" using right_spine_balanced(1) [OF n] balanced_ht(1) by fastforce
  have ht: "ht t = n" using right_spine_balanced(1) [OF n] balanced_ht(1) by fastforce
  note c = right_spine_counts(1) [OF n]
  show "length (pgs t) < 2 * length (leaf_pgs t) + ht t" using c ht by simp
  show "2 ^ (ht t - 1) < length (leaf_pgs t) + (if ht t = 0 then 1 else 0)"
  proof (cases t)
    case (Node p kts)
    then obtain j where j: "n = Suc j" "right_spines nx 2 j kts" using n by (cases n) auto
    have "2 \<le> length kts" using f Node by (simp add: root_fan_def)
    then have "1 * 2 ^ j \<le> (length kts - 1) * 2 ^ j" by (intro mult_le_mono1) simp
    then have "2 ^ j < length (leaf_pgs_l kts)" using right_spine_counts(2) [OF j(2)] by linarith
    then show ?thesis using ht j(1) Node by simp
  qed simp
qed

lemma tree_shape_balanced: "tree_shape nx k q t \<Longrightarrow> 1 \<le> k \<Longrightarrow> balanced (ht t) t"
  using right_spine_balanced(1) balanced_ht(1) by (fastforce simp: tree_shape_def)

lemma length_groups: "length (groups t) = length (leaf_pgs t)" "length (groups_l kts) = length (leaf_pgs_l kts)"
  by (induction t and kts rule: groups_groups_l.induct) simp_all

end
