(* ===== verification/Shape_Steps.thy ===== *)
theory Shape_Steps
  imports Pending Shape
begin

text \<open>
  The shape of the tree in an arena, and that the steps of an operation keep it. The number
  \<open>k\<close> of children that is kept is 1 for any keys, and 2 while the space for keys is bounded
  by a quarter of a page.
\<close>

definition fan :: "writer \<Rightarrow> nat \<Rightarrow> nat \<Rightarrow> bool" where
  "fan w k q \<longleftrightarrow> k = 1 \<or> k = 2 \<and> 2 * q \<le> half_page w"

definition tshape :: "endian \<Rightarrow> writer \<Rightarrow> btree \<Rightarrow> nat \<Rightarrow> nat \<Rightarrow> bool" where
  "tshape h w t k q \<longleftrightarrow> fan w k q \<and> tree_shape (nexts h w) k q t"

definition pshape :: "endian \<Rightarrow> writer \<Rightarrow> btree \<Rightarrow> separator \<Rightarrow> btree \<Rightarrow> frame list \<Rightarrow> nat \<Rightarrow> nat \<Rightarrow> bool" where
  "pshape h w u1 sep u2 c k q \<longleftrightarrow> fan w k q \<and> pend_shape (nexts h w) k q u1 sep u2 c"

definition keeps :: "(nat \<Rightarrow> nat \<Rightarrow> bool) \<Rightarrow> (nat \<Rightarrow> nat \<Rightarrow> bool) \<Rightarrow> bool" where
  "keeps A B \<longleftrightarrow> (\<forall>k q. A k q \<longrightarrow> B k q)"

lemma keepsI: "(\<And>k q. A k q \<Longrightarrow> B k q) \<Longrightarrow> keeps A B"
  by (simp add: keeps_def)

lemma keepsD: "keeps A B \<Longrightarrow> A k q \<Longrightarrow> B k q"
  by (simp add: keeps_def)

lemma keeps_trans: "keeps A B \<Longrightarrow> keeps B C \<Longrightarrow> keeps A C"
  by (simp add: keeps_def)

lemma fan_cong: "w_psize w' = w_psize w \<Longrightarrow> fan w' k q = fan w k q"
  by (simp add: fan_def half_page_def)

section \<open>Leaves\<close>

lemma leaf_replace_keeps:
  assumes nx: "\<And>x. x \<in> set (cpgs c) \<Longrightarrow> nexts h w' x = nexts h w x" and ps: "w_psize w' = w_psize w"
    and k: "\<And>kv. kv \<in> set kvs' \<Longrightarrow> kv \<in> set kvs \<or> fst kv = key"
  shows "keeps (\<lambda>k q. tshape h w (plug (Leaf p kvs) c) k q \<and> short q key) (tshape h w' (plug (Leaf p kvs') c))"
proof (rule keepsI, elim conjE)
  fix k q assume S: "tshape h w (plug (Leaf p kvs) c) k q" "short q key"
  then have "tree_shape (nexts h w) k q (plug (Leaf p kvs) c)" by (simp add: tshape_def)
  moreover have "short q (fst kv)" if "kv \<in> set kvs'" for kv
    using k [OF that] S by (auto simp: tshape_def tree_shape_plug)
  ultimately show "tshape h w' (plug (Leaf p kvs') c) k q"
    using shape_replace_leaf [of "nexts h w" k q p kvs c kvs' "nexts h w'"] nx fan_cong [OF ps] S
    by (simp add: tshape_def)
qed

lemma leaf_split_keeps:
  assumes W: "well h w [Leaf p kvs] c" and n: "page_count w < 2 ^ 32" and r: "r = of_nat (page_count w)"
    and ps: "w_psize w' = w_psize w"
    and al: "\<And>q. alike (((page_at w)(p := l, r := rb)) q) (page_at w' q)"
    and m: "m < length (ins_at i (key, val) kvs)"
  defines "xs \<equiv> ins_at i (key, val) kvs"
  shows "keeps (\<lambda>k q. tshape h w (plug (Leaf p kvs) c) k q \<and> short q key)
    (pshape h w' (Leaf p (take m xs)) (SepLeaf (fst (xs ! m)) r x) (Leaf r (drop m xs)) c)"
proof (rule keepsI, elim conjE)
  fix k q assume S: "tshape h w (plug (Leaf p kvs) c) k q" "short q key"
  then have T: "tree_shape (nexts h w) k q (plug (Leaf p kvs) c)" by (simp add: tshape_def)
  have xs: "short q (fst kv)" if "kv \<in> set xs" for kv
    using that T S(2) by (auto simp: xs_def tree_shape_plug)
  have nx: "nexts h w' y = nexts h w y" if "y \<in> set (cpgs c)" for y
  proof -
    have "y \<noteq> p" "y \<noteq> r" using that wellD(7) [OF W] fresh_number(2) [OF W n] r by auto
    then show ?thesis using alike_hd(1) [OF al [of y]] by (simp add: nexts_def)
  qed
  have "fst (xs ! m) \<in> fst ` set xs" unfolding xs_def by (rule imageI [OF nth_mem [OF m]])
  then have "short q (take nk (fst (xs ! m)))" for nk using xs by (auto intro: short_take)
  then have "pend_shape (nexts h w') k q (Leaf p (take m xs)) (SepLeaf (fst (xs ! m)) r x) (Leaf r (drop m xs)) c"
    by (intro shape_split_leaf [OF T xs nx]) simp_all
  then show "pshape h w' (Leaf p (take m xs)) (SepLeaf (fst (xs ! m)) r x) (Leaf r (drop m xs)) c k q"
    using S(1) fan_cong [OF ps] by (simp add: pshape_def tshape_def)
qed

lemma root_leaf_keeps:
  assumes m: "m < length (ins_at i (key, val) kvs)" and ps: "w_psize w' = w_psize w"
  defines "xs \<equiv> ins_at i (key, val) kvs"
  shows "keeps (\<lambda>k q. tshape h w (Leaf p kvs) k q \<and> short q key)
    (tshape h w' (Node p' [([], Leaf lp (take m xs)), (fst (xs ! m), Leaf rp (drop m xs))]))"
proof (rule keepsI, elim conjE)
  fix k q assume S: "tshape h w (Leaf p kvs) k q" "short q key"
  have "short q (fst kv)" if "kv \<in> set xs" for kv
    using that S by (auto simp: xs_def tshape_def tree_shape_def)
  moreover have "k \<le> 2" using S(1) by (auto simp: tshape_def fan_def)
  ultimately show "tshape h w' (Node p' [([], Leaf lp (take m xs)), (fst (xs ! m), Leaf rp (drop m xs))]) k q"
    using shape_split_root_leaf [of xs q k m] m S(1) fan_cong [OF ps] by (simp add: tshape_def xs_def)
qed

section \<open>Nodes\<close>

lemma insert_node_keeps:
  assumes n: "nk \<in> sep_lens sep" and ps: "w_psize w' = w_psize w" and nx: "nexts h w' = nexts h w"
  shows "keeps (pshape h w u1 sep u2 ((p, ls, key, rs) # c))
    (tshape h w' (plug (Node p (ls @ (key, u1) # (take nk (sep_key sep), u2) # rs)) c))"
  using shape_insert_node [OF _ n refl] fan_cong [OF ps] nx
  by (auto intro!: keepsI simp: pshape_def tshape_def)

text \<open>The number of children that a split leaves on either side.\<close>

lemma pend_short:
  assumes "pshape h w u1 sep u2 ((p, ls, key, rs) # c) k q" "nk \<in> sep_lens sep"
  shows "\<And>kt. kt \<in> set (ls @ (key, u1) # (take nk (sep_key sep), u2) # rs) \<Longrightarrow> short q (fst kt)"
  using assms tkeys_heads [of _ ls] tkeys_heads [of _ rs] by (auto simp: pshape_def pend_shape_def)

lemma fan_split:
  assumes S: "pshape h w u1 sep u2 ((p, ls, key, rs) # c) k q" and n: "nk \<in> sep_lens sep"
    and K: "K = ls @ (key, u1) # (take nk (sep_key sep), u2) # rs"
    and m: "1 \<le> m" "m < length K" "fan_out (half_page w) (map int_bytes (heads K)) m"
  shows "k \<le> m" "k \<le> length K - m"
proof -
  have "k \<le> m \<and> k \<le> length K - m"
  proof (cases "k = 1")
    case False
    then have k: "k = 2" "2 * q \<le> half_page w" using S by (auto simp: pshape_def fan_def)
    have "b + 2 \<le> q" if b: "b \<in> set (map int_bytes (heads K))" for b
    proof -
      have "map int_bytes (heads K) = map (key_bytes \<circ> fst) K"
        by (intro nth_equalityI) (simp_all add: int_bytes_key nth_heads)
      then obtain kt where "kt \<in> set K" "b = key_bytes (fst kt)"
        using b by auto
      then show ?thesis using pend_short [OF S n, folded K] by (auto simp: short_def)
    qed
    from fan_outD [OF m(3) this k(2)] have "2 \<le> m \<and> m + 2 \<le> length K" by simp
    then show ?thesis using k(1) by linarith
  qed (use m in auto)
  then show "k \<le> m" "k \<le> length K - m" by simp_all
qed

lemma split_node_keeps:
  assumes n: "nk \<in> sep_lens sep" and ps: "w_psize w' = w_psize w"
    and K: "K = ls @ (key, u1) # (take nk (sep_key sep), u2) # rs"
    and nx: "\<And>x. x \<in> set (pgs_l K @ cpgs c) \<Longrightarrow> nexts h w' x = nexts h w x" "nexts h w' p \<noteq> P_INVALID"
      "\<And>k q. pshape h w u1 sep u2 ((p, ls, key, rs) # c) k q \<Longrightarrow> nexts h w p \<noteq> P_INVALID \<Longrightarrow>
        nexts h w' r \<noteq> P_INVALID \<and> k \<le> length K - m"
    and m: "\<And>k q. pshape h w u1 sep u2 ((p, ls, key, rs) # c) k q \<Longrightarrow> k \<le> m" "m < length K"
    and key': "take nk' key' = fst (K ! m)"
  shows "keeps (pshape h w u1 sep u2 ((p, ls, key, rs) # c))
    (pshape h w' (Node p (take m K)) (SepInternal key' r nk') (Node r (drop m K)) c)"
proof (rule keepsI)
  fix k q assume S: "pshape h w u1 sep u2 ((p, ls, key, rs) # c) k q"
  have "pend_shape (nexts h w') k q (Node p (take m K)) (SepInternal key' r nk') (Node r (drop m K)) c"
    using S by (intro shape_split_node [where nx = "nexts h w" and nx' = "nexts h w'", OF _ n K nx(1,2) _ m(1) [OF S] m(2) key'] nx(3)) (auto simp: pshape_def)
  then show "pshape h w' (Node p (take m K)) (SepInternal key' r nk') (Node r (drop m K)) c k q"
    using S fan_cong [OF ps] by (simp add: pshape_def)
qed

lemma root_node_keeps:
  assumes n: "nk \<in> sep_lens sep" and ps: "w_psize w' = w_psize w"
    and K: "K = ls @ (key, u1) # (take nk (sep_key sep), u2) # rs"
    and nx: "\<And>x. x \<in> set (pgs_l K) \<Longrightarrow> nexts h w' x = nexts h w x" "nexts h w' lp \<noteq> P_INVALID"
    and m: "1 \<le> m" "m < length K" "fan_out (half_page w) (map int_bytes (heads K)) m"
  shows "keeps (pshape h w u1 sep u2 [(p, ls, key, rs)])
    (tshape h w' (Node p [([], Node lp (take m K)), (fst (K ! m), Node rp (drop m K))]))"
proof (rule keepsI)
  fix k q assume S: "pshape h w u1 sep u2 [(p, ls, key, rs)] k q"
  have "k \<le> 2" using S by (auto simp: pshape_def fan_def)
  then have "tree_shape (nexts h w') k q (Node p [([], Node lp (take m K)), (fst (K ! m), Node rp (drop m K))])"
    using S by (intro shape_split_root_node [where nx = "nexts h w" and nx' = "nexts h w'", OF _ n K nx fan_split(1) [OF S n K m] m(2)]) (auto simp: pshape_def)
  then show "tshape h w' (Node p [([], Node lp (take m K)), (fst (K ! m), Node rp (drop m K))]) k q"
    using S fan_cong [OF ps] by (simp add: pshape_def tshape_def)
qed

end
