(* ===== verification/Leaf_Split.thy ===== *)
theory Leaf_Split
  imports Shape_Steps
begin

text \<open>
  The splits of a leaf other than the root: both ways of splitting end in a pending
  separator. When the new key goes after the last key of the last leaf, nothing is moved and
  the new leaf holds the new entry alone.
\<close>

lemma no_room_two:
  assumes L: "leaf_page h buf kvs" and small: "\<forall>kv \<in> set kvs. leaf_bytes kv + 2 \<le> b"
    and b: "2 * b + 20 \<le> length buf" "n + 2 \<le> b" and full: "\<not> hd_upper h buf - hd_lower h buf \<ge> n + 2"
  shows "2 \<le> length kvs"
proof (rule ccontr)
  assume "\<not> 2 \<le> length kvs"
  then consider "kvs = []" | kv where "kvs = [kv]"
    by (cases kvs; cases "tl kvs") auto
  then show False
    using leaf_page_header(3,4,5) [OF L] small b full by cases auto
qed

lemma int_no_room_two:
  assumes L: "int_page h buf kcs" and small: "\<forall>kc \<in> set kcs. int_bytes kc + 2 \<le> b"
    and b: "2 * b + 20 \<le> length buf" "n + 2 \<le> b" and full: "\<not> hd_upper h buf - hd_lower h buf \<ge> n + 2"
  shows "2 \<le> length kcs"
proof (rule ccontr)
  assume "\<not> 2 \<le> length kcs"
  then consider "kcs = []" | kc where "kcs = [kc]"
    by (cases kcs; cases "tl kcs") auto
  then show False
    using int_page_header(3,4,5) [OF L] small b full by cases auto
qed

text \<open>A fresh page with its links set, as the splits build them.\<close>

lemma fresh_page:
  assumes "arena_ok w"
  obtains b where "empty_page h pgno (w_psize w) flags = Ok b" "fresh h flags b" "length b = w_psize w"
    "20 \<le> length b" "hd_prev h b = 0"
  using empty_page_fresh [of "w_psize w" h pgno flags] arena_bounds [OF assms] by auto

lemma fresh_both_links:
  fixes x y :: u32
  assumes "fresh h flags b" "20 \<le> length b"
  defines "b' \<equiv> wr32 h (wr32 h b 4 x) 8 y"
  shows "pb_set_prev_pg h b x = Ok (wr32 h b 4 x)" "pb_set_next_pg h (wr32 h b 4 x) y = Ok b'"
    "hd_upper h b' = length b" "length b' = length b" "hd_flags h b' = flags" "hd_next h b' = y"
  using assms fresh_set_link(1,2,8) [OF assms(1), of x] fresh_set_link [OF fresh_set_link(1) [OF assms(1)], of x y]
  by (simp_all add: b'_def)

text \<open>One entry placed alone on a fresh page.\<close>

lemma single_entry_page:
  assumes F: "fresh h flags b" and len: "length b \<le> 32768" and e: "e \<noteq> []"
    and fit: "22 + esize e \<le> length b"
  defines "b1 \<equiv> wr16 h b 16 22"
  shows "pb_set_lower h b 22 = Ok b1" "22 + esize e \<le> hd_upper h b1" "hd_upper h b1 \<le> length b1"
    "length b1 = length b" "page_holds h (place h b1 0 e) [e]" "ident (place h b1 0 e) = ident b"
    "length (place h b1 0 e) = length b"
proof -
  note up = fresh_upper [OF F]
  have l: "20 \<le> length b" using fit by simp
  show "pb_set_lower h b 22 = Ok b1" using l by (simp add: b1_def pb_set_eqs)
  have u1: "hd_upper h b1 = length b" "hd_lower h b1 = 22" "length b1 = length b" "ident b1 = ident b"
    using l up by (simp_all add: b1_def)
  then show "22 + esize e \<le> hd_upper h b1" "hd_upper h b1 \<le> length b1" "length b1 = length b"
    using fit by simp_all
  have r: "22 + 2 * 0 + esize e \<le> hd_upper h b1" using fit u1 by simp
  note f = place_facts [OF r] 
  have H: "holds h b1 22 (hd_upper h b1) []"
    using u1 fit len holds_empty [of 22 b1 h] by simp
  have "holds h (place h b1 0 e) 22 (hd_upper h (place h b1 0 e)) [(0, e)]"
    by (rule holds_place [OF H e]) (use fit u1 in simp_all)
  moreover have "hd_lower h (place h b1 0 e) = 22" using f(3) u1 len by simp
  ultimately show "page_holds h (place h b1 0 e) [e]" by (simp add: page_holds_def)
  show "ident (place h b1 0 e) = ident b" "length (place h b1 0 e) = length b"
    using f(1,4) u1 len by simp_all
qed

text \<open>What the leaf splits start from: an open leaf without room for the entry.\<close>

definition leaf_overfull :: "endian \<Rightarrow> writer \<Rightarrow> u32 \<Rightarrow> (bytes \<times> bytes) list \<Rightarrow> frame list \<Rightarrow>
    nat \<Rightarrow> bytes \<Rightarrow> bytes \<Rightarrow> bool" where
  "leaf_overfull h w p kvs c skip key val \<longleftrightarrow>
     well h w [Leaf p kvs] c \<and> tree_ok [] None (plug (Leaf p kvs) c) \<and>
     pg (plug (Leaf p kvs) c) = P_ROOT \<and>
     hole_lo [] c \<le> key \<and> below key (hole_hi None c) \<and>
     located kvs key False skip \<and> leaf_bytes (key, val) + 2 \<le> half_page w \<and>
     \<not> hd_upper h (page_at w p) - hd_lower h (page_at w p) \<ge> leaf_bytes (key, val) + 2"

lemma leaf_overfullD:
  assumes "leaf_overfull h w p kvs c skip key val"
  shows "well h w [Leaf p kvs] c" "tree_ok [] None (plug (Leaf p kvs) c)"
    "pg (plug (Leaf p kvs) c) = P_ROOT" "arena_ok w"
    "page_bytes w p = Ok (page_at w p)" "length (page_at w p) = w_psize w" "unat p < page_count w"
    "1 \<le> unat p" "leaf_page h (page_at w p) kvs" "skip \<le> length kvs" "2 \<le> length kvs"
    "\<forall>kv \<in> set (ins_at skip (key, val) kvs). leaf_bytes kv + 2 \<le> half_page w"
    "tree_ok (hole_lo [] c) (hole_hi None c) (Leaf p (ins_at skip (key, val) kvs))"
    "half_page w = (length (page_at w p) - 20) div 2"
proof -
  note d = assms [unfolded leaf_overfull_def]
  show W: "well h w [Leaf p kvs] c" and T: "tree_ok [] None (plug (Leaf p kvs) c)"
    "pg (plug (Leaf p kvs) c) = P_ROOT" using d by blast+
  note D = wellD [OF W]
  show ok: "arena_ok w" by (rule D(1))
  show pl: "page_bytes w p = Ok (page_at w p)" "length (page_at w p) = w_psize w" "unat p < page_count w"
    "1 \<le> unat p" using page_len [OF W, of p] by simp_all
  show L: "leaf_page h (page_at w p) kvs" using D(3) by simp
  show sk: "skip \<le> length kvs" using d located_absent(1) by blast
  have sm: "\<forall>kv \<in> set kvs. leaf_bytes kv + 2 \<le> half_page w" using D(4) by simp
  show "\<forall>kv \<in> set (ins_at skip (key, val) kvs). leaf_bytes kv + 2 \<le> half_page w" using sm d by simp
  show "2 \<le> length kvs"
    by (rule no_room_two [OF L sm, where n = "leaf_bytes (key, val)"])
      (use d half_page_bounds [OF ok] pl in simp_all)
  have "tree_ok (hole_lo [] c) (hole_hi None c) (Leaf p kvs)"
    by (rule tree_ok_hole(1) [OF T(1)]) simp
  from tree_ok_ins [OF this] d
  show "tree_ok (hole_lo [] c) (hole_hi None c) (Leaf p (ins_at skip (key, val) kvs))" by blast
  show "half_page w = (length (page_at w p) - 20) div 2" by (simp add: half_page_def pl)
qed

lemma split_leaf_full_pending:
  assumes O: "leaf_overfull h w p kvs c skip key val" and n: "page_count w < 2 ^ 32"
  obtains sep w' r m where "split_leaf_full h w p skip key val = Ok (sep, w')"
    "1 \<le> m" "m \<le> length kvs"
    "pending h w' (Leaf p (take m (ins_at skip (key, val) kvs))) sep
       (Leaf r (drop m (ins_at skip (key, val) kvs))) c"
    "page_count w' = Suc (page_count w)" "fixed_part w' = fixed_part w"
    "keeps (\<lambda>k q. tshape h w (plug (Leaf p kvs) c) k q \<and> short q key)
       (pshape h w' (Leaf p (take m (ins_at skip (key, val) kvs))) sep
          (Leaf r (drop m (ins_at skip (key, val) kvs))) c)"
proof -
  note d = leaf_overfullD [OF O]
  let ?xs = "ins_at skip (key, val) kvs" and ?old = "page_at w p"
  define r where "r = (of_nat (page_count w) :: u32)"
  obtain l0 where l0: "empty_page h p (w_psize w) P_BLEAF = Ok l0" "fresh h P_BLEAF l0"
      "length l0 = w_psize w" "20 \<le> length l0" by (rule fresh_page [OF d(4)])
  obtain r0 where r0: "empty_page h r (w_psize w) P_BLEAF = Ok r0" "fresh h P_BLEAF r0"
      "length r0 = w_psize w" "20 \<le> length r0" by (rule fresh_page [OF d(4)])
  note hd = leaf_page_header [OF d(9)]
  note fl = fresh_both_links(1) [OF l0(2,4), where x = "hd_prev h ?old"]
    fresh_both_links(2-) [OF l0(2,4), where x = "hd_prev h ?old" and y = r]
  note fr = fresh_both_links(1) [OF r0(2,4), where x = p]
    fresh_both_links(2-) [OF r0(2,4), where x = p and y = "hd_next h ?old"]
  let ?l2 = "wr32 h (wr32 h l0 4 (hd_prev h ?old)) 8 r" and ?r2 = "wr32 h (wr32 h r0 4 p) 8 (hd_next h ?old)"
  have skv: "\<And>e. e \<in> set kvs \<Longrightarrow> leaf_bytes e + 2 \<le> half_page w" "leaf_bytes (key, val) + 2 \<le> half_page w"
    using d(12) by simp_all
  obtain l rb m where F: "fill_leaf_halves h p ?old (length ?old) skip key val ?l2 ?r2 = Ok (l, rb)"
      "1 \<le> m" "m \<le> length kvs"
      "leaf_page h l (take m ?xs)" "ident l = ident ?l2" "length l = length ?old"
      "leaf_page h rb (drop m ?xs)" "ident rb = ident ?r2" "length rb = length ?old"
    by (rule fill_leaf_halves_page [OF d(9,10,11,14) skv, of ?l2 ?r2 p])
      (use fl fr l0(3) r0(3) d(6) in simp_all)
  have m: "m < length ?xs" using F(3) d(10) by simp
  have ne: "take m ?xs \<noteq> []" "drop m ?xs \<noteq> []" using F(2) m d(10) by auto
  have keys: "leaf_last_key h l = Ok (fst (?xs ! (m - 1)))" "leaf_first_key h rb = Ok (fst (?xs ! m))"
    using leaf_keys_page [OF F(4) ne(1)] leaf_keys_page [OF F(7) ne(2)] F(2) m
    by (simp_all add: last_conv_nth hd_drop_conv_nth min_def)
  let ?w1 = "set_page w p l"
  let ?w2 = "add_page ?w1 rb"
  have ll: "length l = w_psize w" "length rb = w_psize w" using F(6,9) d(6) by simp_all
  note s1 = set_page_facts [OF d(4,7) ll(1)]
  have n1: "page_count ?w1 < 2 ^ 32" using n s1(2) by simp
  have rl: "length rb = w_psize ?w1" using ll s1(5) by simp
  note s2 = add_page_facts [OF s1(1) n1 rl, unfolded s1(2), folded r_def]
  have q: "unat (hd_next h ?old) < page_count ?w2"
    using wellD(8) [OF d(1), of p] s2(3) by (simp add: in_range_def nexts_def)
  obtain w3 where w3: "sibling_link h ?w2 (hd_next h ?old) r = Ok w3" "arena_ok w3"
      "w_psize w3 = w_psize ?w2" "page_count w3 = page_count ?w2" "fixed_part w3 = fixed_part ?w2"
      "\<And>p. alike (page_at ?w2 p) (page_at w3 p)"
    by (rule sibling_link_ok [OF s2(2) q, of h r], rule that)
  let ?sep = "SepLeaf (fst (?xs ! m)) r (fst (?xs ! (m - 1)))"
  have run: "split_leaf_full h w p skip key val = Ok (?sep, w3)"
    unfolding split_leaf_full_def next_free_pgno_eq [OF d(4) n] and_then_simps empty_leaf_def
      r_def [symmetric] l0(1) r0(1) d(5) pb_header(1,2) [OF hd(1)] fl(1,2) fr(1,2) F(1) [unfolded d(6)]
      prod.case keys replace_page_eq [OF d(4,7) ll(1)] s2(1) assert_that_simps(1) [OF refl]
      sibling_link_def [symmetric] w3(1) ..
  have pend: "pending h w3 (Leaf p (take m ?xs)) ?sep (Leaf r (drop m ?xs)) c"
  proof (rule leaf_split_pending [OF d(1,2,3) n r_def w3(2), where l = l and rb = rb])
    show "w_psize w3 = w_psize w" "page_count w3 = Suc (page_count w)" using w3(3,4) s2(3,6) s1(5) by simp_all
    show "alike (((page_at w)(p := l, r := rb)) q) (page_at w3 q)" for q
      using w3(6) [of q] by (simp add: s2(4) s1(3))
    show "hd_next h l = r" using ident_hd(3) [OF F(5)] fl(6) by simp
    show "hd_next h rb = hd_next h ?old" using ident_hd(3) [OF F(8)] fr(6) by simp
  qed (use F m d in simp_all)
  have ps: "w_psize w3 = w_psize w" using w3(3) s2(6) s1(5) by simp
  have al: "alike (((page_at w)(p := l, r := rb)) q) (page_at w3 q)" for q
    using w3(6) [of q] by (simp add: s2(4) s1(3))
  note sh = leaf_split_keeps [OF d(1) n r_def ps al m]
  show ?thesis
    by (rule that [OF run F(2,3) pend _ _ sh]) (use w3(4,5) s2(3,5) s1(4) in simp_all)
qed

text \<open>The split at the right end, which moves nothing.\<close>

lemma split_leaf_sorted_pending:
  assumes O: "leaf_overfull h w p kvs c (length kvs) key val" and n: "page_count w < 2 ^ 32"
    and last: "hd_next h (page_at w p) = P_INVALID"
  obtains sep w' r where "split_leaf_sorted_opt h w p key val = Ok (sep, w')"
    "pending h w' (Leaf p (take (length kvs) (ins_at (length kvs) (key, val) kvs))) sep
       (Leaf r (drop (length kvs) (ins_at (length kvs) (key, val) kvs))) c"
    "page_count w' = Suc (page_count w)" "fixed_part w' = fixed_part w"
    "keeps (\<lambda>k q. tshape h w (plug (Leaf p kvs) c) k q \<and> short q key)
       (pshape h w' (Leaf p (take (length kvs) (ins_at (length kvs) (key, val) kvs))) sep
          (Leaf r (drop (length kvs) (ins_at (length kvs) (key, val) kvs))) c)"
proof -
  note d = leaf_overfullD [OF O]
  let ?xs = "ins_at (length kvs) (key, val) kvs" and ?old = "page_at w p" and ?m = "length kvs"
  define r where "r = (of_nat (page_count w) :: u32)"
  have ne: "kvs \<noteq> []" "?m - 1 < ?m" using d(11) by auto
  have xs: "take ?m ?xs = kvs" "drop ?m ?xs = [(key, val)]" "?xs ! ?m = (key, val)"
    "?xs ! (?m - 1) = last kvs"
    using ne by (auto simp: ins_at_def nth_append last_conv_nth)
  obtain r0 where r0: "empty_page h r (w_psize w) P_BLEAF = Ok r0" "fresh h P_BLEAF r0"
      "length r0 = w_psize w" "20 \<le> length r0" by (rule fresh_page [OF d(4)])
  note hd = leaf_page_header [OF d(9)] and pl = parse_leaf_page [of h False _ _ p, unfolded eff_simps, OF d(9)]
  obtain ki di where ent: "pv_leaf_entry h (view_of h p ?old False) (?m - 1) = Ok \<lparr>le_key = ki, le_data = di\<rparr>"
      "pv_inline (view_of h p ?old False) ki = Ok (fst (kvs ! (?m - 1)))"
    using leaf_entry_page [of h False ?old kvs "?m - 1" p, unfolded eff_simps, OF d(9) ne(2)] by metis
  let ?r1 = "wr32 h r0 4 p" and ?e = "enc_bleaf h (key, val)"
  let ?r2 = "wr16 h ?r1 16 22"
  let ?rb = "place h ?r2 0 ?e"
  have fit: "22 + esize ?e \<le> length ?r1"
    using d(12) half_page_bounds [OF d(4)] r0(3,4) by simp
  have r1: "fresh h P_BLEAF ?r1" "pb_set_prev_pg h r0 p = Ok ?r1" "length ?r1 = w_psize w"
    using fresh_set_link(1,2,8) [OF r0(2)] r0(3) by simp_all
  have psz: "w_psize w \<le> 32768" using arena_bounds [OF d(4)] by simp
  have b32: "length ?r1 \<le> 32768" using r1(3) psz by simp
  note se = single_entry_page [OF r1(1) b32 enc_nonempty(1) fit]
  have put: "write_entry_at_slot h ?r2 0 key val = Ok ?rb"
  proof (rule write_entry_at_slot_eq)
    show "22 + 2 * 0 + leaf_bytes (key, val) \<le> hd_upper h ?r2"
      using se(2) by (simp only: esize_enc mult_0_right add_0_right)
    show "hd_upper h ?r2 \<le> length ?r2" by (rule se(3))
    show "length ?r2 \<le> 32768" using se(4) r1(3) psz by (simp only:)
  qed
  let ?l = "wr32 h ?old 8 r"
  have ol: "20 \<le> length ?old" using hd(1) .
  have sl: "pb_set_next_pg h ?old r = Ok ?l" "length ?l = w_psize w" using ol d(6) by (simp_all add: pb_set_eqs)
  have lp: "leaf_page h ?l kvs"
    using d(9) ol by (simp add: leaf_page_def page_holds_wr32 hd_wr32)
  note s1 = set_page_facts [OF d(4,7) sl(2)]
  have n1: "page_count (set_page w p ?l) < 2 ^ 32" using n s1(2) by simp
  have rl: "length ?rb = w_psize (set_page w p ?l)" using se(7) r1(3) s1(5) by simp
  note s2 = add_page_facts [OF s1(1) n1 rl, unfolded s1(2), folded r_def]
  have pu: "page_update w p (\<lambda>p. pb_set_next_pg h p r) = Ok (set_page w p ?l)"
    by (rule page_update_eq [where f = "\<lambda>p. pb_set_next_pg h p r", OF d(4,7) sl(1)])
  have us: "usub ?m 1 = Ok (?m - 1)" using ne by (simp add: usub_def Suc_leI)
  have h2: "(20 :: nat) + 2 = 22" by simp
  let ?sep = "SepLeaf (fst (?xs ! ?m)) r (fst (?xs ! (?m - 1)))"
  have run: "split_leaf_sorted_opt h w p key val = Ok (?sep, add_page (set_page w p ?l) ?rb)"
    using ent ne unfolding split_leaf_sorted_opt_def d(5) and_then_simps pl(1,2) us ent leaf_entry.simps
      next_free_pgno_eq [OF d(4) n] empty_leaf_def r_def [symmetric] r0(1) r1(2) sizes h2 se(1) put pu s2(1)
      prod.case xs(3,4) fst_conv by (simp add: last_conv_nth)
  have pend: "pending h (add_page (set_page w p ?l) ?rb) (Leaf p (take ?m ?xs)) ?sep (Leaf r (drop ?m ?xs)) c"
  proof (rule leaf_split_pending [OF d(1,2,3) n r_def s2(2), where l = ?l and rb = ?rb])
    show "w_psize (add_page (set_page w p ?l) ?rb) = w_psize w"
      "page_count (add_page (set_page w p ?l) ?rb) = Suc (page_count w)" using s2(3,6) s1(5) by simp_all
    show "alike (((page_at w)(p := ?l, r := ?rb)) q) (page_at (add_page (set_page w p ?l) ?rb) q)" for q
      by (simp add: s2(4) s1(3))
    show "hd_next h ?l = r" using ol by (simp add: hd_wr32)
    show "hd_next h ?rb = hd_next h ?old"
      using ident_hd(3) [OF se(6)] r1(1) last by (simp add: fresh_def P_INVALID_def)
    show "leaf_page h ?rb (drop ?m ?xs)"
      using se(5) ident_hd(4) [OF se(6)] r1(1) by (simp add: leaf_page_def xs fresh_def)
    show "leaf_page h ?l (take ?m ?xs)" using lp xs by simp
  qed (use d ne in simp_all)
  have ps: "w_psize (add_page (set_page w p ?l) ?rb) = w_psize w" using s2(6) s1(5) by simp
  have al: "alike (((page_at w)(p := ?l, r := ?rb)) q) (page_at (add_page (set_page w p ?l) ?rb) q)" for q
    by (simp add: s2(4) s1(3))
  have m: "?m < length ?xs" by simp
  note sh = leaf_split_keeps [OF d(1) n r_def ps al m]
  show ?thesis by (rule that [OF run pend _ _ sh]) (use s2(3,5) s1(4) in simp_all)
qed

lemma split_non_root_leaf_pending:
  assumes O: "leaf_overfull h w p kvs c skip key val" and n: "page_count w < 2 ^ 32"
  obtains sep w' r m where "split_non_root_leaf h w p skip key val = Ok (sep, w')"
    "1 \<le> m" "m \<le> length kvs"
    "pending h w' (Leaf p (take m (ins_at skip (key, val) kvs))) sep
       (Leaf r (drop m (ins_at skip (key, val) kvs))) c"
    "page_count w' = Suc (page_count w)" "fixed_part w' = fixed_part w"
    "keeps (\<lambda>k q. tshape h w (plug (Leaf p kvs) c) k q \<and> short q key)
       (pshape h w' (Leaf p (take m (ins_at skip (key, val) kvs))) sep
          (Leaf r (drop m (ins_at skip (key, val) kvs))) c)"
proof -
  note d = leaf_overfullD [OF O]
  note hd = leaf_page_header [OF d(9)]
  have nn: "pb_nentries h (page_at w p) = Ok (length kvs)" using hd by (simp add: pb_nentries_eq)
  have run: "split_non_root_leaf h w p skip key val =
      (if hd_next h (page_at w p) = P_INVALID \<and> skip = length kvs then split_leaf_sorted_opt h w p key val
       else split_leaf_full h w p skip key val)"
    unfolding split_non_root_leaf_def d(5) and_then_simps pb_header(7) [OF hd(1)] nn ..
  show ?thesis
  proof (cases "hd_next h (page_at w p) = P_INVALID \<and> skip = length kvs")
    case True
    then have sk: "skip = length kvs" and last: "hd_next h (page_at w p) = P_INVALID" by simp_all
    show ?thesis unfolding sk
      by (rule split_leaf_sorted_pending [OF O [unfolded sk] n last])
        (rule that [unfolded sk], use run True sk d(11) in simp_all)
  next
    case False
    show ?thesis
      by (rule split_leaf_full_pending [OF O n]) (use run False that in auto)
  qed
qed

end
