(* ===== verification/Node_Split.thy ===== *)
theory Node_Split
  imports Leaf_Split
begin

text \<open>
  Inserting a separator into a parent page: in place when there is room, otherwise by
  splitting the parent, which leaves a pending separator one level up, or by splitting the
  root, which ends the propagation with a tree one level higher.
\<close>

section \<open>The parent of a pending separator\<close>

definition kids :: "(bytes \<times> btree) list \<Rightarrow> bytes \<Rightarrow> btree \<Rightarrow> bytes \<Rightarrow> btree \<Rightarrow> (bytes \<times> btree) list \<Rightarrow>
    (bytes \<times> btree) list" where
  "kids ls k u1 s u2 rs = ls @ (k, u1) # (s, u2) # rs"

lemma kids_simps [simp]:
  "length (kids ls k u1 s u2 rs) = length ls + length rs + 2"
  "kids ls k u1 s u2 rs \<noteq> []"
  "groups_l (kids ls k u1 s u2 rs) = groups_l ls @ groups u1 @ groups u2 @ groups_l rs"
  "flats (kids ls k u1 s u2 rs) = flats ls @ flat u1 @ flat u2 @ flats rs"
  "pgs_l (kids ls k u1 s u2 rs) = pgs_l ls @ pgs u1 @ pgs u2 @ pgs_l rs"
  "leaf_pgs_l (kids ls k u1 s u2 rs) = leaf_pgs_l ls @ leaf_pgs u1 @ leaf_pgs u2 @ leaf_pgs_l rs"
  by (simp_all add: kids_def)

lemma heads_kids:
  "ins_at (length ls + 1) (s, pg u2) (heads ls @ (k, pg u1) # heads rs) = heads (kids ls k u1 s u2 rs)"
  by (simp add: ins_at_def kids_def)

lemma smalls_heads: "smalls b kts \<Longrightarrow> \<forall>kc \<in> set (heads kts). int_bytes kc + 2 \<le> b"
  by (induction kts) (auto simp: int_bytes_key)

lemma context_leaves: "set (leaves_before c) \<subseteq> set (cpgs c)" "set (leaves_after c) \<subseteq> set (cpgs c)"
proof (induction c rule: cpgs.induct)
  case (2 p ls k rs c)
  { case 1 then show ?case using 2 leaf_pgs_subset(2) [of ls] by auto }
  { case 2 then show ?case using "2.IH" leaf_pgs_subset(2) [of rs] by auto }
qed simp_all

text \<open>What a pending separator means for the parent page, with the separator at the length it is stored.\<close>

lemma pending_parent:
  assumes P: "pending h w u1 sep u2 ((p, ls, k, rs) # c)" and n: "nk \<in> sep_lens sep"
  defines "s \<equiv> take nk (sep_key sep)"
  defines "K \<equiv> kids ls k u1 s u2 rs"
  shows "arena_ok w" "unat p < page_count w" "1 \<le> unat p" "page_bytes w p = Ok (page_at w p)"
    "length (page_at w p) = w_psize w" "unat (hd_next h (page_at w p)) < page_count w"
    "int_page h (page_at w p) (heads ls @ (k, pg u1) # heads rs)"
    "reps h (page_at w) K" "smalls (half_page w) K" "nk \<le> length (sep_key sep)" "sep_child sep = pg u2"
    "tree_ok (hole_lo [] c) (hole_hi None c) (Node p K)"
    "tree_ok [] None (plug (Node p K) c)" "pg (plug (Node p K) c) = P_ROOT"
    "distinct (p # pgs_l K @ cpgs c)" "\<And>q. q \<in> set (p # pgs_l K @ cpgs c) \<Longrightarrow> in_range h w q"
    "links (nexts h w) (leaves_before c @ leaf_pgs_l K @ leaves_after c)"
    "crep h (page_at w) p c" "csmall (half_page w) c"
    "key_bytes s + 2 \<le> half_page w"
    "\<forall>kc \<in> set (heads ls @ (k, pg u1) # heads rs). int_bytes kc + 2 \<le> half_page w"
    "page_count w = Suc (length (p # pgs_l K @ cpgs c))"
proof -
  note d = P [unfolded pending_def]
  have W: "well h w [u1, u2] ((p, ls, k, rs) # c)" using d by blast
  note D = wellD [OF W]
  have T: "tree_ok [] None (plug u1 ((p, ls, k, rs) # c))" and root: "pg (plug u1 ((p, ls, k, rs) # c)) = P_ROOT"
    using d by blast+
  have S: "sep_child sep = pg u2" "nk \<le> length (sep_key sep)" "tree_ok k (Some s) u1"
      "tree_ok s (nxt (hole_hi None c) rs) u2" "k < s" "below s (nxt (hole_hi None c) rs)"
      "key_bytes s + 2 \<le> half_page w"
    using d n by (auto simp: sep_ok_def s_def)
  show "arena_ok w" by (rule D(1))
  have pr: "in_range h w p" using D(8) by simp
  show "unat p < page_count w" "1 \<le> unat p" "unat (hd_next h (page_at w p)) < page_count w"
    using pr by (simp_all add: in_range_def nexts_def)
  then show "page_bytes w p = Ok (page_at w p)" "length (page_at w p) = w_psize w"
    using page_bytes_eq [OF D(1)] by simp_all
  show "int_page h (page_at w p) (heads ls @ (k, pg u1) # heads rs)" using D(5) by simp
  show "reps h (page_at w) K" using D(3,5) by (simp add: K_def kids_def)
  show sm: "smalls (half_page w) K" using D(4,6) S(7) by (simp add: K_def kids_def)
  show "nk \<le> length (sep_key sep)" "sep_child sep = pg u2" "key_bytes s + 2 \<le> half_page w"
    using S by simp_all
  have "tree_ok (hole_lo [] c) (hole_hi None c) (Node p (ls @ (k, u1) # rs))"
    using tree_ok_hole(1) [of "[]" None "Node p (ls @ (k, u1) # rs)" c] T by simp
  from tree_ok_split_child [OF this S(3-6)]
  show ok: "tree_ok (hole_lo [] c) (hole_hi None c) (Node p K)" by (simp add: K_def kids_def)
  show "tree_ok [] None (plug (Node p K) c)"
    by (rule tree_ok_replace [of "[]" None "Node p (ls @ (k, u1) # rs)"]) (use T ok in simp_all)
  show "pg (plug (Node p K) c) = P_ROOT"
    using root pg_plug [of "Node p K" "Node p (ls @ (k, u1) # rs)" c] by simp
  show "distinct (p # pgs_l K @ cpgs c)" using D(7) by (auto simp: K_def)
  show "in_range h w q" if "q \<in> set (p # pgs_l K @ cpgs c)" for q
    using D(8) that by (auto simp: K_def)
  show "page_count w = Suc (length (p # pgs_l K @ cpgs c))" using D(10) by (simp add: K_def)
  show "links (nexts h w) (leaves_before c @ leaf_pgs_l K @ leaves_after c)"
    using D(9) by (simp add: K_def)
  show "crep h (page_at w) p c" "csmall (half_page w) c" using D(5,6) by simp_all
  have "smalls (half_page w) (ls @ (k, u1) # rs)" using D(4,6) by simp
  from smalls_heads [OF this]
  show "\<forall>kc \<in> set (heads ls @ (k, pg u1) # heads rs). int_bytes kc + 2 \<le> half_page w" by simp
qed

text \<open>The state after the parent page is rewritten: one node, or two.\<close>

lemma node_well:
  assumes P: "pending h w u1 sep u2 ((p, ls, k, rs) # c)" and n: "nk \<in> sep_lens sep"
    and K: "K = kids ls k u1 (take nk (sep_key sep)) u2 rs"
    and w': "arena_ok w'" "w_psize w' = w_psize w" "page_count w \<le> page_count w'"
    and al: "\<And>q. q \<in> set (pgs_l K @ cpgs c) \<Longrightarrow> alike (page_at w q) (page_at w' q)"
    and ts: "ts \<noteq> []" "pg (hd ts) = p" "\<And>t. t \<in> set ts \<Longrightarrow> small (half_page w) t"
      "\<And>t. t \<in> set ts \<Longrightarrow> rep h (page_at w') t"
    and pgs: "distinct (all_pgs ts)" "set (all_pgs ts) \<inter> set (cpgs c) = {}"
      "\<And>q. q \<in> set (all_pgs ts) \<Longrightarrow> q \<in> set (pgs_l K) \<or> in_range h w' q"
    and lv: "all_leaves ts = leaf_pgs_l K"
    and count: "page_count w' = Suc (length (all_pgs ts @ cpgs c))"
  shows "well h w' ts c"
proof -
  note d = pending_parent [OF P n, folded K]
  have half: "half_page w' = half_page w" using w'(2) by (simp add: half_page_def)
  have nx: "nexts h w' q = nexts h w q" if "q \<in> set (pgs_l K @ cpgs c)" for q
    using alike_hd(1) [OF al [OF that]] by (simp add: nexts_def)
  have rng: "in_range h w' q" if "q \<in> set (pgs_l K @ cpgs c)" for q
    using d(16) [of q] that nx [OF that] w'(3) by (auto simp: in_range_def)
  have "set (leaves_before c @ leaf_pgs_l K @ leaves_after c) \<subseteq> set (pgs_l K @ cpgs c)"
    using leaf_pgs_subset(2) [of K] context_leaves [of c] by auto
  then have "links (nexts h w') (leaves_before c @ leaf_pgs_l K @ leaves_after c)"
    using d(17) by (subst links_cong [of _ "nexts h w'" "nexts h w"]) (blast intro: nx, simp)
  moreover have "crep h (page_at w') p c" by (rule crep_alike [OF d(18)]) (use al in simp)
  moreover have "\<forall>q \<in> set (all_pgs ts @ cpgs c). in_range h w' q"
    using pgs(3) rng by auto
  ultimately show ?thesis
    using w'(1) ts pgs(1,2) d(15,19) count unfolding well_def half lv by auto
qed

end
