(* ===== verification/Node_Steps.thy ===== *)
theory Node_Steps
  imports Node_Split
begin

text \<open>The four ways in which \<open>try_insert_internal\<close> handles a separator, one by one.\<close>

lemma take_drop_lists:
  "pgs_l (take m K) @ pgs_l (drop m K) = pgs_l K" "leaf_pgs_l (take m K) @ leaf_pgs_l (drop m K) = leaf_pgs_l K"
  "groups_l (take m K) @ groups_l (drop m K) = groups_l K"
  by (metis append_take_drop_id list_appends groups_append)+

lemma reps_take_drop: "reps h P K \<Longrightarrow> reps h P (take m K) \<and> reps h P (drop m K)"
  by (metis append_take_drop_id reps_append)

lemma pgs_l_take_drop: "set (pgs_l (take m K)) \<subseteq> set (pgs_l K)" "set (pgs_l (drop m K)) \<subseteq> set (pgs_l K)"
  using take_drop_lists(1) [of m K] by (metis set_append sup_ge1 sup_ge2)+

section \<open>In place\<close>

lemma insert_in_place_store:
  assumes P: "pending h w u1 sep u2 ((p, ls, k, rs) # c)" and n: "nk \<in> sep_lens sep"
    and room: "hd_lower h (page_at w p) + 2 + align_entry (9 + nk) \<le> hd_upper h (page_at w p)"
  defines "K \<equiv> kids ls k u1 (take nk (sep_key sep)) u2 rs"
  obtains w' where
    "page_update w p (\<lambda>q. insert_internal_in_place h q (length ls + 1) nk (sep_key sep) (sep_child sep)) = Ok w'"
    "store_ok h w' (plug (Node p K) c)" "page_count w' = page_count w" "fixed_part w' = fixed_part w"
    "keeps (pshape h w u1 sep u2 ((p, ls, k, rs) # c)) (tshape h w' (plug (Node p K) c))"
proof -
  note d = pending_parent [OF P n, folded K_def]
  let ?kcs = "heads ls @ (k, pg u1) # heads rs" and ?s = "take nk (sep_key sep)"
  have sk: "length ls + 1 \<le> length ?kcs" by simp
  have "int_bytes (?s, sep_child sep) = align_entry (9 + nk)"
    using d(10) by (simp add: int_bytes_def min_def)
  with room have room': "hd_lower h (page_at w p) + 2 + int_bytes (?s, sep_child sep) \<le> hd_upper h (page_at w p)"
    by simp
  obtain b where b: "insert_internal_in_place h (page_at w p) (length ls + 1) nk (sep_key sep) (sep_child sep) = Ok b"
      "int_page h b (ins_at (length ls + 1) (?s, sep_child sep) ?kcs)" "ident b = ident (page_at w p)"
      "length b = length (page_at w p)"
    by (rule insert_internal_page [OF d(7) sk room' d(10)])
  have bK: "int_page h b (heads K)" using b(2) by (simp add: d(11) heads_kids K_def del: One_nat_def)
  have lb: "length b = w_psize w" using b(4) d(5) by simp
  note s = set_page_facts [OF d(1,2) lb]
  have "well h (set_page w p b) [Node p K] c"
  proof (rule node_well [OF P n meta_eq_to_obj_eq [OF K_def] s(1,5)])
    have np: "p \<notin> set (pgs_l K @ cpgs c)" using d(15) by auto
    show "alike (page_at w q) (page_at (set_page w p b) q)" if "q \<in> set (pgs_l K @ cpgs c)" for q
      using that np by (auto simp: s(3))
    then have "reps h (page_at (set_page w p b)) K" by (intro rep_alike(2) [OF d(8)]) auto
    then show "rep h (page_at (set_page w p b)) t" if "t \<in> set [Node p K]" for t
      using that bK by (simp add: s(3))
    have "in_range h (set_page w p b) p"
      using d(16) [of p] ident_hd(3) [OF b(3)] s(2) by (simp add: in_range_def nexts_def s(3))
    then show "q \<in> set (pgs_l K) \<or> in_range h (set_page w p b) q" if "q \<in> set (all_pgs [Node p K])" for q
      using that by auto
  qed (use d(9,15,22) s(2) in auto)
  then have "store_ok h (set_page w p b) (plug (Node p K) c)"
    using d(13,14) by (simp add: store_ok_def well_plug)
  moreover have "page_update w p (\<lambda>q. insert_internal_in_place h q (length ls + 1) nk (sep_key sep) (sep_child sep))
      = Ok (set_page w p b)"
    by (rule page_update_eq [where f = "\<lambda>q. insert_internal_in_place h q (length ls + 1) nk (sep_key sep) (sep_child sep)",
          OF d(1,2) b(1)])
  moreover have "nexts h (set_page w p b) = nexts h w"
    using ident_hd(3) [OF b(3), of h] by (auto simp: nexts_def s(3))
  note insert_node_keeps [OF n s(5) this, of u1 u2 p ls k rs c, folded kids_def, folded K_def]
  ultimately show ?thesis using that s(2,4) by blast
qed

section \<open>A split below the root\<close>

lemma pending_fresh:
  assumes "pending h w u1 sep u2 c" "page_count w < 2 ^ 32"
  shows "unat (of_nat (page_count w) :: u32) = page_count w"
    "(of_nat (page_count w) :: u32) \<notin> set (all_pgs [u1, u2] @ cpgs c)"
    "1 \<le> unat (of_nat (page_count w) :: u32)"
  using fresh_number [of h w "[u1, u2]" c] assms by (simp_all add: pending_def)

lemma node_split_pending:
  assumes P: "pending h w u1 sep u2 ((p, ls, k, rs) # c)" and n: "nk \<in> sep_lens sep"
    and K: "K = kids ls k u1 (take nk (sep_key sep)) u2 rs"
    and cnt: "page_count w < 2 ^ 32" and r: "r = of_nat (page_count w)"
    and w': "arena_ok w'" "w_psize w' = w_psize w" "page_count w' = Suc (page_count w)"
    and al: "\<And>q. alike (((page_at w)(p := l, r := rb)) q) (page_at w' q)"
    and l: "int_page h l (heads (take m K))" "unat (hd_next h l) < page_count w'"
    and rb: "int_page h rb (heads (drop m K))" "unat (hd_next h rb) < page_count w'"
    and m: "1 \<le> m" "m < length K"
    and key: "nk' \<le> length key'" "take nk' key' = fst (K ! m)"
  shows "pending h w' (Node p (take m K)) (SepInternal key' r nk') (Node r (drop m K)) c"
proof -
  note d = pending_parent [OF P n, folded K]
  note f = pending_fresh [OF P cnt, folded r]
  have fresh: "r \<notin> set (p # pgs_l K @ cpgs c)" using f(2) by (auto simp: K)
  then have pr: "p \<noteq> r" by auto
  have half: "half_page w' = half_page w" using w'(2) by (simp add: half_page_def)
  have np: "p \<notin> set (pgs_l K @ cpgs c)" using d(15) by auto
  have alK: "alike (page_at w q) (page_at w' q)" if "q \<in> set (pgs_l K @ cpgs c)" for q
    using al [of q] that np fresh by (auto split: if_splits)
  have R: "reps h (page_at w') K" by (rule rep_alike(2) [OF d(8)]) (use alK in auto)
  have pp: "int_page h (page_at w' p) (heads (take m K))" "int_page h (page_at w' r) (heads (drop m K))"
    using alike_pages(2) [OF al [of p]] alike_pages(2) [OF al [of r]] l(1) rb(1) pr by auto
  have nx: "nexts h w' p = hd_next h l" "nexts h w' r = hd_next h rb"
    using alike_hd(1) [OF al [of p]] alike_hd(1) [OF al [of r]] pr by (auto simp: nexts_def)
  have "well h w' [Node p (take m K), Node r (drop m K)] c"
  proof (rule node_well [OF P n K w'(1,2)])
    show "rep h (page_at w') t" if "t \<in> set [Node p (take m K), Node r (drop m K)]" for t
      using that pp reps_take_drop [OF R] by auto
    show "small (half_page w) t" if "t \<in> set [Node p (take m K), Node r (drop m K)]" for t
      using that smalls_take_drop [OF d(9)] by auto
    have dk: "distinct (pgs_l (take m K) @ pgs_l (drop m K))" using d(15) by (simp add: take_drop_lists)
    then show "distinct (all_pgs [Node p (take m K), Node r (drop m K)])"
      using fresh np pr pgs_l_take_drop [of m K] by auto
    show "set (all_pgs [Node p (take m K), Node r (drop m K)]) \<inter> set (cpgs c) = {}"
      using d(15) fresh pgs_l_take_drop [of m K] by auto
    have "in_range h w' p" "in_range h w' r"
      using l(2) rb(2) d(2,3) f(1,3) w'(3) by (simp_all add: in_range_def nx)
    then show "q \<in> set (pgs_l K) \<or> in_range h w' q"
      if "q \<in> set (all_pgs [Node p (take m K), Node r (drop m K)])" for q
      using that pgs_l_take_drop [of m K] by auto
    have "length (pgs_l (take m K)) + length (pgs_l (drop m K)) = length (pgs_l K)"
      by (metis length_append take_drop_lists(1))
    then show "page_count w' = Suc (length (all_pgs [Node p (take m K), Node r (drop m K)] @ cpgs c))"
      using d(22) w'(3) by simp
  qed (use alK w'(3) take_drop_lists(2) [of m K] in simp_all)
  moreover have "tree_ok (hole_lo [] c) (hole_hi None c) (Node p (take m K))"
    using tree_ok_split_node(1,4) [OF d(12) m] by (rule tree_ok_weaken)
  then have "tree_ok [] None (plug (Node p (take m K)) c)"
    by (rule tree_ok_replace [OF d(13) below_simps(1)])
  moreover have "pg (plug (Node p (take m K)) c) = P_ROOT"
    using d(14) pg_plug [of "Node p (take m K)" "Node p K" c] by simp
  ultimately show ?thesis
    using node_sep_ok [OF d(12) m d(9) key, of r] by (simp add: pending_def half)
qed

lemma split_internal_page_pending:
  assumes P: "pending h w u1 sep u2 ((p, ls, k, rs) # c)" and n: "nk \<in> sep_lens sep"
    and K: "K = kids ls k u1 (take nk (sep_key sep)) u2 rs" and cnt: "page_count w < 2 ^ 32"
    and full: "\<not> hd_upper h (page_at w p) - hd_lower h (page_at w p) \<ge> align_entry (9 + nk) + 2"
  obtains sep' w' r m where "split_internal_page h w p (length ls + 1) sep nk = Ok (sep', w')"
    "pending h w' (Node p (take m K)) sep' (Node r (drop m K)) c"
    "page_count w' = Suc (page_count w)" "fixed_part w' = fixed_part w"
    "keeps (pshape h w u1 sep u2 ((p, ls, k, rs) # c)) (pshape h w' (Node p (take m K)) sep' (Node r (drop m K)) c)"
proof -
  note d = pending_parent [OF P n, folded K]
  let ?kcs = "heads ls @ (k, pg u1) # heads rs" and ?s = "take nk (sep_key sep)" and ?old = "page_at w p"
  let ?x = "(?s, sep_child sep)"
  have xb: "int_bytes ?x = align_entry (9 + nk)" using d(10) by (simp add: int_bytes_def min_def)
  have X: "ins_at (length ls + 1) ?x ?kcs = heads K" unfolding d(11) K by (rule heads_kids)
  define r where "r = (of_nat (page_count w) :: u32)"
  obtain l0 where l0: "empty_page h p (w_psize w) P_BINTERNAL = Ok l0" "fresh h P_BINTERNAL l0"
      "length l0 = w_psize w" "20 \<le> length l0" by (rule fresh_page [OF d(1)])
  obtain r0 where r0: "empty_page h r (w_psize w) P_BINTERNAL = Ok r0" "fresh h P_BINTERNAL r0"
      "length r0 = w_psize w" "20 \<le> length r0" by (rule fresh_page [OF d(1)])
  note hd = int_page_header [OF d(7)]
  note fl = fresh_both_links(1) [OF l0(2,4), where x = "hd_prev h ?old"]
    fresh_both_links(2-) [OF l0(2,4), where x = "hd_prev h ?old" and y = r]
  note fr = fresh_both_links(1) [OF r0(2,4), where x = p]
    fresh_both_links(2-) [OF r0(2,4), where x = p and y = "hd_next h ?old"]
  let ?l2 = "wr32 h (wr32 h l0 4 (hd_prev h ?old)) 8 r" and ?r2 = "wr32 h (wr32 h r0 4 p) 8 (hd_next h ?old)"
  have half: "half_page w = (length ?old - 20) div 2" by (simp add: half_page_def d(5))
  have xs: "int_bytes ?x + 2 \<le> half_page w" using d(20) by (simp add: int_bytes_key)
  have two: "2 \<le> length ?kcs"
    by (rule int_no_room_two [OF d(7) d(21), where n = "align_entry (9 + nk)"])
      (use half_page_bounds [OF d(1)] d(5) full xs xb in simp_all)
  have sk: "length ls + 1 \<le> length ?kcs" by simp
  have sm: "\<And>e. e \<in> set ?kcs \<Longrightarrow> int_bytes e + 2 \<le> half_page w" using d(21) by blast
  obtain l rb m where F: "fill_internal_halves h p ?old (length ?old) (length ls + 1) sep nk ?l2 ?r2 = Ok (l, rb)"
      "1 \<le> m" "m \<le> length ?kcs"
      "int_page h l (take m (heads K))" "ident l = ident ?l2" "length l = length ?old"
      "int_page h rb (drop m (heads K))" "ident rb = ident ?r2" "length rb = length ?old"
      "fan_out (half_page w) (map int_bytes (heads K)) m"
    by (rule fill_internal_halves_page [OF d(7) sk two half sm xs d(10), of ?l2 ?r2 p, unfolded X])
      (use fl fr l0(3) r0(3) d(5) full in simp_all)
  have m: "m < length K" using F(3) by (simp add: K)
  have ne: "drop m (heads K) \<noteq> []" using m by simp
  have k0: "fst (hd (drop m (heads K))) = fst (K ! m)" using m by (simp add: hd_drop_conv_nth)
  have keys: "first_internal_key h rb = Ok (fst (K ! m))"
    using first_internal_key_page [OF F(7) ne] k0 by simp
  let ?w1 = "set_page w p l"
  let ?w2 = "add_page ?w1 rb"
  have ll: "length l = w_psize w" "length rb = w_psize w" using F(6,9) d(5) by simp_all
  note s1 = set_page_facts [OF d(1,2) ll(1)]
  have n1: "page_count ?w1 < 2 ^ 32" using cnt s1(2) by simp
  have rl: "length rb = w_psize ?w1" using ll s1(5) by simp
  note s2 = add_page_facts [OF s1(1) n1 rl, unfolded s1(2), folded r_def]
  have q: "unat (hd_next h ?old) < page_count ?w2" using d(6) s2(3) by simp
  obtain w3 where w3: "sibling_link h ?w2 (hd_next h ?old) r = Ok w3" "arena_ok w3"
      "w_psize w3 = w_psize ?w2" "page_count w3 = page_count ?w2" "fixed_part w3 = fixed_part ?w2"
      "\<And>p. alike (page_at ?w2 p) (page_at w3 p)"
    by (rule sibling_link_ok [OF s2(2) q, of h r], rule that)
  let ?sep = "SepInternal (fst (K ! m)) r (length (fst (K ! m)))"
  have run: "split_internal_page h w p (length ls + 1) sep nk = Ok (?sep, w3)"
    unfolding split_internal_page_def next_free_pgno_eq [OF d(1) cnt] and_then_simps empty_internal_def
      r_def [symmetric] l0(1) r0(1) d(4) pb_header(1,2) [OF hd(1)] fl(1,2) fr(1,2) F(1) [unfolded d(5)]
      prod.case keys replace_page_eq [OF d(1,2) ll(1)] s2(1) assert_that_simps(1) [OF refl]
      sibling_link_def [symmetric] w3(1) ..
  have al: "alike (((page_at w)(p := l, r := rb)) q) (page_at w3 q)" for q
    using w3(6) [of q] by (simp add: s2(4) s1(3))
  note f = pending_fresh [OF P cnt, folded r_def]
  have pr: "p \<noteq> r" "r \<notin> set (pgs_l K @ cpgs c)" "r \<noteq> P_INVALID"
    using f by (auto simp: K P_INVALID_def)
  have np: "p \<notin> set (pgs_l K @ cpgs c)" using d(15) by auto
  have nx: "nexts h w3 q = (if q = r then nexts h w p else if q = p then r else nexts h w q)" for q
    using alike_hd(1) [OF al [of q]] ident_hd(3) [OF F(5), of h] ident_hd(3) [OF F(8), of h] fl(6) fr(6)
    by (simp add: nexts_def)
  have ps: "w_psize w3 = w_psize w" using w3(3) s2(6) s1(5) by simp
  have key': "take (length (fst (K ! m))) (fst (K ! m)) = fst (K ! m)" by simp
  have sh: "keeps (pshape h w u1 sep u2 ((p, ls, k, rs) # c)) (pshape h w3 (Node p (take m K)) ?sep (Node r (drop m K)) c)"
  proof (rule split_node_keeps [OF n ps K [unfolded kids_def] _ _ _ _ m key'])
    show "nexts h w3 x = nexts h w x" if "x \<in> set (pgs_l K @ cpgs c)" for x
    proof -
      have "x \<noteq> p" "x \<noteq> r" using that np pr(2) by auto
      then show ?thesis by (simp add: nx)
    qed
    show "nexts h w3 p \<noteq> P_INVALID" using pr by (simp add: nx)
    fix k' q assume S: "pshape h w u1 sep u2 ((p, ls, k, rs) # c) k' q"
    note fs = fan_split [OF S n K [unfolded kids_def] F(2) m F(10)]
    show "k' \<le> m" by (rule fs(1))
    show "nexts h w3 r \<noteq> P_INVALID \<and> k' \<le> length K - m" if "nexts h w p \<noteq> P_INVALID"
      using that fs(2) by (simp add: nx)
  qed
  have "pending h w3 (Node p (take m K)) ?sep (Node r (drop m K)) c"
  proof (rule node_split_pending [OF P n K cnt r_def w3(2), where l = l and rb = rb])
    show "w_psize w3 = w_psize w" "page_count w3 = Suc (page_count w)" using w3(3,4) s2(3,6) s1(5) by simp_all
    show "alike (((page_at w)(p := l, r := rb)) q) (page_at w3 q)" for q
      by (rule al)
    show "unat (hd_next h l) < page_count w3"
      using ident_hd(3) [OF F(5)] fl(6) w3(4) s2(3) pending_fresh(1) [OF P cnt] by (simp add: r_def)
    show "unat (hd_next h rb) < page_count w3"
      using ident_hd(3) [OF F(8)] fr(6) w3(4) q by simp
    show "int_page h l (heads (take m K))" "int_page h rb (heads (drop m K))"
      using F(4,7) by (simp_all add: take_drop_heads)
  qed (use F(2) m in simp_all)
  then show ?thesis using that [OF run _ _ _ sh] w3(4,5) s2(3,5) s1(4) by simp
qed

lemma split_internal_sorted_pending:
  assumes P: "pending h w u1 sep u2 ((p, ls, k, []) # c)" and n: "nk \<in> sep_lens sep"
    and K: "K = kids ls k u1 (take nk (sep_key sep)) u2 []" and cnt: "page_count w < 2 ^ 32"
    and full: "\<not> hd_upper h (page_at w p) - hd_lower h (page_at w p) \<ge> align_entry (9 + nk) + 2"
    and last: "hd_next h (page_at w p) = P_INVALID"
  obtains sep' w' r m where "split_internal_sorted_opt h w p sep nk = Ok (sep', w')"
    "pending h w' (Node p (take m K)) sep' (Node r (drop m K)) c"
    "page_count w' = Suc (page_count w)" "fixed_part w' = fixed_part w"
    "keeps (pshape h w u1 sep u2 ((p, ls, k, []) # c)) (pshape h w' (Node p (take m K)) sep' (Node r (drop m K)) c)"
proof -
  note d = pending_parent [OF P n, folded K]
  let ?s = "take nk (sep_key sep)" and ?old = "page_at w p" and ?m = "length ls + 1"
  define r where "r = (of_nat (page_count w) :: u32)"
  have Ks: "take ?m K = ls @ [(k, u1)]" "drop ?m K = [(?s, u2)]" "fst (K ! ?m) = ?s" "?m < length K"
    by (simp_all add: K kids_def nth_append)
  obtain r0 where r0: "empty_page h r (w_psize w) P_BINTERNAL = Ok r0" "fresh h P_BINTERNAL r0"
      "length r0 = w_psize w" "20 \<le> length r0" by (rule fresh_page [OF d(1)])
  note hd = int_page_header [OF d(7)]
  let ?r1 = "wr32 h r0 4 p" and ?e = "enc_bint h (?s, sep_child sep)"
  let ?r2 = "wr16 h ?r1 16 22"
  let ?rb = "place h ?r2 0 ?e"
  have fit: "22 + esize ?e \<le> length ?r1"
    using d(20) half_page_bounds [OF d(1)] r0(3,4) by (simp add: int_bytes_key)
  have r1: "fresh h P_BINTERNAL ?r1" "pb_set_prev_pg h r0 p = Ok ?r1" "length ?r1 = w_psize w"
    using fresh_set_link(1,2,8) [OF r0(2)] r0(3) by simp_all
  have psz: "w_psize w \<le> 32768" using arena_bounds [OF d(1)] by simp
  have b32: "length ?r1 \<le> 32768" using r1(3) psz by simp
  note se = single_entry_page [OF r1(1) b32 enc_nonempty(2) fit]
  have put: "write_internal_entry_at_slot h ?r2 0 nk (sep_key sep) (sep_child sep) = Ok ?rb"
  proof (rule write_internal_entry_at_slot_eq)
    show "22 + 2 * 0 + int_bytes (?s, sep_child sep) \<le> hd_upper h ?r2"
      using se(2) by (simp only: esize_enc mult_0_right add_0_right)
    show "hd_upper h ?r2 \<le> length ?r2" by (rule se(3))
    show "length ?r2 \<le> 32768" using se(4) r1(3) psz by (simp only:)
    show "nk \<le> length (sep_key sep)" by (rule d(10))
  qed
  let ?l = "wr32 h ?old 8 r"
  have ol: "20 \<le> length ?old" using hd(1) .
  have sl: "pb_set_next_pg h ?old r = Ok ?l" "length ?l = w_psize w" using ol d(5) by (simp_all add: pb_set_eqs)
  have lp: "int_page h ?l (heads (take ?m K))"
    using d(7) ol unfolding Ks by (simp add: int_page_def page_holds_wr32 hd_wr32)
  note s1 = set_page_facts [OF d(1,2) sl(2)]
  have n1: "page_count (set_page w p ?l) < 2 ^ 32" using cnt s1(2) by simp
  have rl: "length ?rb = w_psize (set_page w p ?l)" using se(7) r1(3) s1(5) by simp
  note s2 = add_page_facts [OF s1(1) n1 rl, unfolded s1(2), folded r_def]
  have pu: "page_update w p (\<lambda>p. pb_set_next_pg h p r) = Ok (set_page w p ?l)"
    by (rule page_update_eq [where f = "\<lambda>p. pb_set_next_pg h p r", OF d(1,2) sl(1)])
  have h2: "(20 :: nat) + 2 = 22" by simp
  let ?sep = "SepInternal (sep_key sep) r nk" and ?w' = "add_page (set_page w p ?l) ?rb"
  have run: "split_internal_sorted_opt h w p sep nk = Ok (?sep, ?w')"
    unfolding split_internal_sorted_opt_def next_free_pgno_eq [OF d(1) cnt] and_then_simps empty_internal_def
      r_def [symmetric] r0(1) r1(2) sizes h2 se(1) put pu s2(1) prod.case ..
  have kb: "key_bytes ?s = align_entry (9 + nk)" using d(10) by (simp add: key_bytes_def min_def)
  have "2 \<le> length (heads ls @ (k, pg u1) # heads [])"
    by (rule int_no_room_two [OF d(7) d(21), where n = "align_entry (9 + nk)"])
      (use half_page_bounds [OF d(1)] d(5,20) full kb in simp_all)
  then have m2: "2 \<le> ?m" by simp
  note f = pending_fresh [OF P cnt, folded r_def]
  have pr: "p \<noteq> r" "r \<notin> set (pgs_l K @ cpgs c)" "r \<noteq> P_INVALID"
    using f by (auto simp: K P_INVALID_def)
  have np: "p \<notin> set (pgs_l K @ cpgs c)" using d(15) by auto
  have nx: "nexts h ?w' q = nexts h w q" if "q \<noteq> p" "q \<noteq> r" for q
    using that by (simp add: nexts_def s2(4) s1(3))
  have nxp: "nexts h ?w' p = r" using pr(1) ol by (simp add: nexts_def s2(4) s1(3) hd_wr32)
  have ps: "w_psize ?w' = w_psize w" using s2(6) s1(5) by simp
  have key': "take nk (sep_key sep) = fst (K ! ?m)" by (rule Ks(3) [symmetric])
  have sh: "keeps (pshape h w u1 sep u2 ((p, ls, k, []) # c))
      (pshape h ?w' (Node p (take ?m K)) ?sep (Node r (drop ?m K)) c)"
  proof (rule split_node_keeps [OF n ps K [unfolded kids_def] _ _ _ _ Ks(4) key'])
    show "nexts h ?w' x = nexts h w x" if "x \<in> set (pgs_l K @ cpgs c)" for x
      by (rule nx) (use that np pr(2) in auto)
    show "nexts h ?w' p \<noteq> P_INVALID" using pr(3) nxp by simp
    fix k' q assume S: "pshape h w u1 sep u2 ((p, ls, k, []) # c) k' q"
    show "k' \<le> ?m" using S m2 by (auto simp: pshape_def fan_def)
    show "nexts h ?w' r \<noteq> P_INVALID \<and> k' \<le> length K - ?m" if "nexts h w p \<noteq> P_INVALID"
      using that last by (simp add: nexts_def)
  qed
  have "pending h ?w' (Node p (take ?m K)) ?sep (Node r (drop ?m K)) c"
  proof (rule node_split_pending [OF P n K cnt r_def s2(2), where l = ?l and rb = ?rb])
    show "w_psize ?w' = w_psize w" "page_count ?w' = Suc (page_count w)" using s2(3,6) s1(5) by simp_all
    show "alike (((page_at w)(p := ?l, r := ?rb)) q) (page_at ?w' q)" for q by (simp add: s2(4) s1(3))
    show "unat (hd_next h ?l) < page_count ?w'"
      using ol s2(3) pending_fresh(1) [OF P cnt] by (simp add: hd_wr32 r_def)
    show "unat (hd_next h ?rb) < page_count ?w'"
      using ident_hd(3) [OF se(6)] r1(1) s2(3) by (simp add: fresh_def)
    have "int_page h ?rb [(?s, pg u2)]"
      using se(5) ident_hd(4) [OF se(6)] r1(1) by (simp add: int_page_def fresh_def d(11))
    then show "int_page h ?rb (heads (drop ?m K))" unfolding Ks by simp
    show "int_page h ?l (heads (take ?m K))" by (rule lp)
    show "1 \<le> ?m" by simp
    show "?m < length K" by (rule Ks(4))
    show "nk \<le> length (sep_key sep)" by (rule d(10))
    show "?s = fst (K ! ?m)" by (rule Ks(3) [symmetric])
  qed
  then show ?thesis using that [OF run _ _ _ sh] s2(3,5) s1(4) by simp
qed

section \<open>A split of the root\<close>

lemma commit_root:
  assumes ok: "arena_ok w" and cnt: "page_count w + 1 < 2 ^ 32" "1 < page_count w"
    and lens: "length l = w_psize w" "length rb = w_psize w"
    and flags: "hd_flags h (page_at w P_ROOT) = P_BLEAF \<or> hd_flags h (page_at w P_ROOT) = P_BINTERNAL"
    and key: "key_bytes s + 2 \<le> half_page w"
    and lr: "lp = of_nat (page_count w)" "rp = lp + 1"
  obtains w' b where "commit_root_split h w lp rp l rb s = Ok w'" "arena_ok w'" "w_psize w' = w_psize w"
    "page_count w' = page_count w + 2" "fixed_part w' = fixed_part w"
    "page_at w' = (page_at w)(lp := l, rp := rb, P_ROOT := b)"
    "int_page h b [([], lp), (s, rp)]" "hd_next h b = hd_next h (page_at w P_ROOT)"
proof -
  have one: "unat P_ROOT = 1" by (simp add: P_ROOT_def)
  have root: "unat P_ROOT < page_count w" using cnt one by simp
  note pb = page_bytes_eq [OF ok root] and ab = arena_bounds [OF ok] and hb = half_page_bounds [OF ok]
  have fit: "key_bytes s + 36 \<le> w_psize w" using key hb by linarith
  obtain b where b: "convert_root_to_internal h (page_at w P_ROOT) (w_psize w) lp rp s = Ok b"
      "int_page h b [([], lp), (s, rp)]" "length b = w_psize w"
      "hd_next h b = hd_next h (page_at w P_ROOT)"
    using convert_root_page [OF pb(2) _ _ flags fit] ab by metis
  have c1: "page_count w < 2 ^ 32" using cnt by simp
  note s1 = add_page_facts [OF ok c1 lens(1), folded lr(1)]
  have c2: "page_count (add_page w l) < 2 ^ 32" "length rb = w_psize (add_page w l)"
    using cnt lens s1(3,6) by simp_all
  have rp: "rp = of_nat (Suc (page_count w))" using lr by simp
  note s2 = add_page_facts [OF s1(2) c2, unfolded s1(3), folded rp]
  let ?w2 = "add_page (add_page w l) rb"
  have c3: "unat P_ROOT < page_count ?w2" "length b = w_psize ?w2" using root s2(3,6) s1(6) b(3) by simp_all
  note s3 = set_page_facts [OF s2(2) c3]
  have run: "commit_root_split h w lp rp l rb s = Ok (set_page ?w2 P_ROOT b)"
    unfolding commit_root_split_def pb(1) and_then_simps b(1) s1(1) s2(1) prod.case
      assert_that_simps(1) [OF refl] replace_page_eq [OF s2(2) c3] ..
  have "page_at (set_page ?w2 P_ROOT b) = (page_at w)(lp := l, rp := rb, P_ROOT := b)"
    by (simp only: s3(3) s2(4) s1(4))
  then show ?thesis
    using that [OF run s3(1)] b s3(2,4,5) s2(3,5,6) s1(5,6) by simp
qed

lemma root_numbers:
  assumes W: "well h w ts c" and cnt: "page_count w + 1 < 2 ^ 32"
  defines "lp \<equiv> (of_nat (page_count w) :: u32)"
  shows "unat lp = page_count w" "unat (lp + 1) = page_count w + 1" "lp \<noteq> lp + 1"
    "lp \<notin> set (all_pgs ts @ cpgs c)" "lp + 1 \<notin> set (all_pgs ts @ cpgs c)" "u32_succ lp = Ok (lp + 1)"
proof -
  have c1: "page_count w < 2 ^ 32" using cnt by simp
  note f = fresh_number [OF W c1, folded lp_def]
  show u: "unat lp = page_count w" by (rule f(1))
  have n1: "page_count w + 1 < 4294967296" using cnt by simp
  have "lp + 1 = of_nat (page_count w + 1)" by (simp add: lp_def)
  then show v: "unat (lp + 1) = page_count w + 1" by (simp only: unat_of_nat_u32 [OF n1])
  then show "lp \<noteq> lp + 1" using u by (metis n_not_Suc_n Suc_eq_plus1)
  show "lp \<notin> set (all_pgs ts @ cpgs c)" by (rule f(2))
  show "lp + 1 \<notin> set (all_pgs ts @ cpgs c)"
    using wellD(8) [OF W, of "lp + 1"] v by (auto simp: in_range_def)
  show "u32_succ lp = Ok (lp + 1)" using cnt u by (simp add: u32_succ_def)
qed

text \<open>A new root over two subtrees.\<close>

lemma new_root_store:
  assumes w': "arena_ok w'"
    and I: "int_page h (page_at w' P_ROOT) [([], pg t1), (s, pg t2)]"
    and R: "rep h (page_at w') t1" "rep h (page_at w') t2"
    and sm: "small (half_page w') t1" "small (half_page w') t2" "key_bytes s + 2 \<le> half_page w'"
    and dist: "distinct (P_ROOT # pgs t1 @ pgs t2)"
    and range: "\<And>q. q \<in> set (P_ROOT # pgs t1 @ pgs t2) \<Longrightarrow> in_range h w' q"
    and chain: "links (nexts h w') (leaf_pgs t1 @ leaf_pgs t2)"
    and ok: "tree_ok [] (Some s) t1" "tree_ok s None t2" "[] < s"
    and count: "page_count w' = Suc (length (P_ROOT # pgs t1 @ pgs t2))"
  shows "store_ok h w' (Node P_ROOT [([], t1), (s, t2)])"
proof -
  have "key_bytes [] + 2 \<le> half_page w'"
    using half_page_bounds [OF w'] by (simp add: key_bytes_def align_entry_eq)
  then have "well h w' [Node P_ROOT [([], t1), (s, t2)]] []"
    using assms unfolding well_def by auto
  then show ?thesis using ok by (simp add: store_ok_def)
qed

lemma sep_nonempty: "sep_ok b lo hi sep t1 t2 \<Longrightarrow> n \<in> sep_lens sep \<Longrightarrow> [] < take n (sep_key sep)"
  by (cases "take n (sep_key sep)") (auto simp: sep_ok_def)

end
