(* ===== verification/Root_Split.thy ===== *)
theory Root_Split
  imports Node_Steps
begin

text \<open>
  A split of the root: both halves go to new pages, and the root page becomes an internal
  page over them, so the tree grows by one level and the separator is not propagated.
\<close>

lemma root_fork:
  assumes ok: "arena_ok w" and cnt: "page_count w + 1 < 2 ^ 32"
    and lens: "length l = w_psize w" "length rb = w_psize w"
    and flags: "hd_flags h (page_at w P_ROOT) = P_BLEAF \<or> hd_flags h (page_at w P_ROOT) = P_BINTERNAL"
    and lr: "lp = of_nat (page_count w)" "rp = lp + 1" "unat lp = page_count w" "unat rp = page_count w + 1"
    and pgs: "pg t1 = lp" "pg t2 = rp" "distinct (P_ROOT # pgs t1 @ pgs t2)" "in_range h w P_ROOT"
      "\<And>q. q \<in> set (pgs t1 @ pgs t2) \<Longrightarrow> q = lp \<or> q = rp \<or> in_range h w q"
    and P: "P = (page_at w)(lp := l, rp := rb)"
    and R: "rep h P t1" "rep h P t2"
    and nx: "unat (hd_next h l) < page_count w + 2" "unat (hd_next h rb) < page_count w + 2"
    and chain: "links (\<lambda>q. hd_next h (P q)) (leaf_pgs t1 @ leaf_pgs t2)"
    and sm: "small (half_page w) t1" "small (half_page w) t2" "key_bytes s + 2 \<le> half_page w"
    and ord: "tree_ok [] (Some s) t1" "tree_ok s None t2" "[] < s"
    and count: "page_count w = length (pgs t1 @ pgs t2)"
  obtains w' where "commit_root_split h w lp rp l rb s = Ok w'"
    "store_ok h w' (Node P_ROOT [([], t1), (s, t2)])"
    "page_count w' = page_count w + 2" "fixed_part w' = fixed_part w"
    "w_psize w' = w_psize w" "\<And>q. q \<noteq> P_ROOT \<Longrightarrow> page_at w' q = P q"
proof -
  have c1: "1 < page_count w" using pgs(4) by (simp add: in_range_def P_ROOT_def)
  obtain w' b where w': "commit_root_split h w lp rp l rb s = Ok w'" "arena_ok w'" "w_psize w' = w_psize w"
    "page_count w' = page_count w + 2" "fixed_part w' = fixed_part w"
    "page_at w' = (page_at w)(lp := l, rp := rb, P_ROOT := b)"
    "int_page h b [([], lp), (s, rp)]" "hd_next h b = hd_next h (page_at w P_ROOT)"
    by (rule commit_root [OF ok cnt c1 lens flags sm(3) lr(1,2)])
  have half: "half_page w' = half_page w" using w'(3) by (simp add: half_page_def)
  have at: "page_at w' = P(P_ROOT := b)" using w'(6) P by simp
  have nroot: "P_ROOT \<notin> set (pgs t1 @ pgs t2)" using pgs(3) by auto
  have same: "page_at w' q = P q" if "q \<in> set (pgs t1 @ pgs t2)" for q
    using that nroot by (auto simp: at)
  have "store_ok h w' (Node P_ROOT [([], t1), (s, t2)])"
  proof (rule new_root_store [OF w'(2)])
    show "int_page h (page_at w' P_ROOT) [([], pg t1), (s, pg t2)]" using w'(7) pgs by (simp add: at)
    show "rep h (page_at w') t1" by (rule rep_alike(1) [OF R(1)]) (use same in \<open>simp add: alike_def\<close>)
    show "rep h (page_at w') t2" by (rule rep_alike(1) [OF R(2)]) (use same in \<open>simp add: alike_def\<close>)
    show "links (nexts h w') (leaf_pgs t1 @ leaf_pgs t2)"
      using chain leaf_pgs_subset(1) [of t1] leaf_pgs_subset(1) [of t2] same
      by (subst links_cong [of _ _ "\<lambda>q. hd_next h (P q)"]) (auto simp: nexts_def)
    show "in_range h w' q" if q: "q \<in> set (P_ROOT # pgs t1 @ pgs t2)" for q
    proof (cases "q = P_ROOT")
      case True
      then show ?thesis using pgs(4) w'(4,8) by (auto simp: in_range_def nexts_def at)
    next
      case False
      then have "page_at w' q = P q" using q same by auto
      then show ?thesis using pgs(5) [of q] q False nx w'(4) lr(3,4) c1
        by (auto simp: in_range_def nexts_def P split: if_splits)
    qed
  qed (use pgs sm ord half count w'(4) in simp_all)
  moreover have "page_at w' q = P q" if "q \<noteq> P_ROOT" for q using that by (simp add: at)
  ultimately show ?thesis using that w' by blast
qed

text \<open>The fresh pair of pages that a root split starts from, with their sibling links.\<close>

lemma fresh_pair:
  assumes "arena_ok w"
  obtains l0 r0 where "empty_page h lp (w_psize w) fl = Ok l0" "empty_page h rp (w_psize w) fl = Ok r0"
    "pb_set_next_pg h l0 rp = Ok (wr32 h l0 8 rp)" "pb_set_prev_pg h r0 lp = Ok (wr32 h r0 4 lp)"
    "hd_upper h (wr32 h l0 8 rp) = w_psize w" "hd_upper h (wr32 h r0 4 lp) = w_psize w"
    "length (wr32 h l0 8 rp) = w_psize w" "length (wr32 h r0 4 lp) = w_psize w"
    "hd_flags h (wr32 h l0 8 rp) = fl" "hd_flags h (wr32 h r0 4 lp) = fl"
    "hd_next h (wr32 h l0 8 rp) = rp" "hd_next h (wr32 h r0 4 lp) = 0"
proof -
  obtain l0 where l0: "empty_page h lp (w_psize w) fl = Ok l0" "fresh h fl l0"
      "length l0 = w_psize w" "20 \<le> length l0" by (rule fresh_page [OF assms])
  obtain r0 where r0: "empty_page h rp (w_psize w) fl = Ok r0" "fresh h fl r0"
      "length r0 = w_psize w" "20 \<le> length r0" by (rule fresh_page [OF assms])
  note a = fresh_set_link [OF l0(2), of rp] and b = fresh_set_link [OF r0(2), of lp]
  have "hd_flags h (wr32 h r0 4 lp) = fl" "hd_next h (wr32 h r0 4 lp) = 0"
    "hd_upper h (wr32 h r0 4 lp) = w_psize w"
    using b(1) r0(3) b(8) fresh_upper [OF b(1)] by (simp_all add: fresh_def)
  then show ?thesis using that [OF l0(1) r0(1) a(4) b(2)] a b l0(3) r0(3) by simp
qed

lemma split_root_leaf_store:
  assumes O: "leaf_overfull h w P_ROOT kvs [] skip key val" and n: "page_count w + 1 < 2 ^ 32"
  obtains w' t' m where "split_root_leaf h w skip key val = Ok w'" "store_ok h w' t'" "1 \<le> m" "m \<le> length kvs"
    "groups t' = [take m (ins_at skip (key, val) kvs), drop m (ins_at skip (key, val) kvs)]" "ht t' = 1"
    "page_count w' = page_count w + 2" "fixed_part w' = fixed_part w"
    "keeps (\<lambda>k q. tshape h w (Leaf P_ROOT kvs) k q \<and> short q key) (tshape h w' t')"
proof -
  note d = leaf_overfullD [OF O]
  let ?xs = "ins_at skip (key, val) kvs" and ?old = "page_at w P_ROOT"
  define lp where "lp = (of_nat (page_count w) :: u32)"
  define rp where "rp = lp + 1"
  have n1: "page_count w < 2 ^ 32" using n by simp
  note num = root_numbers [OF d(1) n, folded lp_def, folded rp_def]
  obtain l0 r0 where p: "empty_page h lp (w_psize w) P_BLEAF = Ok l0" "empty_page h rp (w_psize w) P_BLEAF = Ok r0"
    "pb_set_next_pg h l0 rp = Ok (wr32 h l0 8 rp)" "pb_set_prev_pg h r0 lp = Ok (wr32 h r0 4 lp)"
    "hd_upper h (wr32 h l0 8 rp) = w_psize w" "hd_upper h (wr32 h r0 4 lp) = w_psize w"
    "length (wr32 h l0 8 rp) = w_psize w" "length (wr32 h r0 4 lp) = w_psize w"
    "hd_flags h (wr32 h l0 8 rp) = P_BLEAF" "hd_flags h (wr32 h r0 4 lp) = P_BLEAF"
    "hd_next h (wr32 h l0 8 rp) = rp" "hd_next h (wr32 h r0 4 lp) = 0"
    by (rule fresh_pair [OF d(4)])
  let ?l1 = "wr32 h l0 8 rp" and ?r1 = "wr32 h r0 4 lp"
  have skv: "\<And>e. e \<in> set kvs \<Longrightarrow> leaf_bytes e + 2 \<le> half_page w" "leaf_bytes (key, val) + 2 \<le> half_page w"
    using d(12) by simp_all
  obtain l rb m where F: "fill_leaf_halves h P_ROOT ?old (length ?old) skip key val ?l1 ?r1 = Ok (l, rb)"
      "1 \<le> m" "m \<le> length kvs"
      "leaf_page h l (take m ?xs)" "ident l = ident ?l1" "length l = length ?old"
      "leaf_page h rb (drop m ?xs)" "ident rb = ident ?r1" "length rb = length ?old"
    by (rule fill_leaf_halves_page [OF d(9,10,11,14) skv, of ?l1 ?r1 P_ROOT])
      (use p d(6) in simp_all)
  have m: "m < length ?xs" using F(3) d(10) by simp
  have ne: "drop m ?xs \<noteq> []" using m d(10) by auto
  have fk: "leaf_first_key h rb = Ok (fst (?xs ! m))"
    using leaf_keys_page [OF F(7) ne] m by (simp add: hd_drop_conv_nth)
  have run: "split_root_leaf h w skip key val = commit_root_split h w lp rp l rb (fst (?xs ! m))"
    unfolding split_root_leaf_def next_free_pgno_eq [OF d(4) n1] lp_def [symmetric] and_then_simps num(6)
      rp_def [symmetric] empty_leaf_def p(1-4) d(5) F(1) [unfolded d(6)] prod.case fk ..
  have hn: "hd_next h l = rp" "hd_next h rb = 0"
    using ident_hd(3) [OF F(5)] ident_hd(3) [OF F(8)] p(11,12) by simp_all
  have tok: "tree_ok [] None (Leaf P_ROOT ?xs)" using d(13) by simp
  let ?t1 = "Leaf lp (take m ?xs)" and ?t2 = "Leaf rp (drop m ?xs)"
  have sep: "sep_ok (half_page w) [] None (SepLeaf (fst (?xs ! m)) rp (fst (?xs ! (m - 1))))
      (Leaf P_ROOT (take m ?xs)) ?t2"
    by (rule leaf_sep_ok [OF tok F(2) m d(12)])
  have s: "tree_ok [] (Some (fst (?xs ! m))) ?t1" "tree_ok (fst (?xs ! m)) None ?t2"
      "[] < fst (?xs ! m)" "key_bytes (fst (?xs ! m)) + 2 \<le> half_page w"
    using sep by (auto simp: sep_ok_def sep_lens_def)
  have nr: "P_ROOT \<noteq> lp" "P_ROOT \<noteq> rp" using num(4,5) by auto
  have rng: "in_range h w P_ROOT" using wellD(8) [OF d(1), of P_ROOT] by simp
  obtain w' where w': "commit_root_split h w lp rp l rb (fst (?xs ! m)) = Ok w'"
    "store_ok h w' (Node P_ROOT [([], ?t1), (fst (?xs ! m), ?t2)])"
    "page_count w' = page_count w + 2" "fixed_part w' = fixed_part w" "w_psize w' = w_psize w"
  proof (rule root_fork [where ?t1.0 = ?t1 and ?t2.0 = ?t2 and P = "(page_at w)(lp := l, rp := rb)",
        OF d(4) n _ _ _ lp_def rp_def num(1,2)])
    show "length l = w_psize w" "length rb = w_psize w" using F(6,9) d(6) by simp_all
    show "hd_flags h ?old = P_BLEAF \<or> hd_flags h ?old = P_BINTERNAL"
      using leaf_page_header(7) [OF d(9)] by simp
    show "distinct (P_ROOT # pgs ?t1 @ pgs ?t2)" using nr num(3) by (simp add: rp_def)
    show "rep h ((page_at w)(lp := l, rp := rb)) ?t1" "rep h ((page_at w)(lp := l, rp := rb)) ?t2"
      using F(4,7) num(3) by (simp_all add: rp_def)
    show "links (\<lambda>q. hd_next h (((page_at w)(lp := l, rp := rb)) q)) (leaf_pgs ?t1 @ leaf_pgs ?t2)"
      using hn num(3) by (simp add: rp_def P_INVALID_def)
    show "unat (hd_next h l) < page_count w + 2" "unat (hd_next h rb) < page_count w + 2"
      using hn num(2) by simp_all
    show "small (half_page w) ?t1" "small (half_page w) ?t2"
      using d(12) unfolding small.simps by (meson in_set_takeD in_set_dropD)+
    show "q = lp \<or> q = rp \<or> in_range h w q" if "q \<in> set (pgs ?t1 @ pgs ?t2)" for q
      using that by auto
  qed (use s rng wellD(10) [OF d(1)] in simp_all)
  note sh = root_leaf_keeps [OF m w'(5), of h P_ROOT P_ROOT lp rp]
  show ?thesis
    by (rule that [OF run [unfolded w'(1)] w'(2) F(2,3) _ _ _ _ sh]) (use w'(3,4) in simp_all)
qed

lemma split_root_internal_store:
  assumes P: "pending h w u1 sep u2 [(P_ROOT, ls, k, rs)]" and n: "nk \<in> sep_lens sep"
    and K: "K = kids ls k u1 (take nk (sep_key sep)) u2 rs" and cnt: "page_count w + 1 < 2 ^ 32"
    and full: "\<not> hd_upper h (page_at w P_ROOT) - hd_lower h (page_at w P_ROOT) \<ge> align_entry (9 + nk) + 2"
  obtains w' t' where "split_root_internal h w (length ls + 1) sep nk = Ok w'" "store_ok h w' t'"
    "groups t' = groups_l K" "ht t' \<le> Suc (Suc (hts K))" "page_count w' = page_count w + 2" "fixed_part w' = fixed_part w"
    "keeps (pshape h w u1 sep u2 [(P_ROOT, ls, k, rs)]) (tshape h w' t')"
proof -
  note d = pending_parent [OF P n, folded K]
  let ?kcs = "heads ls @ (k, pg u1) # heads rs" and ?s = "take nk (sep_key sep)" and ?old = "page_at w P_ROOT"
  let ?x = "(?s, sep_child sep)"
  have W: "well h w [u1, u2] [(P_ROOT, ls, k, rs)]" using P by (simp add: pending_def)
  have xb: "int_bytes ?x = align_entry (9 + nk)" using d(10) by (simp add: int_bytes_def min_def)
  have X: "ins_at (length ls + 1) ?x ?kcs = heads K" unfolding d(11) K by (rule heads_kids)
  define lp where "lp = (of_nat (page_count w) :: u32)"
  define rp where "rp = lp + 1"
  have n1: "page_count w < 2 ^ 32" using cnt by simp
  note num = root_numbers [OF W cnt, folded lp_def, folded rp_def]
  obtain l0 r0 where p: "empty_page h lp (w_psize w) P_BINTERNAL = Ok l0"
    "empty_page h rp (w_psize w) P_BINTERNAL = Ok r0"
    "pb_set_next_pg h l0 rp = Ok (wr32 h l0 8 rp)" "pb_set_prev_pg h r0 lp = Ok (wr32 h r0 4 lp)"
    "hd_upper h (wr32 h l0 8 rp) = w_psize w" "hd_upper h (wr32 h r0 4 lp) = w_psize w"
    "length (wr32 h l0 8 rp) = w_psize w" "length (wr32 h r0 4 lp) = w_psize w"
    "hd_flags h (wr32 h l0 8 rp) = P_BINTERNAL" "hd_flags h (wr32 h r0 4 lp) = P_BINTERNAL"
    "hd_next h (wr32 h l0 8 rp) = rp" "hd_next h (wr32 h r0 4 lp) = 0"
    by (rule fresh_pair [OF d(1)])
  let ?l1 = "wr32 h l0 8 rp" and ?r1 = "wr32 h r0 4 lp"
  have half: "half_page w = (length ?old - 20) div 2" by (simp add: half_page_def d(5))
  have xs: "int_bytes ?x + 2 \<le> half_page w" using d(20) by (simp add: int_bytes_key)
  have two: "2 \<le> length ?kcs"
    by (rule int_no_room_two [OF d(7) d(21), where n = "align_entry (9 + nk)"])
      (use half_page_bounds [OF d(1)] d(5) full xs xb in simp_all)
  have sk: "length ls + 1 \<le> length ?kcs" by simp
  have sm: "\<And>e. e \<in> set ?kcs \<Longrightarrow> int_bytes e + 2 \<le> half_page w" using d(21) by blast
  obtain l rb m where F: "fill_internal_halves h P_ROOT ?old (length ?old) (length ls + 1) sep nk ?l1 ?r1 = Ok (l, rb)"
      "1 \<le> m" "m \<le> length ?kcs"
      "int_page h l (take m (heads K))" "ident l = ident ?l1" "length l = length ?old"
      "int_page h rb (drop m (heads K))" "ident rb = ident ?r1" "length rb = length ?old"
      "fan_out (half_page w) (map int_bytes (heads K)) m"
    by (rule fill_internal_halves_page [OF d(7) sk two half sm xs d(10), of ?l1 ?r1 P_ROOT, unfolded X])
      (use p d(5) full in simp_all)
  have m: "m < length K" using F(3) by (simp add: K)
  have ne: "drop m (heads K) \<noteq> []" using m by simp
  have k0: "fst (hd (drop m (heads K))) = fst (K ! m)" using m by (simp add: hd_drop_conv_nth)
  have fk: "first_internal_key h rb = Ok (fst (K ! m))"
    using first_internal_key_page [OF F(7) ne] k0 by simp
  have run: "split_root_internal h w (length ls + 1) sep nk = commit_root_split h w lp rp l rb (fst (K ! m))"
    unfolding split_root_internal_def next_free_pgno_eq [OF d(1) n1] lp_def [symmetric] and_then_simps num(6)
      rp_def [symmetric] empty_internal_def p(1-4) d(4) F(1) [unfolded d(5)] prod.case fk ..
  have hn: "hd_next h l = rp" "hd_next h rb = 0"
    using ident_hd(3) [OF F(5)] ident_hd(3) [OF F(8)] p(11,12) by simp_all
  let ?t1 = "Node lp (take m K)" and ?t2 = "Node rp (drop m K)"
  have tok: "tree_ok [] None (Node P_ROOT K)" using d(12) by (simp del: tree_ok.simps)
  have "tree_ok [] None (Node lp K)" using tok by simp
  note s = tree_ok_split_node [OF this F(2) m]
  have all: "set (pgs u1 @ pgs u2 @ P_ROOT # pgs_l ls @ pgs_l rs) = set (P_ROOT # pgs_l K)" by (auto simp: K)
  have new: "lp \<notin> set (P_ROOT # pgs_l K)" "rp \<notin> set (P_ROOT # pgs_l K)"
    using num(4,5) all by auto
  have sub: "set (pgs_l (take m K)) \<subseteq> set (pgs_l K)" "set (pgs_l (drop m K)) \<subseteq> set (pgs_l K)"
    by (rule pgs_l_take_drop)+
  have lrp: "lp \<noteq> rp" using num(3) .
  have dk: "distinct (pgs_l (take m K) @ pgs_l (drop m K))" using d(15) by (simp add: take_drop_lists)
  let ?P = "(page_at w)(lp := l, rp := rb)"
  have al: "alike (page_at w q) (?P q)" if "q \<in> set (pgs_l K)" for q
    using that new by (auto simp: alike_def)
  have R: "reps h ?P K" by (rule rep_alike(2) [OF d(8)]) (use al in simp)
  obtain w' where w': "commit_root_split h w lp rp l rb (fst (K ! m)) = Ok w'"
    "store_ok h w' (Node P_ROOT [([], ?t1), (fst (K ! m), ?t2)])"
    "page_count w' = page_count w + 2" "fixed_part w' = fixed_part w"
    "w_psize w' = w_psize w" "\<And>q. q \<noteq> P_ROOT \<Longrightarrow> page_at w' q = ?P q"
  proof (rule root_fork [where ?t1.0 = ?t1 and ?t2.0 = ?t2 and P = ?P,
        OF d(1) cnt _ _ _ lp_def rp_def num(1,2)])
    show "length l = w_psize w" "length rb = w_psize w" using F(6,9) d(5) by simp_all
    show "hd_flags h ?old = P_BLEAF \<or> hd_flags h ?old = P_BINTERNAL"
      using int_page_header(7) [OF d(7)] by simp
    show "distinct (P_ROOT # pgs ?t1 @ pgs ?t2)" using new sub lrp dk d(15) by auto
    show "in_range h w P_ROOT" using d(16) by simp
    show "q = lp \<or> q = rp \<or> in_range h w q" if "q \<in> set (pgs ?t1 @ pgs ?t2)" for q
      using that sub d(16) [of q] by auto
    show "rep h ?P ?t1" "rep h ?P ?t2"
      using F(4,7) lrp reps_take_drop [OF R, of m] by (simp_all add: take_drop_heads)
    show "links (\<lambda>q. hd_next h (?P q)) (leaf_pgs ?t1 @ leaf_pgs ?t2)"
    proof -
      have "links (nexts h w) (leaf_pgs_l K)" using d(17) by simp
      then have "links (\<lambda>q. hd_next h (?P q)) (leaf_pgs_l K)"
        using leaf_pgs_subset(2) [of K] new
        by (subst links_cong [of _ _ "nexts h w"]) (auto simp: nexts_def)
      then show ?thesis by (simp add: take_drop_lists(2))
    qed
    show "unat (hd_next h l) < page_count w + 2" "unat (hd_next h rb) < page_count w + 2"
      using hn num(2) by simp_all
    show "small (half_page w) ?t1" "small (half_page w) ?t2"
      using smalls_take_drop [OF d(9), of m] by simp_all
    show "key_bytes (fst (K ! m)) + 2 \<le> half_page w"
      using smalls_key [OF d(9) nth_mem [OF m]] .
    show "tree_ok [] (Some (fst (K ! m))) ?t1" by (rule s(1))
    show "tree_ok (fst (K ! m)) None ?t2" by (rule s(2))
    show "[] < fst (K ! m)" by (rule s(3))
    show "page_count w = length (pgs ?t1 @ pgs ?t2)"
      using d(22) arg_cong [OF take_drop_lists(1) [of m K], of length] by simp
  qed simp_all
  have "groups (Node P_ROOT [([], ?t1), (fst (K ! m), ?t2)]) = groups_l K"
    using take_drop_lists(3) [of m K] by simp
  moreover have "keeps (pshape h w u1 sep u2 [(P_ROOT, ls, k, rs)])
      (tshape h w' (Node P_ROOT [([], ?t1), (fst (K ! m), ?t2)]))"
  proof (rule root_node_keeps [OF n w'(5) K [unfolded kids_def] _ _ F(2) m F(10)])
    have nr: "P_ROOT \<notin> set (pgs_l K)" using d(15) by simp
    show "nexts h w' x = nexts h w x" if "x \<in> set (pgs_l K)" for x
    proof -
      have "x \<noteq> P_ROOT" "x \<noteq> lp" "x \<noteq> rp" using that nr new by auto
      then show ?thesis by (simp add: nexts_def w'(6))
    qed
    have "lp \<noteq> P_ROOT" using new by auto
    moreover have "rp \<noteq> P_INVALID" using num(2) by (auto simp: P_INVALID_def rp_def)
    ultimately show "nexts h w' lp \<noteq> P_INVALID" using hn lrp by (simp add: nexts_def w'(6))
  qed
  ultimately show ?thesis
    using that [OF run [unfolded w'(1)] w'(2)] w'(3,4) hts_take_drop [of m K] by simp
qed

end
