(* ===== verification/Propagate.thy ===== *)
theory Propagate
  imports Root_Split
begin

text \<open>
  The propagation of a separator from a split leaf to the root, as a whole: it never fails on
  a well-formed file and ends with a well-formed file that holds the same entries.
\<close>

text \<open>The page number of the root is that of the outermost frame.\<close>

lemma root_in_context: "c \<noteq> [] \<Longrightarrow> pg (plug t c) \<in> set (cpgs c)"
proof (induction t c rule: plug.induct)
  case (2 t p ls k rs c)
  then show ?case by (cases "c = []") auto
qed simp

lemma root_frame:
  assumes root: "pg (plug t c) = P_ROOT" and d: "pg t \<notin> set (cpgs c)"
  shows "pg t = P_ROOT \<longleftrightarrow> c = []"
  using root_in_context [of c t] assms by (cases "c = []") auto

lemma context_pages: "length c \<le> length (cpgs c)"
  by (induction c rule: cpgs.induct) auto

text \<open>A path is no longer than the file has pages.\<close>

lemma distinct_in_range_length:
  assumes d: "distinct ps" and r: "\<And>p. p \<in> set ps \<Longrightarrow> in_range h w p"
  shows "length ps \<le> page_count w"
proof -
  have "distinct (map unat ps)"
    using d by (simp add: distinct_map inj_on_def word_unat_eq_iff)
  then have "length ps = card (set (map unat ps))" using distinct_card [of "map unat ps"] by simp
  also have "\<dots> \<le> card {..< page_count w}"
    using r by (intro card_mono) (auto simp: in_range_def)
  finally show ?thesis by simp
qed

lemma context_length: "well h w ts c \<Longrightarrow> length c \<le> page_count w"
  using distinct_in_range_length [of "cpgs c" h w] wellD(7,8) [of h w ts c] context_pages [of c]
  by fastforce

section \<open>One level\<close>

definition lifted ::
  "endian \<Rightarrow> writer \<Rightarrow> writer \<Rightarrow> (nat \<Rightarrow> nat \<Rightarrow> bool) \<Rightarrow> (bytes \<times> bytes) list list \<Rightarrow> nat \<Rightarrow> frame list \<Rightarrow>
   separator option \<Rightarrow> bool" where
  "lifted h w w' A xs b c r \<longleftrightarrow> fixed_part w' = fixed_part w \<and>
     (case r of
        None \<Rightarrow> page_count w' \<le> page_count w + 2 \<and>
          (\<exists>t'. store_ok h w' t' \<and> groups t' = gbefore c @ xs @ gafter c \<and> keeps A (tshape h w' t') \<and>
             (\<forall>T. b \<le> ht T \<longrightarrow> ht t' \<le> Suc (ht (plug T c))))
      | Some sep' \<Rightarrow> page_count w' = page_count w + 1 \<and> c \<noteq> [] \<and>
          (\<exists>v1 v2. pending h w' v1 sep' v2 c \<and> groups v1 @ groups v2 = xs \<and> ht v1 \<le> b \<and> ht v2 \<le> b \<and>
             keeps A (pshape h w' v1 sep' v2 c)))"

lemma lifted_NoneD:
  assumes "lifted h w w' A xs b c None" "b \<le> ht T"
  obtains t' where "store_ok h w' t'" "groups t' = gbefore c @ xs @ gafter c" "ht t' \<le> Suc (ht (plug T c))"
    "page_count w' \<le> page_count w + 2" "fixed_part w' = fixed_part w" "keeps A (tshape h w' t')"
  using assms unfolding lifted_def by auto

lemma lifted_pending:
  "pending h w' (Node p (take m K)) sep' (Node r (drop m K)) c \<Longrightarrow> c \<noteq> [] \<Longrightarrow>
   page_count w' = Suc (page_count w) \<Longrightarrow> fixed_part w' = fixed_part w \<Longrightarrow>
   keeps A (pshape h w' (Node p (take m K)) sep' (Node r (drop m K)) c) \<Longrightarrow>
   lifted h w w' A (groups_l K) (Suc (hts K)) c (Some sep')"
  using take_drop_lists(3) [of m K] hts_take_drop [of m K]
  by (fastforce simp: lifted_def intro: exI [of _ "Node p (take m K)"] exI [of _ "Node r (drop m K)"])

lemma lifted_done:
  "store_ok h w' t' \<Longrightarrow> groups t' = gbefore c @ groups_l K @ gafter c \<Longrightarrow> ht t' \<le> Suc (ht (plug (Node p K) c)) \<Longrightarrow>
   page_count w' \<le> page_count w + 2 \<Longrightarrow> fixed_part w' = fixed_part w \<Longrightarrow> keeps A (tshape h w' t') \<Longrightarrow>
   lifted h w w' A (groups_l K) (Suc (hts K)) c None"
  using ht_plug_mono [of "Node p K"] unfolding lifted_def by (auto intro!: exI [of _ t'] intro: order_trans)

lemma try_insert_internal_lifts:
  assumes P: "pending h w u1 sep u2 ((p, ls, k, rs) # c)" and cnt: "page_count w + 1 < 2 ^ 32"
  obtains r w' where "try_insert_internal h w p (length ls + 1) sep = Ok (r, w')"
    "lifted h w w' (pshape h w u1 sep u2 ((p, ls, k, rs) # c)) (groups_l ls @ groups u1 @ groups u2 @ groups_l rs)
       (Suc (max (max (hts ls) (hts rs)) (max (ht u1) (ht u2)))) c r"
proof -
  have W: "well h w [u1, u2] ((p, ls, k, rs) # c)" using P by (simp add: pending_def)
  have c1: "page_count w < 2 ^ 32" using cnt by simp
  define prev where "prev = hd_prev h (page_at w p)"
  obtain nk nb where e: "encoded_size sep prev (length ls + 1) = (nk, nb)" by (cases "encoded_size sep prev (length ls + 1)")
  have n: "nk \<in> sep_lens sep" "nb = align_entry (9 + nk)" using encoded_size_lens [OF e] by auto
  define K where "K = kids ls k u1 (take nk (sep_key sep)) u2 rs"
  note d = pending_parent [OF P n(1), folded K_def]
  note hd = int_page_header [OF d(7)]
  have fK: "groups_l ls @ groups u1 @ groups u2 @ groups_l rs = groups_l K"
    "max (max (hts ls) (hts rs)) (max (ht u1) (ht u2)) = hts K" by (simp_all add: K_def kids_def)
  have free: "pb_free_space h (page_at w p) = Ok (hd_upper h (page_at w p) - hd_lower h (page_at w p))"
    by (rule pb_free_space_eq [OF hd(1,4)])
  have ne: "pb_nentries h (page_at w p) = Ok (length ls + 1 + length rs)"
    using hd by (simp add: pb_nentries_eq)
  let ?room = "hd_upper h (page_at w p) - hd_lower h (page_at w p) \<ge> nb + 2"
  let ?last = "hd_next h (page_at w p) = P_INVALID \<and> length ls + 1 = length ls + 1 + length rs"
  have run: "try_insert_internal h w p (length ls + 1) sep =
     (if ?room then
        and_then (page_update w p (\<lambda>p. insert_internal_in_place h p (length ls + 1) nk (sep_key sep) (sep_child sep)))
          (\<lambda>w1. Ok (None, w1))
      else if p = P_ROOT then and_then (split_root_internal h w (length ls + 1) sep nk) (\<lambda>w1. Ok (None, w1))
      else if ?last then
        and_then (split_internal_sorted_opt h w p sep nk) (\<lambda>(s, w1). Ok (Some s, w1))
      else and_then (split_internal_page h w p (length ls + 1) sep nk) (\<lambda>(s, w1). Ok (Some s, w1)))"
    unfolding try_insert_internal_def d(4) and_then_simps pb_header(1) [OF hd(1)] prev_def [symmetric] e
      Let_def prod.case free pb_header(7) [OF hd(1)] ne ..
  have rt: "p = P_ROOT \<longleftrightarrow> c = []" using root_frame [OF d(14)] d(15) by simp
  have flat: "groups (plug (Node p K) c) = gbefore c @ groups_l K @ gafter c" by (simp add: groups_plug)
  show ?thesis
  proof (cases ?room)
    case True
    then have room: "hd_lower h (page_at w p) + 2 + align_entry (9 + nk) \<le> hd_upper h (page_at w p)"
      using n(2) by linarith
    show ?thesis
      by (rule insert_in_place_store [OF P n(1) room, folded K_def])
        (rule that, use run True in simp, unfold fK, rule lifted_done [where p = p, OF _ flat], simp_all)
  next
    case room: False
    then have full: "\<not> hd_upper h (page_at w p) - hd_lower h (page_at w p) \<ge> align_entry (9 + nk) + 2"
      using n(2) by simp
    show ?thesis
    proof (cases "c = []")
      case True
      then have pr: "p = P_ROOT" using rt by simp
      obtain w' t' where w': "split_root_internal h w (length ls + 1) sep nk = Ok w'" "store_ok h w' t'"
          "groups t' = groups_l K" "ht t' \<le> Suc (Suc (hts K))" "page_count w' = page_count w + 2" "fixed_part w' = fixed_part w"
          "keeps (pshape h w u1 sep u2 ((p, ls, k, rs) # c)) (tshape h w' t')"
        using split_root_internal_store [OF P [unfolded True pr] n(1) K_def cnt] full pr True by metis
      show ?thesis
        by (rule that [of None w'])
          (use run room pr w' in simp, unfold fK, rule lifted_done [where p = p, OF w'(2)], use w' True in simp_all)
    next
      case False
      then have pr: "p \<noteq> P_ROOT" using rt by simp
      show ?thesis
      proof (cases ?last)
        case True
        then have rs: "rs = []" by simp
        obtain sep' w' r m where w': "split_internal_sorted_opt h w p sep nk = Ok (sep', w')"
            "pending h w' (Node p (take m K)) sep' (Node r (drop m K)) c"
            "page_count w' = Suc (page_count w)" "fixed_part w' = fixed_part w"
            "keeps (pshape h w u1 sep u2 ((p, ls, k, rs) # c)) (pshape h w' (Node p (take m K)) sep' (Node r (drop m K)) c)"
          using split_internal_sorted_pending [OF P [unfolded rs] n(1) K_def [unfolded rs] c1 full] True rs by metis
        have "try_insert_internal h w p (length ls + 1) sep = Ok (Some sep', w')"
          using run room pr True w'(1) by simp
        then show ?thesis
          by (rule that) (unfold fK, rule lifted_pending [OF w'(2) False w'(3-5)])
      next
        case nl: False
        obtain sep' w' r m where w': "split_internal_page h w p (length ls + 1) sep nk = Ok (sep', w')"
            "pending h w' (Node p (take m K)) sep' (Node r (drop m K)) c"
            "page_count w' = Suc (page_count w)" "fixed_part w' = fixed_part w"
            "keeps (pshape h w u1 sep u2 ((p, ls, k, rs) # c)) (pshape h w' (Node p (take m K)) sep' (Node r (drop m K)) c)"
          by (rule split_internal_page_pending [OF P n(1) K_def c1 full])
        have "try_insert_internal h w p (length ls + 1) sep = Ok (Some sep', w')"
          unfolding run if_not_P [OF room] if_not_P [OF pr] if_not_P [OF nl] w'(1) and_then_simps prod.case ..
        then show ?thesis
          by (rule that) (unfold fK, rule lifted_pending [OF w'(2) False w'(3-5)])
      qed
    qed
  qed
qed

section \<open>All levels\<close>

lemma propagate_loop_store:
  assumes "pending h w u1 sep u2 c" "c \<noteq> []" "page_count w + length c < 2 ^ 32"
    and "ht u1 \<le> ht T" "ht u2 \<le> ht T"
  shows "\<exists>w' t'. propagate_loop h w (slots c) sep = (Ok (), w') \<and> store_ok h w' t' \<and>
    groups t' = gbefore c @ (groups u1 @ groups u2) @ gafter c \<and> ht t' \<le> Suc (ht (plug T c)) \<and>
    page_count w' \<le> page_count w + length c + 1 \<and> fixed_part w' = fixed_part w \<and>
    keeps (pshape h w u1 sep u2 c) (tshape h w' t')"
  using assms
proof (induction c arbitrary: w u1 sep u2 T)
  case (Cons f c)
  obtain p ls k rs where f: "f = (p, ls, k, rs)" by (cases f)
  let ?xs = "groups_l ls @ groups u1 @ groups u2 @ groups_l rs" and ?T = "Node p (ls @ (k, T) # rs)"
  let ?b = "Suc (max (max (hts ls) (hts rs)) (max (ht u1) (ht u2)))"
  have P: "pending h w u1 sep u2 ((p, ls, k, rs) # c)" using Cons.prems(1) f by simp
  have cnt: "page_count w + 1 < 2 ^ 32" using Cons.prems(3) by simp
  have b: "?b \<le> ht ?T" using Cons.prems(4,5) by auto
  obtain r w' where t: "try_insert_internal h w p (length ls + 1) sep = Ok (r, w')" "lifted h w w' (pshape h w u1 sep u2 (f # c)) ?xs ?b c r"
    by (rule try_insert_internal_lifts [OF P cnt, folded f])
  show ?case
  proof (cases r)
    case None
    obtain t' where t': "store_ok h w' t'" "groups t' = gbefore c @ ?xs @ gafter c" "ht t' \<le> Suc (ht (plug ?T c))"
        "page_count w' \<le> page_count w + 2" "fixed_part w' = fixed_part w"
        "keeps (pshape h w u1 sep u2 (f # c)) (tshape h w' t')"
      by (rule lifted_NoneD [OF t(2) [unfolded None] b])
    have "propagate_loop h w (slots (f # c)) sep = (Ok (), w')" using t(1) None f by simp
    then show ?thesis using t' f by (intro exI [of _ w'] exI [of _ t']) simp
  next
    case (Some sep')
    then obtain v1 v2 where v: "pending h w' v1 sep' v2 c" "groups v1 @ groups v2 = ?xs" "c \<noteq> []"
        "page_count w' = page_count w + 1" "fixed_part w' = fixed_part w" "ht v1 \<le> ?b" "ht v2 \<le> ?b"
        "keeps (pshape h w u1 sep u2 (f # c)) (pshape h w' v1 sep' v2 c)"
      using t(2) unfolding lifted_def by auto
    have "page_count w' + length c < 2 ^ 32" using v(4) Cons.prems(3) by simp
    from Cons.IH [OF v(1,3) this order_trans [OF v(6) b] order_trans [OF v(7) b]]
    obtain w'' t' where IH: "propagate_loop h w' (slots c) sep' = (Ok (), w'')" "store_ok h w'' t'"
        "groups t' = gbefore c @ (groups v1 @ groups v2) @ gafter c" "ht t' \<le> Suc (ht (plug ?T c))"
        "page_count w'' \<le> page_count w' + length c + 1" "fixed_part w'' = fixed_part w'"
        "keeps (pshape h w' v1 sep' v2 c) (tshape h w'' t')"
      by blast
    have "propagate_loop h w (slots (f # c)) sep = (Ok (), w'')" using t(1) Some IH(1) f by simp
    then show ?thesis using IH v f keeps_trans [OF v(8) IH(7)] by (intro exI [of _ w''] exI [of _ t']) simp
  qed
qed simp

end
