(* ===== verification/Put_Del.thy ===== *)
theory Put_Del
  imports Propagate
begin

text \<open>
  \<open>put\<close> and \<open>del\<close> as operations on the contents of the file.
\<close>

lemma leaf_search_store:
  assumes W: "well h w [Leaf p kvs] c" and ok: "tree_ok lo hi (Leaf p kvs)"
  obtains found i where "page_bytes w p = Ok (page_at w p)" "leaf_page h (page_at w p) kvs"
    "leaf_search h p (page_at w p) key = Ok (found, i)" "located kvs key found i"
    "unat p < page_count w" "length (page_at w p) = w_psize w"
proof -
  have pl: "page_bytes w p = Ok (page_at w p)" "unat p < page_count w" "length (page_at w p) = w_psize w"
    using page_len [OF W, of p] by simp_all
  have L: "leaf_page h (page_at w p) kvs" using wellD(3) [OF W] by simp
  have asc: "ascending kvs" using ok by simp
  show ?thesis by (rule leaf_search_page [OF L asc, of p key]) (rule that [OF pl(1) L _ _ pl(2,3)])
qed

section \<open>put\<close>

lemma fixed_psize: "fixed_part w' = fixed_part w \<Longrightarrow> w_psize w' = w_psize w"
  by (simp add: fixed_part_def)

lemma put_at_absent:
  assumes W: "well h w [Leaf p kvs] c" and S: "store_ok h w (plug (Leaf p kvs) c)"
    and key: "hole_lo [] c \<le> key" "below key (hole_hi None c)"
    and loc: "located kvs key False i" and ls: "leaf_search h p (page_at w p) key = Ok (False, i)"
    and small: "leaf_bytes (key, val) + 2 \<le> half_page w" and cnt: "page_count w < 2 ^ 31"
  obtains w' t' gs where
    "put_at h w \<lparr>sp_path = rev (slots c), sp_leaf_pgno = p\<rparr> key val = (Ok True, w')" "store_ok h w' t'"
    "groups t' = gbefore c @ gs @ gafter c" "concat gs = ins_at i (key, val) kvs" "[] \<notin> set gs"
    "page_count w' \<le> page_count w + ht (plug (Leaf p kvs) c) + 2"
    "ht t' \<le> Suc (ht (plug (Leaf p kvs) c))" "fixed_part w' = fixed_part w" "length gs \<le> 2"
    "keeps (\<lambda>k q. tshape h w (plug (Leaf p kvs) c) k q \<and> short q key) (tshape h w' t')"
proof -
  have pl: "page_bytes w p = Ok (page_at w p)" "unat p < page_count w" "length (page_at w p) = w_psize w"
    using page_len [OF W, of p] by simp_all
  have ok: "arena_ok w" by (rule wellD(1) [OF W])
  have L: "leaf_page h (page_at w p) kvs" using wellD(3) [OF W] by simp
  have T: "tree_ok [] None (plug (Leaf p kvs) c)" "pg (plug (Leaf p kvs) c) = P_ROOT"
    using S by (simp_all add: store_ok_def)
  note hd = leaf_page_header [OF L]
  note free = pb_free_space_eq [OF hd(1,4)]
  have le: "align_entry (BLEAF_HEADER_SIZE + length key + length val) = leaf_bytes (key, val)"
    by (simp add: leaf_bytes_def)
  let ?sp = "\<lparr>sp_path = rev (slots c), sp_leaf_pgno = p\<rparr>"
  let ?room = "hd_upper h (page_at w p) - hd_lower h (page_at w p) \<ge> leaf_bytes (key, val) + 2"
  let ?xs = "ins_at i (key, val) kvs"
  have flat: "groups (plug (Leaf p ?xs) c) = gbefore c @ [?xs] @ gafter c"
    by (simp add: groups_plug)
  have halves: "concat [take m ?xs, drop m ?xs] = ?xs" "[] \<notin> set [take m ?xs, drop m ?xs]"
    if "1 \<le> m" "m \<le> length kvs" for m
    using that located_absent(1) [OF loc] by auto
  show ?thesis
  proof (cases ?room)
    case True
    have sk: "i \<le> length kvs" using located_absent(1) [OF loc] .
    have "hd_lower h (page_at w p) + 2 + leaf_bytes (key, val) \<le> hd_upper h (page_at w p)"
      using True by linarith
    then obtain b where b: "insert_leaf_entry h (page_at w p) i key val = Ok b"
        "leaf_page h b (ins_at i (key, val) kvs)" "ident b = ident (page_at w p)"
        "length b = length (page_at w p)"
      using insert_leaf_page [OF L sk] by metis
    have sm: "\<forall>kv \<in> set (ins_at i (key, val) kvs). leaf_bytes kv + 2 \<le> half_page w"
      using small wellD(4) [OF W, of "Leaf p kvs"] by (auto simp: ins_at_def dest: in_set_takeD in_set_dropD)
    have "tree_ok (hole_lo [] c) (hole_hi None c) (Leaf p kvs)"
      using tree_ok_hole(1) [OF T(1)] by simp
    note ok' = tree_ok_ins [OF this loc key, of val]
    have lb: "length b = w_psize w" using b(4) pl(3) by simp
    note st = store_ok_set_leaf [OF S W b(2,3) lb sm ok']
    note s = set_page_facts [OF ok pl(2) lb]
    have pu: "page_update w p (\<lambda>p. insert_leaf_entry h p i key val) = Ok (set_page w p b)"
      by (rule page_update_eq [where f = "\<lambda>p. insert_leaf_entry h p i key val", OF ok pl(2) b(1)])
    have sh: "keeps (\<lambda>k q. tshape h w (plug (Leaf p kvs) c) k q \<and> short q key)
        (tshape h (set_page w p b) (plug (Leaf p ?xs) c))"
    proof (rule leaf_replace_keeps [OF _ s(5)])
      show "nexts h (set_page w p b) x = nexts h w x" for x
        using ident_hd(3) [OF b(3), of h] by (simp add: nexts_def s(3))
    qed (auto simp: set_ins_at)
    have "put_at h w ?sp key val = (Ok True, set_page w p b)"
      unfolding put_at_def Let_def spine.simps le pl(1) and_then_simps ls prod.case free outcome.case
        if_False if_P [OF True] pu ..
    then show ?thesis by (rule that [OF _ st flat _ _ _ _ _ _ sh])
      (use s(2,4) ht_plug_mono [of "Leaf p (ins_at i (key, val) kvs)" "Leaf p kvs" c] in \<open>simp_all add: ins_at_not_Nil [THEN not_sym]\<close>)
  next
    case room: False
    have O: "leaf_overfull h w p kvs c i key val"
      using W T key loc small room by (simp add: leaf_overfull_def)
    have c1: "page_count w + 1 < 2 ^ 32" "page_count w < 2 ^ 32" using cnt by simp_all
    have run: "put_at h w ?sp key val =
      (if p = P_ROOT then
         (case split_root_leaf h w i key val of Err e \<Rightarrow> (Err e, w) | Panic \<Rightarrow> (Panic, w) | Ok w' \<Rightarrow> (Ok True, w'))
       else
         (case split_non_root_leaf h w p i key val of
            Err e \<Rightarrow> (Err e, w)
          | Panic \<Rightarrow> (Panic, w)
          | Ok (sep, w') \<Rightarrow>
              (case propagate_loop h w' (slots c) sep of
                 (Err e, w'') \<Rightarrow> (Err e, w'')
               | (Panic, w'') \<Rightarrow> (Panic, w'')
               | (Ok _, w'') \<Rightarrow> (Ok True, w''))))"
      unfolding put_at_def Let_def spine.simps le pl(1) and_then_simps ls prod.case free outcome.case
        if_False if_not_P [OF room] propagate_separator_def rev_rev_ident ..
    show ?thesis
    proof (cases "c = []")
      case True
      then have pr: "p = P_ROOT" using T(2) by simp
      obtain w' t' m where w': "split_root_leaf h w i key val = Ok w'" "store_ok h w' t'"
          "1 \<le> m" "m \<le> length kvs" "groups t' = [take m ?xs, drop m ?xs]" "ht t' = 1" "page_count w' = page_count w + 2" "fixed_part w' = fixed_part w"
          "keeps (\<lambda>k q. tshape h w (Leaf P_ROOT kvs) k q \<and> short q key) (tshape h w' t')"
        by (rule split_root_leaf_store [OF O [unfolded pr True] c1(1)])
      have "put_at h w ?sp key val = (Ok True, w')" using run pr w'(1) by simp
      then show ?thesis by (rule that [OF _ w'(2) _ halves [OF w'(3,4)]]) (use w' True pr in simp_all)
    next
      case False
      have pr: "p \<noteq> P_ROOT"
        using root_frame [OF T(2)] wellD(7) [OF W] False by simp
      obtain sep w1 r m where w1: "split_non_root_leaf h w p i key val = Ok (sep, w1)"
          "1 \<le> m" "m \<le> length kvs"
          "pending h w1 (Leaf p (take m (ins_at i (key, val) kvs))) sep
             (Leaf r (drop m (ins_at i (key, val) kvs))) c"
          "page_count w1 = Suc (page_count w)" "fixed_part w1 = fixed_part w"
          "keeps (\<lambda>k q. tshape h w (plug (Leaf p kvs) c) k q \<and> short q key)
             (pshape h w1 (Leaf p (take m (ins_at i (key, val) kvs))) sep (Leaf r (drop m (ins_at i (key, val) kvs))) c)"
        by (rule split_non_root_leaf_pending [OF O c1(2)])
      have len: "length c \<le> page_count w" by (rule context_length [OF W])
      then have "page_count w1 + length c < 2 ^ 32" using w1(5) cnt by simp
      from propagate_loop_store [OF w1(4) False this, of "Leaf p kvs"]
      obtain w' t' where w': "propagate_loop h w1 (slots c) sep = (Ok (), w')" "store_ok h w' t'"
          "groups t' = gbefore c @ [take m ?xs, drop m ?xs] @ gafter c"
          "page_count w' \<le> page_count w1 + length c + 1" "fixed_part w' = fixed_part w1"
          "ht t' \<le> Suc (ht (plug (Leaf p kvs) c))"
          "keeps (pshape h w1 (Leaf p (take m ?xs)) sep (Leaf r (drop m ?xs)) c) (tshape h w' t')"
        by auto
      have "put_at h w ?sp key val = (Ok True, w')" using run pr w1(1) w'(1) by simp
      then show ?thesis by (rule that [OF _ w'(2,3) halves [OF w1(2,3)] _ _ _ _ keeps_trans [OF w1(7) w'(7)]])
        (use w'(4-6) w1(5,6) length_ht [of "Leaf p kvs" c] in simp_all)
    qed
  qed
qed

lemma entry_too_large_small:
  assumes ok: "arena_ok w" and small: "leaf_bytes (key, val) + 2 \<le> half_page w"
  shows "entry_too_large (w_psize w) (length key) (length val) = Ok False"
proof -
  note hb = half_page_bounds [OF ok] and ab = arena_bounds [OF ok]
  have a: "align_entry (9 + length key + length val) = leaf_bytes (key, val)" by (simp add: leaf_bytes_def)
  have b: "align_entry (9 + length key) \<le> leaf_bytes (key, val)"
    unfolding leaf_bytes_def by (rule align_entry_mono) simp
  have c: "align_entry 9 = 12" by (simp add: align_entry_eq)
  have u: "usub (w_psize w) PAGE_HEADER_SIZE = Ok (w_psize w - 20)" using ab by (simp add: usub_def)
  have "\<not> (leaf_bytes (key, val) + 2 > w_psize w - 20)" using small hb by linarith
  moreover have "\<not> (align_entry (9 + length key) + 12 + 4 > w_psize w - 20)" using b small hb by linarith
  ultimately show ?thesis
    unfolding entry_too_large_def Let_def sizes a c u and_then_simps by simp
qed

text \<open>How one leaf changes, all other leaves staying as they are.\<close>

definition leaf_put :: "btree \<Rightarrow> btree \<Rightarrow> bytes \<Rightarrow> bytes \<Rightarrow> bool" where
  "leaf_put t t' key val \<longleftrightarrow> (\<exists>ls kvs rs i gs. groups t = ls @ kvs # rs \<and> groups t' = ls @ gs @ rs \<and>
     concat gs = ins_at i (key, val) kvs \<and> [] \<notin> set gs \<and> length gs \<le> 2)"

definition leaf_del :: "btree \<Rightarrow> btree \<Rightarrow> bytes \<Rightarrow> bool" where
  "leaf_del t t' key \<longleftrightarrow> (\<exists>ls kvs rs i. groups t = ls @ kvs # rs \<and> groups t' = ls @ rem_at i kvs # rs \<and>
     i < length kvs \<and> fst (kvs ! i) = key)"

lemma put_store:
  assumes S: "store_ok h w t" and small: "leaf_bytes (key, val) + 2 \<le> half_page w"
    and cnt: "page_count w < 2 ^ 31"
  obtains w' t' where "put h w key val = Some (Ok (contents t key = None), w')" "store_ok h w' t'"
    "contents t' = (if contents t key = None then (contents t)(key \<mapsto> val) else contents t)"
    "page_count w' \<le> page_count w + ht t + 2" "ht t' \<le> Suc (ht t)" "fixed_part w' = fixed_part w"
    "contents t key \<noteq> None \<Longrightarrow> w' = w \<and> t' = t" "contents t key = None \<Longrightarrow> leaf_put t t' key val"
    "keeps (\<lambda>k q. tshape h w t k q \<and> short q key) (tshape h w' t')"
proof -
  obtain c lp kvs where d: "plug (Leaf lp kvs) c = t" "well h w [Leaf lp kvs] c"
    "descend h w key = Some (Ok \<lparr>sp_path = rev (slots c), sp_leaf_pgno = lp\<rparr>)"
    "hole_lo [] c \<le> key" "below key (hole_hi None c)"
    "tree_ok (hole_lo [] c) (hole_hi None c) (Leaf lp kvs)"
    by (rule descend_store [OF S, of key])
  obtain found i where l: "page_bytes w lp = Ok (page_at w lp)" "leaf_page h (page_at w lp) kvs"
    "leaf_search h lp (page_at w lp) key = Ok (found, i)" "located kvs key found i"
    by (rule leaf_search_store [OF d(2,6), of key])
  have T: "tree_ok [] None (plug (Leaf lp kvs) c)" using S d(1) by (simp add: store_ok_def)
  have run: "put h w key val = Some (put_at h w \<lparr>sp_path = rev (slots c), sp_leaf_pgno = lp\<rparr> key val)"
    unfolding put_def entry_too_large_small [OF wellD(1) [OF d(2)] small] d(3) by simp
  show ?thesis
  proof (cases found)
    case True
    have "contents t key \<noteq> None" using contents_found [OF T] l(4) True d(1) by simp
    moreover have "put_at h w \<lparr>sp_path = rev (slots c), sp_leaf_pgno = lp\<rparr> key val = (Ok False, w)"
      using l(1,3) True by (simp add: put_at_def)
    ultimately show ?thesis using that [of w t] run S by (auto simp: keeps_def)
  next
    case False
    note loc = l(4) [unfolded False [THEN Eq_FalseI]]
    obtain w' t' gs where w': "put_at h w \<lparr>sp_path = rev (slots c), sp_leaf_pgno = lp\<rparr> key val = (Ok True, w')"
      "store_ok h w' t'" "groups t' = gbefore c @ gs @ gafter c" "concat gs = ins_at i (key, val) kvs" "[] \<notin> set gs"
      "page_count w' \<le> page_count w + ht (plug (Leaf lp kvs) c) + 2"
      "ht t' \<le> Suc (ht (plug (Leaf lp kvs) c))" "fixed_part w' = fixed_part w" "length gs \<le> 2"
      "keeps (\<lambda>k q. tshape h w (plug (Leaf lp kvs) c) k q \<and> short q key) (tshape h w' t')"
      by (rule put_at_absent [OF d(2) S [folded d(1)] d(4,5) loc _ small cnt]) (use l(3) False in simp)
    have "flat t' = before c @ ins_at i (key, val) kvs @ after c"
      using arg_cong [OF w'(3), of concat] w'(4) by (simp add: concat_groups concat_context)
    note ci = contents_ins [OF T d(4,5) loc this]
    have "groups t = gbefore c @ kvs # gafter c" using groups_plug [of "Leaf lp kvs" c] d(1) by simp
    then have "leaf_put t t' key val" using w'(3-5,9) unfolding leaf_put_def by blast
    then show ?thesis using that [of w' t'] run w'(1,2,6-8,10) ci d(1) by simp
  qed
qed

text \<open>The documented error, before anything else is looked at.\<close>

lemma put_too_large:
  assumes "entry_too_large (w_psize w) (length key) (length val) = Ok True"
  shows "put h w key val = Some (Err (EntryTooLarge (length key) (length val)), w)"
  using assms by (simp add: put_def)

section \<open>del\<close>

lemma del_store:
  assumes S: "store_ok h w t"
  obtains w' t' where "del h w key = Some (Ok (contents t key \<noteq> None), w')" "store_ok h w' t'"
    "contents t' = (contents t)(key := None)"
    "page_count w' = page_count w" "ht t' \<le> ht t" "fixed_part w' = fixed_part w"
    "contents t key = None \<Longrightarrow> w' = w \<and> t' = t" "contents t key \<noteq> None \<Longrightarrow> leaf_del t t' key"
    "keeps (tshape h w t) (tshape h w' t')"
proof -
  obtain c lp kvs where d: "plug (Leaf lp kvs) c = t" "well h w [Leaf lp kvs] c"
    "descend h w key = Some (Ok \<lparr>sp_path = rev (slots c), sp_leaf_pgno = lp\<rparr>)"
    "hole_lo [] c \<le> key" "below key (hole_hi None c)"
    "tree_ok (hole_lo [] c) (hole_hi None c) (Leaf lp kvs)"
    by (rule descend_store [OF S, of key])
  obtain found i where l: "page_bytes w lp = Ok (page_at w lp)" "leaf_page h (page_at w lp) kvs"
    "leaf_search h lp (page_at w lp) key = Ok (found, i)" "located kvs key found i"
    "unat lp < page_count w" "length (page_at w lp) = w_psize w"
    by (rule leaf_search_store [OF d(2,6), of key])
  have T: "tree_ok [] None (plug (Leaf lp kvs) c)" using S d(1) by (simp add: store_ok_def)
  have ok: "arena_ok w" by (rule wellD(1) [OF d(2)])
  show ?thesis
  proof (cases found)
    case False
    note loc = l(4) [unfolded False [THEN Eq_FalseI]]
    have n: "contents t key = None"
      using contents_ins(2) [OF T d(4,5) loc, of "plug (Leaf lp (ins_at i (key, []) kvs)) c" "[]"] d(1)
      by (simp add: flat_plug)
    have "del h w key = Some (Ok False, w)"
      using l(1,3) False d(3) by (simp add: del_def del_at_def)
    then show ?thesis using that [of w t] n S by (simp add: fun_upd_idem keeps_def)
  next
    case True
    note loc = l(4) [unfolded True [THEN Eq_TrueI]]
    obtain b where b: "delete_leaf_entry h (page_at w lp) i = Ok b" "leaf_page h b (rem_at i kvs)"
        "ident b = ident (page_at w lp)" "length b = length (page_at w lp)"
      using delete_leaf_page [OF l(2)] located_In [OF loc] by metis
    have lb: "length b = w_psize w" using b(4) l(6) by simp
    have sm: "\<forall>kv \<in> set (rem_at i kvs). leaf_bytes kv + 2 \<le> half_page w"
      using wellD(4) [OF d(2), of "Leaf lp kvs"] by (auto simp: rem_at_def dest: in_set_takeD in_set_dropD)
    note st = store_ok_set_leaf [OF S [folded d(1)] d(2) b(2,3) lb sm tree_ok_rem [OF d(6)]]
    note s = set_page_facts [OF ok l(5) lb]
    have pu: "page_update w lp (\<lambda>p. delete_leaf_entry h p i) = Ok (set_page w lp b)"
      by (rule page_update_eq [where f = "\<lambda>p. delete_leaf_entry h p i", OF ok l(5) b(1)])
    have "del h w key = Some (Ok True, set_page w lp b)"
      using l(1,3) True d(3) pu by (simp add: del_def del_at_def)
    moreover have "contents t key \<noteq> None" using contents_found [OF T loc] d(1) by simp
    moreover have "ht (plug (Leaf lp (rem_at i kvs)) c) \<le> ht t"
      using ht_plug_mono [of "Leaf lp (rem_at i kvs)" "Leaf lp kvs" c] d(1) by simp
    moreover have "keeps (tshape h w t) (tshape h (set_page w lp b) (plug (Leaf lp (rem_at i kvs)) c))"
    proof (rule keepsI)
      fix k q assume A: "tshape h w t k q"
      have "fst (kvs ! i) \<in> fst ` set kvs" using located_In [OF loc] by (intro imageI nth_mem) simp
      moreover have "tree_shape (nexts h w) k q (plug (Leaf lp kvs) c)" using A d(1) by (simp add: tshape_def)
      ultimately have k: "short q (fst (kvs ! i))" by (auto simp: tree_shape_plug)
      have "keeps (\<lambda>k q. tshape h w (plug (Leaf lp kvs) c) k q \<and> short q (fst (kvs ! i)))
          (tshape h (set_page w lp b) (plug (Leaf lp (rem_at i kvs)) c))"
      proof (rule leaf_replace_keeps [OF _ s(5)])
        show "nexts h (set_page w lp b) x = nexts h w x" for x
          using ident_hd(3) [OF b(3), of h] by (simp add: nexts_def s(3))
      qed (auto simp: rem_at_def dest: in_set_takeD in_set_dropD)
      from keepsD [OF this, of k q] k A d(1)
      show "tshape h (set_page w lp b) (plug (Leaf lp (rem_at i kvs)) c) k q" by simp
    qed
    moreover have "leaf_del t (plug (Leaf lp (rem_at i kvs)) c) key"
      using located_In [OF loc] groups_plug [of "Leaf lp kvs" c] d(1) unfolding leaf_del_def
      by (intro exI [of _ "gbefore c"] exI [of _ kvs] exI [of _ "gafter c"] exI [of _ i]) (simp add: groups_plug)
    ultimately show ?thesis
      using that [of "set_page w lp b" "plug (Leaf lp (rem_at i kvs)) c"] st s(2,4) contents_rem [OF T loc] d(1)
      by auto
  qed
qed

section \<open>A new file\<close>

lemma new_writer_store:
  obtains w where "new_writer h path = Ok w" "store_ok h w (Leaf P_ROOT [])" "page_count w = 2"
    "w_psize w = 4096" "fixed_part w = (path, 4096, P_INVALID, 0, B_NODUPS)"
proof -
  have b: "(20 :: nat) \<le> 4096" "(4096 :: nat) \<le> 32768" by simp_all
  obtain b where b: "empty_page h P_ROOT 4096 P_BLEAF = Ok b" "fresh h P_BLEAF b" "length b = 4096"
    by (rule empty_page_fresh [OF b])
  define w where "w = \<lparr>w_file = path, w_psize = 4096, w_pages = replicate 4096 0 @ b, w_free = P_INVALID,
     w_nrecs = 0, w_flags = B_NODUPS\<rparr>"
  have run: "new_writer h path = Ok w"
    using b by (simp add: new_writer_def empty_leaf_def DEFAULT_PSIZE_def w_def copy_from_slice_def splice_def)
  have c: "page_count w = 2" using b(3) by (simp add: page_count_def w_def)
  have ok: "arena_ok w" using b(3) c by (simp add: arena_ok_def) (simp add: w_def)
  have p: "page_at w P_ROOT = b" using b(3) by (simp add: page_at_def w_def P_ROOT_def sub_def)
  have "store_ok h w (Leaf P_ROOT [])"
    using ok p b(2) c unfolding store_ok_def well_def
    by (simp add: fresh_def leaf_page_def in_range_def nexts_def P_ROOT_def P_INVALID_def)
  then show ?thesis using that [OF run _ c] by (simp add: w_def fixed_part_def)
qed

lemma new_writer_shape: "fan w k q \<Longrightarrow> tshape h w (Leaf P_ROOT []) k q"
  by (simp add: tshape_def tree_shape_def)

end
