(* ===== verification/Map_Store.thy ===== *)
theory Map_Store
  imports Put_Del
begin

text \<open>
  The writer as an implementation of finite maps. The interface \<open>counted_map\<close> states what a
  client relies on: a state that represents a map after \<open>n\<close> operations, an insertion that
  does not overwrite, a removal, and a number of operations within which neither fails.
\<close>

datatype op = Put_Op bytes bytes | Del_Op bytes

text \<open>The specification: a map, changed as the documentation of \<open>put\<close> and \<open>del\<close> says.\<close>

fun spec_step :: "(bytes \<rightharpoonup> bytes) \<Rightarrow> op \<Rightarrow> bool \<times> (bytes \<rightharpoonup> bytes)" where
  "spec_step m (Put_Op k v) = (m k = None, if m k = None then m(k \<mapsto> v) else m)"
| "spec_step m (Del_Op k) = (m k \<noteq> None, m(k := None))"

fun spec_run :: "(bytes \<rightharpoonup> bytes) \<Rightarrow> op list \<Rightarrow> bool list \<times> (bytes \<rightharpoonup> bytes)" where
  "spec_run m [] = ([], m)"
| "spec_run m (x # xs) =
     (let (r, m1) = spec_step m x; (rs, m2) = spec_run m1 xs in (r # rs, m2))"

fun fitting :: "(bytes \<Rightarrow> bytes \<Rightarrow> bool) \<Rightarrow> op \<Rightarrow> bool" where
  "fitting fits (Put_Op k v) = fits k v"
| "fitting fits (Del_Op k) = True"

text \<open>The same operations on an implementation, with the outcome of each.\<close>

fun run_step :: "('w \<Rightarrow> bytes \<Rightarrow> bytes \<Rightarrow> (bool outcome \<times> 'w) option) \<Rightarrow>
    ('w \<Rightarrow> bytes \<Rightarrow> (bool outcome \<times> 'w) option) \<Rightarrow> 'w \<Rightarrow> op \<Rightarrow> (bool outcome \<times> 'w) option" where
  "run_step ins rem w (Put_Op k v) = ins w k v"
| "run_step ins rem w (Del_Op k) = rem w k"

fun run_ops :: "('w \<Rightarrow> bytes \<Rightarrow> bytes \<Rightarrow> (bool outcome \<times> 'w) option) \<Rightarrow>
    ('w \<Rightarrow> bytes \<Rightarrow> (bool outcome \<times> 'w) option) \<Rightarrow> 'w \<Rightarrow> op list \<Rightarrow> (bool outcome list \<times> 'w) option" where
  "run_ops ins rem w [] = Some ([], w)"
| "run_ops ins rem w (x # xs) =
     (case run_step ins rem w x of
        None \<Rightarrow> None
      | Some (r, w1) \<Rightarrow>
          (case run_ops ins rem w1 xs of
             None \<Rightarrow> None
           | Some (rs, w2) \<Rightarrow> Some (r # rs, w2)))"

text \<open>The interface of insertion, and with removal.\<close>

locale counted_insert =
  fixes R :: "'w \<Rightarrow> (bytes \<rightharpoonup> bytes) \<Rightarrow> nat \<Rightarrow> bool" and cap :: nat
    and fits :: "bytes \<Rightarrow> bytes \<Rightarrow> bool"
    and ins :: "'w \<Rightarrow> bytes \<Rightarrow> bytes \<Rightarrow> (bool outcome \<times> 'w) option"
    and rem :: "'w \<Rightarrow> bytes \<Rightarrow> (bool outcome \<times> 'w) option"
  assumes ins_law: "R w m n \<Longrightarrow> n < cap \<Longrightarrow> fits k v \<Longrightarrow>
      \<exists>w'. ins w k v = Some (Ok (m k = None), w') \<and> R w' (if m k = None then m(k \<mapsto> v) else m) (Suc n)"
begin

text \<open>A set of operations closed under steps: all of them, or the insertions only.\<close>

lemma run_refines_on:
  assumes step: "\<And>w m n x. R w m n \<Longrightarrow> n < cap \<Longrightarrow> fitting fits x \<Longrightarrow> x \<in> A \<Longrightarrow>
      \<exists>w'. run_step ins rem w x = Some (Ok (fst (spec_step m x)), w') \<and> R w' (snd (spec_step m x)) (Suc n)"
    and "R w m n" "n + length xs \<le> cap" "\<forall>x \<in> set xs. fitting fits x" "set xs \<subseteq> A"
  shows "\<exists>w'. run_ops ins rem w xs = Some (map Ok (fst (spec_run m xs)), w') \<and>
    R w' (snd (spec_run m xs)) (n + length xs)"
  using assms(2-)
proof (induction xs arbitrary: w m n)
  case (Cons x xs)
  obtain r m1 where s: "spec_step m x = (r, m1)" by (cases "spec_step m x")
  have "n < cap" "fitting fits x" "x \<in> A" using Cons.prems(2,3,4) by simp_all
  from step [OF Cons.prems(1) this] s
  obtain w1 where w1: "run_step ins rem w x = Some (Ok r, w1)" "R w1 m1 (Suc n)" by auto
  have "Suc n + length xs \<le> cap" "\<forall>x \<in> set xs. fitting fits x" "set xs \<subseteq> A" using Cons.prems(2,3,4) by simp_all
  from Cons.IH [OF w1(2) this]
  obtain w2 where "run_ops ins rem w1 xs = Some (map Ok (fst (spec_run m1 xs)), w2)"
      "R w2 (snd (spec_run m1 xs)) (Suc n + length xs)" by blast
  then show ?case using s w1(1) by (simp add: case_prod_beta)
qed simp

lemma run_inserts:
  assumes "R w m n" "n + length kvs \<le> cap" "\<forall>(k, v) \<in> set kvs. fits k v"
  defines "xs \<equiv> map (\<lambda>(k, v). Put_Op k v) kvs"
  shows "\<exists>w'. run_ops ins rem w xs = Some (map Ok (fst (spec_run m xs)), w') \<and>
    R w' (snd (spec_run m xs)) (n + length xs)"
proof (rule run_refines_on [where A = "range (\<lambda>(k, v). Put_Op k v)"])
  fix w m n x assume "R w m n" "n < cap" "fitting fits x" "x \<in> range (\<lambda>(k, v). Put_Op k v)"
  then show "\<exists>w'. run_step ins rem w x = Some (Ok (fst (spec_step m x)), w') \<and> R w' (snd (spec_step m x)) (Suc n)"
    using ins_law by auto
qed (use assms in \<open>auto simp: xs_def\<close>)

end

locale counted_map = counted_insert +
  assumes rem_law: "R w m n \<Longrightarrow>
      \<exists>w'. rem w k = Some (Ok (m k \<noteq> None), w') \<and> R w' (m(k := None)) (Suc n)"
begin

lemma step_refines:
  assumes "R w m n" "n < cap" "fitting fits x"
  shows "\<exists>w'. run_step ins rem w x = Some (Ok (fst (spec_step m x)), w') \<and> R w' (snd (spec_step m x)) (Suc n)"
  using assms ins_law rem_law by (cases x) auto

lemma run_refines:
  assumes "R w m n" "n + length xs \<le> cap" "\<forall>x \<in> set xs. fitting fits x"
  shows "\<exists>w'. run_ops ins rem w xs = Some (map Ok (fst (spec_run m xs)), w') \<and>
    R w' (snd (spec_run m xs)) (n + length xs)"
  by (rule run_refines_on [where A = UNIV, OF step_refines assms]) simp_all

end

section \<open>The writer\<close>

text \<open>
  A file with the constant fields \<open>fp\<close> after at most \<open>n\<close> operations: an insertion adds at
  most a page per level and the root, at most one level, and at most one leaf. \<open>k\<close> and \<open>q\<close>
  say what shape the tree keeps: any (\<open>k = 1\<close>), or, while all keys are short, at least two
  children in the nodes off the right spine (\<open>k = 2\<close>). In a file that was only inserted
  into, no leaf is empty but that of the empty file.
\<close>

type_synonym file_consts = "string \<times> nat \<times> u32 \<times> u32 \<times> u32"

definition stored_in ::
  "nat \<Rightarrow> nat \<Rightarrow> endian \<Rightarrow> file_consts \<Rightarrow> writer \<Rightarrow> (bytes \<rightharpoonup> bytes) \<Rightarrow> nat \<Rightarrow> btree \<Rightarrow> bool" where
  "stored_in k q h fp w m n t \<longleftrightarrow> store_ok h w t \<and> contents t = m \<and> fixed_part w = fp \<and>
     tshape h w t k q \<and> length (leaf_pgs t) \<le> Suc n \<and>
     ht t \<le> n \<and> page_count w \<le> 2 + n * (n + 3) \<and> length (flat t) \<le> n"

definition stored :: "endian \<Rightarrow> file_consts \<Rightarrow> writer \<Rightarrow> (bytes \<rightharpoonup> bytes) \<Rightarrow> nat \<Rightarrow> btree \<Rightarrow> bool" where
  "stored h fp w m n t \<longleftrightarrow> (\<exists>k q. stored_in k q h fp w m n t)"

definition stores :: "nat \<Rightarrow> nat \<Rightarrow> endian \<Rightarrow> file_consts \<Rightarrow> writer \<Rightarrow> (bytes \<rightharpoonup> bytes) \<Rightarrow> nat \<Rightarrow> bool" where
  "stores k q h fp w m n \<longleftrightarrow> (\<exists>t. stored_in k q h fp w m n t)"

definition filled :: "btree \<Rightarrow> bool" where
  "filled t \<longleftrightarrow> groups t = [[]] \<or> [] \<notin> set (groups t)"

definition stores_filled ::
  "nat \<Rightarrow> nat \<Rightarrow> endian \<Rightarrow> file_consts \<Rightarrow> writer \<Rightarrow> (bytes \<rightharpoonup> bytes) \<Rightarrow> nat \<Rightarrow> bool" where
  "stores_filled k q h fp w m n \<longleftrightarrow> (\<exists>t. stored_in k q h fp w m n t \<and> filled t)"

definition fits :: "nat \<Rightarrow> bytes \<Rightarrow> bytes \<Rightarrow> bool" where
  "fits ps k v \<longleftrightarrow> leaf_bytes (k, v) + 2 \<le> (ps - 20) div 2"

text \<open>How many operations keep the page numbers below 2 to the power of 31.\<close>

definition capacity :: "nat \<Rightarrow> nat" where
  "capacity k = (if k = 2 then 1073741724 else 46000)"

lemma capacity_pages:
  fixes n :: nat
  assumes "n < 46000" shows "2 + n * (n + 3) < 2 ^ 31"
proof -
  have "n * (n + 3) \<le> 46000 * (46000 + 3)" using assms by (intro mult_le_mono) simp_all
  then show ?thesis by simp
qed

lemma stored_page_count:
  assumes S: "stored_in k q h fp w m n t" and n: "n < capacity k"
  shows "page_count w < 2 ^ 31"
proof (cases "k = 2")
  case True
  have S': "store_ok h w t" "tree_shape (nexts h w) 2 q t" "length (leaf_pgs t) \<le> Suc n"
    using S True by (simp_all add: stored_in_def tshape_def)
  note sh = tree_shape_height [OF S'(2)]
  have n2: "Suc n \<le> 1073741724" using n True by (simp add: capacity_def)
  have "ht t - 1 < 30"
  proof (rule ccontr)
    assume "\<not> ht t - 1 < 30"
    then have "(2 :: nat) ^ 30 \<le> 2 ^ (ht t - 1)" by (intro power_increasing) simp_all
    moreover have "ht t \<noteq> 0" using \<open>\<not> ht t - 1 < 30\<close> by auto
    ultimately show False using sh(1) S'(3) n2 by simp
  qed
  moreover have "well h w [t] []" using S'(1) by (simp add: store_ok_def)
  then have "page_count w = Suc (length (pgs t))" by (rule well_page_numbers(2))
  ultimately show ?thesis using sh(2) S'(3) n2 by simp
next
  case False
  then show ?thesis using S n capacity_pages [of n] by (auto simp: stored_in_def capacity_def)
qed

lemma page_budget: "2 + n * (n + 3) + n + 2 \<le> 2 + Suc n * (Suc n + 3)"
  by (simp add: algebra_simps)

lemma leaf_put_facts:
  assumes "leaf_put t t' k v"
  shows "length (flat t') = Suc (length (flat t))" "filled t \<Longrightarrow> filled t'"
proof -
  obtain ls kvs rs i gs where g: "groups t = ls @ kvs # rs" "groups t' = ls @ gs @ rs"
      "concat gs = ins_at i (k, v) kvs" "[] \<notin> set gs"
    using assms by (auto simp: leaf_put_def)
  have "length (concat gs) = Suc (length kvs)" using g(3) by (simp add: ins_at_def)
  moreover have "length (flat t) = length (concat (ls @ kvs # rs))" "length (flat t') = length (concat (ls @ gs @ rs))"
    using g(1,2) concat_groups(1) by metis+
  ultimately show "length (flat t') = Suc (length (flat t))" by simp
  show "filled t \<Longrightarrow> filled t'" using g by (auto simp: filled_def append_eq_Cons_conv)
qed

lemma leaf_del_length: "leaf_del t t' k \<Longrightarrow> length (flat t') < length (flat t)"
  unfolding concat_groups(1) [symmetric] leaf_del_def by (auto simp: rem_at_def)

lemma leaf_put_leaves: "leaf_put t t' k v \<Longrightarrow> length (leaf_pgs t') \<le> Suc (length (leaf_pgs t))"
  unfolding length_groups(1) [symmetric] leaf_put_def by auto

lemma leaf_del_leaves: "leaf_del t t' k \<Longrightarrow> length (leaf_pgs t') = length (leaf_pgs t)"
  unfolding length_groups(1) [symmetric] leaf_del_def by auto

lemma put_stored:
  assumes R: "stored_in c q h fp w m n t" and n: "n < capacity c"
    and k: "fits (fst (snd fp)) k v" "short q k"
  obtains w' t' where "put h w k v = Some (Ok (m k = None), w')"
    "stored_in c q h fp w' (if m k = None then m(k \<mapsto> v) else m) (Suc n) t'" "filled t \<Longrightarrow> filled t'"
proof -
  have t: "store_ok h w t" "contents t = m" "fixed_part w = fp" "ht t \<le> n"
      "page_count w \<le> 2 + n * (n + 3)" "length (flat t) \<le> n" "tshape h w t c q" "length (leaf_pgs t) \<le> Suc n"
    using R by (simp_all add: stored_in_def)
  have ps: "w_psize w = fst (snd fp)" using t(3) by (auto simp: fixed_part_def)
  have small: "leaf_bytes (k, v) + 2 \<le> half_page w" using k(1) by (simp add: fits_def half_page_def ps)
  have cnt: "page_count w < 2 ^ 31" by (rule stored_page_count [OF R n])
  obtain w' t' where w': "put h w k v = Some (Ok (contents t k = None), w')" "store_ok h w' t'"
      "contents t' = (if contents t k = None then (contents t)(k \<mapsto> v) else contents t)"
      "page_count w' \<le> page_count w + ht t + 2" "ht t' \<le> Suc (ht t)" "fixed_part w' = fixed_part w"
      "contents t k \<noteq> None \<Longrightarrow> w' = w \<and> t' = t" "contents t k = None \<Longrightarrow> leaf_put t t' k v"
      "keeps (\<lambda>c q. tshape h w t c q \<and> short q k) (tshape h w' t')"
    by (rule put_store [OF t(1) small cnt], rule that)
  have pc: "page_count w' \<le> 2 + Suc n * (Suc n + 3)" using w'(4) t(4,5) page_budget [of n] by linarith
  have "length (flat t') \<le> Suc n" "filled t \<Longrightarrow> filled t'"
    using w'(7,8) leaf_put_facts [of t t' k v] t(6) by (cases "contents t k"; force)+
  moreover have "length (leaf_pgs t') \<le> Suc (Suc n)"
    using w'(7,8) leaf_put_leaves [of t t' k v] t(8) by (cases "contents t k") force+
  moreover have "tshape h w' t' c q" using keepsD [OF w'(9)] t(7) k(2) by simp
  ultimately show ?thesis
    using that [of w' t'] w' t pc by (simp add: stored_in_def)
qed

lemma del_stored_in:
  assumes R: "stored_in c q h fp w m n t"
  obtains w' t' where "del h w k = Some (Ok (m k \<noteq> None), w')" "stored_in c q h fp w' (m(k := None)) (Suc n) t'"
    "m k \<noteq> None \<Longrightarrow> leaf_del t t' k" "m k = None \<Longrightarrow> t' = t"
proof -
  have t: "store_ok h w t" "contents t = m" "fixed_part w = fp" "ht t \<le> n"
      "page_count w \<le> 2 + n * (n + 3)" "length (flat t) \<le> n" "tshape h w t c q" "length (leaf_pgs t) \<le> Suc n"
    using R by (simp_all add: stored_in_def)
  obtain w' t' where w': "del h w k = Some (Ok (contents t k \<noteq> None), w')" "store_ok h w' t'"
      "contents t' = (contents t)(k := None)"
      "page_count w' = page_count w" "ht t' \<le> ht t" "fixed_part w' = fixed_part w"
      "contents t k = None \<Longrightarrow> w' = w \<and> t' = t" "contents t k \<noteq> None \<Longrightarrow> leaf_del t t' k"
      "keeps (tshape h w t) (tshape h w' t')"
    by (rule del_store [OF t(1)], rule that)
  have pc: "page_count w' \<le> 2 + Suc n * (Suc n + 3)" using w'(4) t(5) page_budget [of n] by linarith
  have "length (flat t') \<le> Suc n" "length (leaf_pgs t') \<le> Suc (Suc n)"
    using w'(7,8) leaf_del_length [of t t' k] leaf_del_leaves [of t t' k] t(6,8)
    by (cases "contents t k"; force)+
  moreover have "tshape h w' t' c q" using keepsD [OF w'(9)] t(7) by simp
  ultimately show ?thesis using that [of w' t'] w' t pc by (simp add: stored_in_def)
qed

lemma del_stored:
  assumes R: "stored h fp w m n t"
  obtains w' t' where "del h w k = Some (Ok (m k \<noteq> None), w')" "stored h fp w' (m(k := None)) (Suc n) t'"
    "m k \<noteq> None \<Longrightarrow> leaf_del t t' k" "m k = None \<Longrightarrow> t' = t"
proof -
  obtain c q where S: "stored_in c q h fp w m n t" using R by (auto simp: stored_def)
  obtain w' t' where "del h w k = Some (Ok (m k \<noteq> None), w')" "stored_in c q h fp w' (m(k := None)) (Suc n) t'"
      "m k \<noteq> None \<Longrightarrow> leaf_del t t' k" "m k = None \<Longrightarrow> t' = t"
    by (rule del_stored_in [OF S, of k], rule that)
  then show ?thesis using that [of w' t'] by (auto simp: stored_def)
qed

lemma new_writer_stored:
  assumes "c = 1 \<or> c = 2 \<and> q \<le> 1019"
  obtains w where "new_writer h path = Ok w"
    "stored_in c q h (path, 4096, P_INVALID, 0, B_NODUPS) w Map.empty 0 (Leaf P_ROOT [])"
proof -
  obtain w where w: "new_writer h path = Ok w" "store_ok h w (Leaf P_ROOT [])" "page_count w = 2"
      "w_psize w = 4096" "fixed_part w = (path, 4096, P_INVALID, 0, B_NODUPS)"
    by (rule new_writer_store)
  have "fan w c q" using assms w(4) by (auto simp: fan_def half_page_def)
  then show ?thesis using that w new_writer_shape by (simp add: stored_in_def contents_def)
qed

interpretation file_map: counted_map "stores c q h fp" "capacity c"
  "\<lambda>k v. fits (fst (snd fp)) k v \<and> short q k" "put h" "del h" for c q h fp
proof unfold_locales
  show "\<exists>w'. put h w k v = Some (Ok (m k = None), w') \<and>
      stores c q h fp w' (if m k = None then m(k \<mapsto> v) else m) (Suc n)"
    if "stores c q h fp w m n" "n < capacity c" "fits (fst (snd fp)) k v \<and> short q k" for w m n k v
    using that put_stored [of c q h fp w m n _ k v] unfolding stores_def by metis
  show "\<exists>w'. del h w k = Some (Ok (m k \<noteq> None), w') \<and> stores c q h fp w' (m(k := None)) (Suc n)"
    if "stores c q h fp w m n" for w m n k
    using that del_stored_in [of c q h fp w m n _ k] unfolding stores_def by metis
qed

interpretation filled_map: counted_insert "stores_filled c q h fp" "capacity c"
  "\<lambda>k v. fits (fst (snd fp)) k v \<and> short q k" "put h" "del h" for c q h fp
proof unfold_locales
  show "\<exists>w'. put h w k v = Some (Ok (m k = None), w') \<and>
      stores_filled c q h fp w' (if m k = None then m(k \<mapsto> v) else m) (Suc n)"
    if "stores_filled c q h fp w m n" "n < capacity c" "fits (fst (snd fp)) k v \<and> short q k" for w m n k v
    using that put_stored [of c q h fp w m n _ k v] unfolding stores_filled_def by metis
qed

section \<open>Workloads\<close>

text \<open>
  The runs that the theorems about a new file cover: every entry within half a page, and
  either a moderate number of operations or, if no key is longer than 1007 bytes, which is
  what keeps the separators within a quarter of a page, a very large one.
\<close>

definition manageable :: "op list \<Rightarrow> bool" where
  "manageable ops \<longleftrightarrow> (\<forall>x \<in> set ops. fitting (fits 4096) x) \<and>
     (length ops \<le> 46000 \<or>
      length ops \<le> 1073741724 \<and> (\<forall>x \<in> set ops. fitting (\<lambda>k v. length k \<le> 1007) x))"

lemma short_1019: "length k \<le> 1007 \<Longrightarrow> short 1019 k"
  using align_entry_mono [of "9 + length k" 1016] by (simp add: short_def key_bytes_def align_entry_eq)

lemma fits_short: "fits 4096 k v \<Longrightarrow> short 2038 k"
  using key_bytes_leaf [of "(k, v)"] by (simp add: fits_def short_def)

lemma fitting_mono: "fitting P x \<Longrightarrow> (\<And>k v. P k v \<Longrightarrow> Q k v) \<Longrightarrow> fitting Q x"
  by (cases x) auto

lemma fitting_both: "fitting P x \<Longrightarrow> fitting Q x \<Longrightarrow> fitting (\<lambda>k v. P k v \<and> Q k v) x"
  by (cases x) auto

lemma manageable_run:
  assumes "manageable ops"
  obtains c q where "c = 1 \<or> c = 2 \<and> q \<le> (1019 :: nat)" "length ops \<le> capacity c"
    "\<forall>x \<in> set ops. fitting (\<lambda>k v. fits 4096 k v \<and> short q k) x"
proof (cases "length ops \<le> 46000")
  case True
  then show ?thesis using assms that [of 1 2038] fits_short
    by (auto simp: manageable_def capacity_def intro: fitting_mono)
next
  case False
  then have "length ops \<le> 1073741724" "\<forall>x \<in> set ops. fitting (fits 4096) x"
    "\<forall>x \<in> set ops. fitting (\<lambda>k v. length k \<le> 1007) x"
    using assms by (auto simp: manageable_def)
  moreover from this have "\<forall>x \<in> set ops. fitting (\<lambda>k v. fits 4096 k v \<and> short 1019 k) x"
    using fitting_both [of "fits 4096" _ "\<lambda>k v. short 1019 k"]
      fitting_mono [of "\<lambda>k v. length k \<le> 1007" _ "\<lambda>k v. short 1019 k", OF _ short_1019] by blast
  ultimately show ?thesis using that [of 2 1019] by (simp add: capacity_def)
qed

end
