(* ===== verification/Writer_Theorems.thy ===== *)
theory Writer_Theorems
  imports Map_Store
begin

text \<open>
  What the operations of the writer promise, each on its own: \<open>put\<close>, \<open>del\<close>, the descent,
  the size check, \<open>create_new\<close> and \<open>finish\<close>, and the pages after any run of operations.
\<close>

section \<open>put and del\<close>

text \<open>
  C4: one \<open>put\<close>. On a well-formed file, with an entry within half a page and fewer than 2
  to the power of 31 pages in use, \<open>put\<close> returns whether the key was absent and leaves a well-formed file that holds the old entries and,
  if the key was absent, the new one; an existing value is kept and the file is unchanged.
\<close>

theorem put_inserts_if_absent:
  assumes "store_ok h w t" "fits (w_psize w) key val" "page_count w < 2 ^ 31"
  shows "\<exists>w' t'. put h w key val = Some (Ok (contents t key = None), w') \<and> store_ok h w' t' \<and>
    contents t' = (if contents t key = None then (contents t)(key \<mapsto> val) else contents t) \<and>
    (contents t key \<noteq> None \<longrightarrow> w' = w) \<and> fixed_part w' = fixed_part w"
proof -
  have small: "leaf_bytes (key, val) + 2 \<le> half_page w" using assms(2) by (simp add: fits_def half_page_def)
  obtain w' t' where "put h w key val = Some (Ok (contents t key = None), w')" "store_ok h w' t'"
    "contents t' = (if contents t key = None then (contents t)(key \<mapsto> val) else contents t)"
    "fixed_part w' = fixed_part w" "contents t key \<noteq> None \<Longrightarrow> w' = w \<and> t' = t"
    by (rule put_store [OF assms(1) small assms(3)], rule that)
  then show ?thesis by (intro exI [of _ w'] exI [of _ t']) simp
qed

lemma put_inserts_if_absent_witness:
  "\<exists>w w' t'. new_writer Little ''f'' = Ok w \<and> put Little w [1] [2] = Some (Ok True, w') \<and>
    store_ok Little w' t' \<and> contents t' = [[1] \<mapsto> [2]]"
proof -
  obtain w where w: "new_writer Little ''f'' = Ok w" "store_ok Little w (Leaf P_ROOT [])" "page_count w = 2"
      "w_psize w = 4096" by (rule new_writer_store)
  have "fits (w_psize w) [1] [2]" by (simp add: w fits_def leaf_bytes_def align_entry_eq)
  from put_inserts_if_absent [OF w(2) this] w show ?thesis by (auto simp: contents_def)
qed

text \<open>
  C5: one \<open>del\<close>. On a well-formed file \<open>del\<close> returns whether the key was present and leaves
  a well-formed file with exactly that key removed; no page is added or freed.
\<close>

theorem del_removes:
  assumes "store_ok h w t"
  shows "\<exists>w' t'. del h w key = Some (Ok (contents t key \<noteq> None), w') \<and> store_ok h w' t' \<and>
    contents t' = (contents t)(key := None) \<and> page_count w' = page_count w \<and>
    (contents t key = None \<longrightarrow> w' = w) \<and> fixed_part w' = fixed_part w"
proof -
  obtain w' t' where "del h w key = Some (Ok (contents t key \<noteq> None), w')" "store_ok h w' t'"
    "contents t' = (contents t)(key := None)" "page_count w' = page_count w" "fixed_part w' = fixed_part w"
    "contents t key = None \<Longrightarrow> w' = w \<and> t' = t"
    by (rule del_store [OF assms], rule that)
  then show ?thesis by (intro exI [of _ w'] exI [of _ t']) simp
qed

lemma del_removes_witness:
  "\<exists>w w' t'. del Big w [1] = Some (Ok True, w') \<and> store_ok Big w' t' \<and> contents t' = Map.empty"
proof -
  obtain w where w: "new_writer Big ''f'' = Ok w" "store_ok Big w (Leaf P_ROOT [])" "page_count w = 2"
      "w_psize w = 4096" by (rule new_writer_store)
  have small: "leaf_bytes ([1], [2]) + 2 \<le> half_page w"
    by (simp add: w half_page_def leaf_bytes_def align_entry_eq)
  have cnt: "page_count w < 2 ^ 31" by (simp add: w)
  obtain w1 t1 where w1: "store_ok Big w1 t1" "contents t1 = [[1] \<mapsto> [2]]"
    by (rule put_store [OF w(2) small cnt]) (use that in \<open>simp add: contents_def\<close>)
  from del_removes [OF w1(1), of "[1]"] w1(2) show ?thesis by auto
qed

section \<open>The descent\<close>

lemma slots_pages: "set (map fst (slots c)) \<subseteq> set (cpgs c)" "distinct (cpgs c) \<Longrightarrow> distinct (map fst (slots c))"
proof (induction c)
  case (Cons f c)
  obtain p ls k rs where f: "f = (p, ls, k, rs)" by (cases f)
  { case 1 then show ?case using Cons.IH(1) f by auto }
  { case 2 then show ?case using Cons.IH f by auto }
qed simp_all

text \<open>
  C11: the descent ends. On a well-formed file, for every key, \<open>descend\<close> returns after at
  most as many rounds as the tree is high, at a leaf of the tree, without visiting a page
  twice and only at pages that exist.
\<close>

theorem descend_reaches_leaf:
  assumes "store_ok h w t"
  shows "\<exists>path leaf. descend h w key = Some (Ok \<lparr>sp_path = path, sp_leaf_pgno = leaf\<rparr>) \<and>
    leaf \<in> set (leaf_pgs t) \<and> length path \<le> ht t \<and> distinct (map fst path @ [leaf]) \<and>
    (\<forall>p \<in> set (map fst path @ [leaf]). 1 \<le> unat p \<and> unat p < page_count w)"
proof -
  obtain c lp kvs where d: "plug (Leaf lp kvs) c = t" "well h w [Leaf lp kvs] c"
    "descend h w key = Some (Ok \<lparr>sp_path = rev (slots c), sp_leaf_pgno = lp\<rparr>)"
    by (rule descend_store [OF assms, of key])
  have "lp \<in> set (leaf_pgs t)" using leaf_pgs_plug [of "Leaf lp kvs" c] d(1) by simp
  moreover have "length (rev (slots c)) \<le> ht t"
    using length_ht [of "Leaf lp kvs" c] d(1) by (simp add: slots_def)
  moreover have "distinct (map fst (rev (slots c)) @ [lp])"
    using slots_pages [of c] wellD(7) [OF d(2)] by (auto simp: rev_map [symmetric])
  moreover have "1 \<le> unat p \<and> unat p < page_count w" if "p \<in> set (map fst (rev (slots c)) @ [lp])" for p
    using that slots_pages(1) [of c] wellD(8) [OF d(2), of p] by (auto simp: in_range_def)
  ultimately show ?thesis using d(3) by blast
qed

lemma descend_reaches_leaf_witness:
  "\<exists>w path leaf. new_writer Little ''f'' = Ok w \<and>
    descend Little w [1] = Some (Ok \<lparr>sp_path = path, sp_leaf_pgno = leaf\<rparr>) \<and> leaf = P_ROOT \<and> path = []"
proof -
  obtain w where w: "new_writer Little ''f'' = Ok w" "store_ok Little w (Leaf P_ROOT [])"
    by (rule new_writer_store)
  from descend_reaches_leaf [OF w(2), of "[1]"] w(1) show ?thesis by auto
qed

section \<open>Errors\<close>

text \<open>
  C22: the size check. When the entry with its slot exceeds the usable part of an empty page,
  or the key as a separator beside the empty first key of a new root does, \<open>put\<close> returns
  \<open>EntryTooLarge\<close> with both lengths, on any state of the writer, and changes nothing.
\<close>

theorem put_rejects_too_large:
  assumes "20 \<le> w_psize w"
    and "w_psize w < 22 + leaf_bytes (key, val) \<or> w_psize w < 36 + key_bytes key"
  shows "put h w key val = Some (Err (EntryTooLarge (length key) (length val)), w)"
proof -
  have "align_entry 9 = 12" by (simp add: align_entry_eq)
  then have "entry_too_large (w_psize w) (length key) (length val) = Ok True"
    using assms by (auto simp: entry_too_large_def leaf_bytes_def key_bytes_def)
  then show ?thesis by (rule put_too_large)
qed

lemma put_rejects_too_large_witness:
  "\<exists>w. new_writer Big ''f'' = Ok w \<and> put Big w [] (replicate 4066 1) = Some (Err (EntryTooLarge 0 4066), w)"
proof -
  obtain w where w: "new_writer Big ''f'' = Ok w" "w_psize w = 4096" by (rule new_writer_store)
  have "put Big w [] (replicate 4066 1) = Some (Err (EntryTooLarge (length ([] :: bytes)) (length (replicate 4066 (1 :: u8)))), w)"
    by (rule put_rejects_too_large) (simp_all add: w leaf_bytes_def align_entry_eq)
  with w show ?thesis by simp
qed

text \<open>
  C23: creating a file. \<open>create_new\<close> refuses a path that has a file and touches nothing; an
  error of the environment also leaves every file as it was; on success the file exists and
  is empty, every other file is unchanged, and the builder holds no entry.
\<close>

theorem create_new_cases:
  "case create_new h env fs path of
     (Ok w, fs') \<Rightarrow> fs path = None \<and> env_create env path = None \<and> fs' = fs(path \<mapsto> []) \<and>
       w_file w = path \<and> (\<exists>t. store_ok h w t \<and> contents t = Map.empty)
   | (Err e, fs') \<Rightarrow> fs' = fs \<and>
       (if fs path \<noteq> None then e = Io AlreadyExists else \<exists>e'. env_create env path = Some e' \<and> e = Io e')
   | (Panic, fs') \<Rightarrow> False"
proof -
  obtain w where w: "new_writer h path = Ok w" "store_ok h w (Leaf P_ROOT [])"
      "fixed_part w = (path, 4096, P_INVALID, 0, B_NODUPS)"
    by (rule new_writer_store)
  then have "w_file w = path \<and> (\<exists>t. store_ok h w t \<and> contents t = Map.empty)"
    by (auto simp: fixed_part_def contents_def intro!: exI [of _ "Leaf P_ROOT []"])
  then show ?thesis using w(1) by (auto simp: create_new_def split: option.split)
qed

section \<open>Runs of operations\<close>

text \<open>The state of a builder after a run of operations on a new file.\<close>

lemma stored_new_file:
  assumes "stored h (path, 4096, P_INVALID, 0, B_NODUPS) w m n t"
  shows "store_ok h w t" "contents t = m" "w_file w = path" "w_psize w = 4096" "w_flags w = B_NODUPS"
    "length (flat t) \<le> n" "balanced (ht t) t"
proof -
  obtain c q where S: "stored_in c q h (path, 4096, P_INVALID, 0, B_NODUPS) w m n t"
    using assms by (auto simp: stored_def)
  then show "store_ok h w t" "contents t = m" "w_file w = path" "w_psize w = 4096" "w_flags w = B_NODUPS"
    "length (flat t) \<le> n" by (simp_all add: stored_in_def fixed_part_def)
  show "balanced (ht t) t"
    using S by (intro tree_shape_balanced [of "nexts h w" c q]) (auto simp: stored_in_def tshape_def fan_def)
qed

lemma built_in:
  assumes "c = 1 \<or> c = 2 \<and> q \<le> 1019" "length ops \<le> capacity c"
    and "\<forall>x \<in> set ops. fitting (\<lambda>k v. fits 4096 k v \<and> short q k) x"
  obtains w0 w t where "new_writer h path = Ok w0"
    "run_ops (put h) (del h) w0 ops = Some (map Ok (fst (spec_run Map.empty ops)), w)"
    "stored_in c q h (path, 4096, P_INVALID, 0, B_NODUPS) w (snd (spec_run Map.empty ops)) (length ops) t"
proof -
  obtain w0 where w0: "new_writer h path = Ok w0"
      "stored_in c q h (path, 4096, P_INVALID, 0, B_NODUPS) w0 Map.empty 0 (Leaf P_ROOT [])"
    by (rule new_writer_stored [OF assms(1)])
  from file_map.run_refines [of c q h "(path, 4096, P_INVALID, 0, B_NODUPS)" w0 Map.empty 0 ops] assms(2,3) w0
  show ?thesis using that unfolding stores_def by auto
qed

lemma built_store:
  assumes "manageable ops"
  obtains w0 w t where "new_writer h path = Ok w0"
    "run_ops (put h) (del h) w0 ops = Some (map Ok (fst (spec_run Map.empty ops)), w)"
    "stored h (path, 4096, P_INVALID, 0, B_NODUPS) w (snd (spec_run Map.empty ops)) (length ops) t"
proof -
  obtain c q where cq: "c = 1 \<or> c = 2 \<and> q \<le> (1019 :: nat)" "length ops \<le> capacity c"
      "\<forall>x \<in> set ops. fitting (\<lambda>k v. fits 4096 k v \<and> short q k) x"
    by (rule manageable_run [OF assms])
  obtain w0 w t where "new_writer h path = Ok w0"
      "run_ops (put h) (del h) w0 ops = Some (map Ok (fst (spec_run Map.empty ops)), w)"
      "stored_in c q h (path, 4096, P_INVALID, 0, B_NODUPS) w (snd (spec_run Map.empty ops)) (length ops) t"
    by (rule built_in [OF cq])
  then show ?thesis using that unfolding stored_def by blast
qed

lemma built_filled_store:
  defines "put_all \<equiv> map (\<lambda>(k, v). Put_Op k v)"
  assumes "manageable (put_all kvs)"
  obtains w0 w t where "new_writer h path = Ok w0"
    "run_ops (put h) (del h) w0 (put_all kvs) = Some (map Ok (fst (spec_run Map.empty (put_all kvs))), w)"
    "stored h (path, 4096, P_INVALID, 0, B_NODUPS) w (snd (spec_run Map.empty (put_all kvs))) (length (put_all kvs)) t"
    "filled t"
proof -
  obtain c q where cq: "c = 1 \<or> c = 2 \<and> q \<le> (1019 :: nat)" "length (put_all kvs) \<le> capacity c"
      "\<forall>x \<in> set (put_all kvs). fitting (\<lambda>k v. fits 4096 k v \<and> short q k) x"
    by (rule manageable_run [OF assms(2)])
  then have fit: "\<forall>(k, v) \<in> set kvs. fits 4096 k v \<and> short q k" by (auto simp: put_all_def)
  obtain w0 where w0: "new_writer h path = Ok w0"
      "stored_in c q h (path, 4096, P_INVALID, 0, B_NODUPS) w0 Map.empty 0 (Leaf P_ROOT [])"
    by (rule new_writer_stored [OF cq(1)])
  moreover have "filled (Leaf P_ROOT [])" by (simp add: filled_def)
  ultimately obtain w t where
      "run_ops (put h) (del h) w0 (put_all kvs) = Some (map Ok (fst (spec_run Map.empty (put_all kvs))), w)"
      "stored_in c q h (path, 4096, P_INVALID, 0, B_NODUPS) w (snd (spec_run Map.empty (put_all kvs)))
         (length (put_all kvs)) t" "filled t"
    using filled_map.run_inserts [of c q h "(path, 4096, P_INVALID, 0, B_NODUPS)" w0 Map.empty 0 kvs] cq(2) fit
    unfolding stores_filled_def put_all_def by auto
  with w0(1) show ?thesis using that unfolding stored_def by blast
qed

text \<open>Every page of a tree is a leaf page or an internal page, as its place in the tree says.\<close>

lemma tree_page_kind:
  "rep h P t \<Longrightarrow> distinct (pgs t) \<Longrightarrow> p \<in> set (pgs t) \<Longrightarrow>
     (p \<in> set (leaf_pgs t) \<and> (\<exists>kvs. leaf_page h (P p) kvs)) \<or>
     (p \<notin> set (leaf_pgs t) \<and> (\<exists>kcs. int_page h (P p) kcs))"
  "reps h P kts \<Longrightarrow> distinct (pgs_l kts) \<Longrightarrow> p \<in> set (pgs_l kts) \<Longrightarrow>
     (p \<in> set (leaf_pgs_l kts) \<and> (\<exists>kvs. leaf_page h (P p) kvs)) \<or>
     (p \<notin> set (leaf_pgs_l kts) \<and> (\<exists>kcs. int_page h (P p) kcs))"
proof (induction t and kts rule: leaf_pgs_leaf_pgs_l.induct)
  case (2 q kts)
  then show ?case using leaf_pgs_subset(2) [of kts] by auto
next
  case (4 kt kts)
  then show ?case using leaf_pgs_subset(1) [of "snd kt"] leaf_pgs_subset(2) [of kts] by auto
qed auto

lemma leaf_not_internal: "leaf_page h buf kvs \<Longrightarrow> \<not> pv_is_internal (view_of h p buf False)"
  by (simp add: leaf_page_def pv_is_internal_def view_of_simps P_BLEAF_def P_BINTERNAL_def)



section \<open>Runs of any length\<close>

text \<open>
  The specification with the documented error: an entry beyond the bounds is rejected and the
  map stays. \<open>admissible\<close> leaves out only the entries in between, which take more than half
  a page and are not rejected.
\<close>

definition oversized :: "nat \<Rightarrow> bytes \<Rightarrow> bytes \<Rightarrow> bool" where
  "oversized ps k v \<longleftrightarrow> ps < 22 + leaf_bytes (k, v) \<or> ps < 36 + key_bytes k"

fun admissible :: "nat \<Rightarrow> op \<Rightarrow> bool" where
  "admissible ps (Put_Op k v) = (oversized ps k v \<or> fits ps k v)"
| "admissible ps (Del_Op k) = True"

fun checked_step :: "nat \<Rightarrow> (bytes \<rightharpoonup> bytes) \<Rightarrow> op \<Rightarrow> bool outcome \<times> (bytes \<rightharpoonup> bytes)" where
  "checked_step ps m (Put_Op k v) =
     (if oversized ps k v then (Err (EntryTooLarge (length k) (length v)), m)
      else (Ok (m k = None), if m k = None then m(k \<mapsto> v) else m))"
| "checked_step ps m (Del_Op k) = (Ok (m k \<noteq> None), m(k := None))"

fun checked_run :: "nat \<Rightarrow> (bytes \<rightharpoonup> bytes) \<Rightarrow> op list \<Rightarrow> bool outcome list \<times> (bytes \<rightharpoonup> bytes)" where
  "checked_run ps m [] = ([], m)"
| "checked_run ps m (x # xs) =
     (let (r, m1) = checked_step ps m x; (rs, m2) = checked_run ps m1 xs in (r # rs, m2))"

lemma put_oversized:
  assumes "arena_ok w" "oversized (w_psize w) k v"
  shows "put h w k v = Some (Err (EntryTooLarge (length k) (length v)), w)"
proof -
  have "20 \<le> w_psize w" using arena_bounds [OF assms(1)] by simp
  moreover have "align_entry 9 = 12" by (simp add: align_entry_eq)
  ultimately have "entry_too_large (w_psize w) (length k) (length v) = Ok True"
    using assms(2) by (auto simp: entry_too_large_def oversized_def leaf_bytes_def key_bytes_def)
  then show ?thesis by (rule put_too_large)
qed

lemma checked_step_store:
  assumes S: "store_ok h w t" and A: "admissible (w_psize w) x" and cnt: "page_count w < 2 ^ 31"
  obtains w' t' where
    "run_step (put h) (del h) w x = Some (fst (checked_step (w_psize w) (contents t) x), w')"
    "store_ok h w' t'" "contents t' = snd (checked_step (w_psize w) (contents t) x)" "fixed_part w' = fixed_part w"
proof (cases x)
  case (Del_Op k)
  show ?thesis by (rule del_store [OF S, of k]) (use that Del_Op in simp)
next
  case (Put_Op k v)
  show ?thesis
  proof (cases "oversized (w_psize w) k v")
    case True
    have "arena_ok w" using S wellD(1) by (auto simp: store_ok_def)
    then show ?thesis using that [of w t] S True Put_Op put_oversized [of w k v h] by simp
  next
    case False
    then have small: "leaf_bytes (k, v) + 2 \<le> half_page w"
      using A Put_Op by (simp add: fits_def half_page_def)
    show ?thesis by (rule put_store [OF S small cnt]) (use that Put_Op False in simp)
  qed
qed

lemma checked_run_store:
  assumes "store_ok h w t" "\<forall>x \<in> set ops. admissible (w_psize w) x"
  shows "\<exists>n w' t'. n \<le> length ops \<and>
    run_ops (put h) (del h) w (take n ops) = Some (fst (checked_run (w_psize w) (contents t) (take n ops)), w') \<and>
    store_ok h w' t' \<and> contents t' = snd (checked_run (w_psize w) (contents t) (take n ops)) \<and>
    fixed_part w' = fixed_part w \<and> (n = length ops \<or> 2 ^ 31 \<le> page_count w')"
  using assms
proof (induction ops arbitrary: w t)
  case (Cons x xs)
  show ?case
  proof (cases "page_count w < 2 ^ 31")
    case False
    then show ?thesis using Cons.prems(1) by (intro exI [of _ 0] exI [of _ w] exI [of _ t]) simp
  next
    case True
    have A: "admissible (w_psize w) x" using Cons.prems(2) by simp
    obtain w1 t1 where 1: "run_step (put h) (del h) w x = Some (fst (checked_step (w_psize w) (contents t) x), w1)"
        "store_ok h w1 t1" "contents t1 = snd (checked_step (w_psize w) (contents t) x)" "fixed_part w1 = fixed_part w"
      by (rule checked_step_store [OF Cons.prems(1) A True])
    have ps: "w_psize w1 = w_psize w" by (rule fixed_psize [OF 1(4)])
    have "\<forall>x \<in> set xs. admissible (w_psize w1) x" using Cons.prems(2) ps by simp
    from Cons.IH [OF 1(2) this] obtain n w' t' where
      "n \<le> length xs"
      "run_ops (put h) (del h) w1 (take n xs) = Some (fst (checked_run (w_psize w1) (contents t1) (take n xs)), w')"
      "store_ok h w' t'" "contents t' = snd (checked_run (w_psize w1) (contents t1) (take n xs))"
      "fixed_part w' = fixed_part w1" "n = length xs \<or> 2 ^ 31 \<le> page_count w'"
      by blast
    then show ?thesis using 1 ps
      by (intro exI [of _ "Suc n"] exI [of _ w'] exI [of _ t']) (auto simp: case_prod_beta)
  qed
qed auto

text \<open>
  C9: runs of any length, rejected entries included. Run any list of operations on a new
  file, each a deletion, a put within half a page, or a put that the size check rejects.
  The operations return what the map gives, \<open>EntryTooLarge\<close> for the rejected ones, and the
  file stays well-formed and holds exactly the map, up to the end of the list or until
  the file has 2 to the power of 31 pages.
\<close>

theorem runs_until_full:
  assumes "\<forall>x \<in> set ops. admissible 4096 x"
  shows "\<exists>w0 n w t. new_writer h path = Ok w0 \<and> n \<le> length ops \<and>
    run_ops (put h) (del h) w0 (take n ops) = Some (fst (checked_run 4096 Map.empty (take n ops)), w) \<and>
    store_ok h w t \<and> contents t = snd (checked_run 4096 Map.empty (take n ops)) \<and>
    (n = length ops \<or> 2 ^ 31 \<le> page_count w)"
proof -
  obtain w0 where w0: "new_writer h path = Ok w0" "store_ok h w0 (Leaf P_ROOT [])" "w_psize w0 = 4096"
    by (rule new_writer_store)
  have "contents (Leaf P_ROOT []) = Map.empty" by (simp add: contents_def)
  with checked_run_store [OF w0(2), of ops] w0 assms show ?thesis by auto
qed

lemma runs_until_full_witness:
  "\<exists>w0 n w t. new_writer Big ''f'' = Ok w0 \<and> n \<le> 3 \<and>
    run_ops (put Big) (del Big) w0 (take n [Put_Op [1] [2], Put_Op [] (replicate 4066 1), Del_Op [1]])
      = Some (take n [Ok True, Err (EntryTooLarge 0 4066), Ok True], w) \<and>
    store_ok Big w t \<and> (n = 3 \<or> 2 ^ 31 \<le> page_count w)"
proof -
  let ?ops = "[Put_Op [1] [2], Put_Op [] (replicate 4066 1), Del_Op [1]]"
  have o: "oversized 4096 [] (replicate 4066 1)" "\<not> oversized 4096 [1] [2]" "fits 4096 [1] [2]"
    by (simp_all add: oversized_def fits_def leaf_bytes_def key_bytes_def align_entry_eq)
  then have "\<forall>x \<in> set ?ops. admissible 4096 x" by simp
  from runs_until_full [OF this, of Big "''f''"]
  obtain w0 n w t where w: "new_writer Big ''f'' = Ok w0" "n \<le> length ?ops"
      "run_ops (put Big) (del Big) w0 (take n ?ops) = Some (fst (checked_run 4096 Map.empty (take n ?ops)), w)"
      "store_ok Big w t" "n = length ?ops \<or> 2 ^ 31 \<le> page_count w"
    by blast
  have "fst (checked_run 4096 Map.empty (take n ?ops)) = take n [Ok True, Err (EntryTooLarge 0 4066), Ok True]"
    using o by (simp add: take_Cons' Let_def)
  moreover have "length ?ops = 3" by simp
  ultimately have "n \<le> 3 \<and> run_ops (put Big) (del Big) w0 (take n ?ops)
      = Some (take n [Ok True, Err (EntryTooLarge 0 4066), Ok True], w) \<and> (n = 3 \<or> 2 ^ 31 \<le> page_count w)"
    using w(2,3,5) by (simp only: simp_thms)
  with w(1,4) show ?thesis by blast
qed

end
