(* ===== verification/File_Image.thy ===== *)
theory File_Image
  imports Map_Store
begin

text \<open>
  From the writer to the reader: the image that \<open>finish\<close> writes is the arena with the meta
  page in front; a reader on a host of either byte order accepts it and sees the same pages.
\<close>

section \<open>The meta page\<close>

lemma write_u32_eq: "off + 4 \<le> length buf \<Longrightarrow> write_u32 h buf off v = Ok (wr32 h buf off v)"
  by (simp add: write_u32_def copy_from_slice_def wr32_def)

lemma build_meta_ok:
  assumes "512 \<le> ps" "ps \<le> 32768"
  obtains m where "build_meta h ps free nrecs flags = Ok m" "length m = ps"
    "sub m 0 4 = u32_to_ne_bytes h BTREE_MAGIC" "sub m 4 4 = u32_to_ne_bytes h BTREE_VERSION"
    "sub m 8 4 = u32_to_ne_bytes h (of_nat ps)" "sub m 20 4 = u32_to_ne_bytes h flags"
proof -
  let ?p1 = "wr32 h (replicate ps 0) 0 BTREE_MAGIC"
  let ?p2 = "wr32 h ?p1 4 BTREE_VERSION"
  let ?p3 = "wr32 h ?p2 8 (of_nat ps)"
  let ?p4 = "wr32 h ?p3 12 free"
  let ?p5 = "wr32 h ?p4 16 nrecs"
  let ?p6 = "wr32 h ?p5 20 flags"
  have len: "length ?p1 = ps" "length ?p2 = ps" "length ?p3 = ps" "length ?p4 = ps" "length ?p5 = ps"
    "length ?p6 = ps"
    using assms by (simp_all add: wr32_def)
  have run: "build_meta h ps free nrecs flags = Ok ?p6"
    using assms len by (simp add: build_meta_def write_u32_eq psize_as_u32_def)
  have "sub ?p6 0 4 = u32_to_ne_bytes h BTREE_MAGIC" "sub ?p6 4 4 = u32_to_ne_bytes h BTREE_VERSION"
    "sub ?p6 8 4 = u32_to_ne_bytes h (of_nat ps)" "sub ?p6 20 4 = u32_to_ne_bytes h flags"
    using assms by (simp_all add: wr32_def sub_simps)
  with run len(6) show ?thesis using that by blast
qed

lemma magic_not_symmetric: "u32_swap_bytes BTREE_MAGIC \<noteq> BTREE_MAGIC"
  by (simp add: u32_swap_bytes_def u32_of_be_def u32_to_be_def BTREE_MAGIC_def)

lemma magic_swap: "(u32_from_ne_bytes hr (u32_to_ne_bytes hw BTREE_MAGIC) \<noteq> BTREE_MAGIC) = (hr \<noteq> hw)"
proof (cases "hr = hw")
  case False
  then have "hr = flip hw" by (cases hr; cases hw) simp_all
  then have "u32_from_ne_bytes hr (u32_to_ne_bytes hw BTREE_MAGIC) = u32_swap_bytes BTREE_MAGIC"
    using u32c.swap_dec [of "u32_to_ne_bytes hw BTREE_MAGIC" hw] by simp
  with magic_not_symmetric False show ?thesis by simp
qed simp

text \<open>What \<open>Meta::parse\<close> reads on a host \<open>hr\<close> from a meta page written on a host \<open>hw\<close>.\<close>

lemma meta_parse_image:
  assumes "24 \<le> length b"
    and "sub b 0 4 = u32_to_ne_bytes hw BTREE_MAGIC" "sub b 4 4 = u32_to_ne_bytes hw v"
    "sub b 8 4 = u32_to_ne_bytes hw ps" "sub b 20 4 = u32_to_ne_bytes hw fl"
  shows "meta_parse hr (sub b 0 24) =
    (\<lparr>m_magic = BTREE_MAGIC, m_version = v, m_psize = ps, m_flags = fl\<rparr>, hr \<noteq> hw)"
proof -
  let ?b = "sub b 0 24"
  have len: "length ?b = 24" using assms(1) by simp
  have s: "sub ?b 0 4 = u32_to_ne_bytes hw BTREE_MAGIC" "sub ?b 4 4 = u32_to_ne_bytes hw v"
    "sub ?b 8 4 = u32_to_ne_bytes hw ps" "sub ?b 20 4 = u32_to_ne_bytes hw fl"
    using assms by (simp_all add: sub_simps)
  have m: "[?b ! 0, ?b ! 1, ?b ! 2, ?b ! 3] = u32_to_ne_bytes hw BTREE_MAGIC"
    using four_bytes [of 0 ?b] len s(1) by (simp add: numeral_2_eq_2)
  have sw: "(u32_from_ne_bytes hr [?b ! 0, ?b ! 1, ?b ! 2, ?b ! 3] \<noteq> BTREE_MAGIC) = (hr \<noteq> hw)"
    unfolding m by (rule magic_swap)
  have w: "meta_word hr ?b (hr \<noteq> hw) 0 = BTREE_MAGIC" "meta_word hr ?b (hr \<noteq> hw) 4 = v"
    "meta_word hr ?b (hr \<noteq> hw) 8 = ps" "meta_word hr ?b (hr \<noteq> hw) 20 = fl"
    by (subst meta_word_eq; simp add: len s eff_neq)+
  show ?thesis unfolding meta_parse_def Let_def sw w ..
qed

section \<open>The image\<close>

lemma finish_image_ok:
  assumes S: "store_ok h w t"
  obtains img m where "finish_image h w = Ok img" "length img = page_count w * w_psize w"
    "length m = w_psize w" "build_meta h (w_psize w) (w_free w) (w_nrecs w) (w_flags w) = Ok m"
    "sub img 0 (w_psize w) = m"
    "\<And>p :: u32. 1 \<le> unat p \<Longrightarrow> unat p < page_count w \<Longrightarrow> sub img (unat p * w_psize w) (w_psize w) = page_at w p"
proof -
  have W: "well h w [t] []" and pg: "pg t = P_ROOT" using S by (simp_all add: store_ok_def)
  have ok: "arena_ok w" by (rule wellD(1) [OF W])
  note ab = arena_bounds [OF ok]
  have "P_ROOT \<in> set (pgs t)" using pg_in_pgs [of t] pg by simp
  then have pc: "1 < page_count w" using wellD(8) [OF W, of P_ROOT] by (simp add: in_range_def P_ROOT_def)
  obtain m where m: "build_meta h (w_psize w) (w_free w) (w_nrecs w) (w_flags w) = Ok m" "length m = w_psize w"
    using build_meta_ok [of "w_psize w"] ab by metis
  have big: "w_psize w \<le> length (w_pages w)" using pc ab by (cases "page_count w") auto
  have ne: "w_pages w \<noteq> []" "w_psize w \<noteq> 0" "length (w_pages w) mod w_psize w = 0"
    using big ab by auto
  let ?img = "splice (w_pages w) 0 m"
  have run: "finish_image h w = Ok ?img"
    using ne m big by (simp add: finish_image_def copy_from_slice_def)
  have "sub ?img (unat p * w_psize w) (w_psize w) = page_at w p"
    if p: "1 \<le> unat p" "unat p < page_count w" for p :: u32
  proof -
    have "length m \<le> unat p * w_psize w" using p(1) m(2) by (cases "unat p") auto
    then show ?thesis using m(2) big by (simp add: page_at_def sub_splice_other)
  qed
  moreover have "length ?img = page_count w * w_psize w" using ab m(2) big by simp
  moreover have "sub ?img 0 (w_psize w) = m" using m(2) big by (simp add: sub_simps)
  ultimately show ?thesis using that [OF run _ m(2,1)] by blast
qed

text \<open>A database handle that sees the pages of a writer.\<close>

definition serves :: "endian \<Rightarrow> db \<Rightarrow> endian \<Rightarrow> writer \<Rightarrow> bool" where
  "serves hr d hw w \<longleftrightarrow> eff hr (db_swap d) = hw \<and>
     (\<forall>p. 1 \<le> unat p \<longrightarrow> unat p < page_count w \<longrightarrow> db_page d p = Ok (page_at w p))"

lemma open_image:
  assumes S: "store_ok hw w t" and ps: "even (w_psize w)" and fl: "w_flags w = B_NODUPS"
    and img: "finish_image hw w = Ok img"
  obtains d where "open_mapped hr img = Ok d" "serves hr d hw w" "db_psize d = w_psize w"
    "db_swap d = (hr \<noteq> hw)" "db_mmap d = img"
proof -
  obtain img' m where i: "finish_image hw w = Ok img'" "length img' = page_count w * w_psize w"
    "length m = w_psize w" "build_meta hw (w_psize w) (w_free w) (w_nrecs w) (w_flags w) = Ok m"
    "sub img' 0 (w_psize w) = m"
    "\<And>p :: u32. 1 \<le> unat p \<Longrightarrow> unat p < page_count w \<Longrightarrow> sub img' (unat p * w_psize w) (w_psize w) = page_at w p"
    by (rule finish_image_ok [OF S], rule that)
  have eq: "img' = img" using i(1) img by simp
  have W: "well hw w [t] []" using S by (simp add: store_ok_def)
  have ok: "arena_ok w" by (rule wellD(1) [OF W])
  note ab = arena_bounds [OF ok]
  have P: "pg t \<in> set (pgs t)" by (rule pg_in_pgs)
  then have pc: "1 \<le> page_count w" using wellD(8) [OF W, of "pg t"] by (simp add: in_range_def)
  have ab': "512 \<le> w_psize w" "w_psize w \<le> 32768" using ab by simp_all
  obtain m' where m': "build_meta hw (w_psize w) (w_free w) (w_nrecs w) (w_flags w) = Ok m'"
    "length m' = w_psize w"
    "sub m' 0 4 = u32_to_ne_bytes hw BTREE_MAGIC" "sub m' 4 4 = u32_to_ne_bytes hw BTREE_VERSION"
    "sub m' 8 4 = u32_to_ne_bytes hw (of_nat (w_psize w))" "sub m' 20 4 = u32_to_ne_bytes hw (w_flags w)"
    by (rule build_meta_ok [OF ab'])
  have mm: "m' = m" using m'(1) i(4) by simp
  have big: "w_psize w \<le> length img" using i(2) eq pc by (cases "page_count w") auto
  have head: "sub img off 4 = sub m off 4" if "off + 4 \<le> w_psize w" for off
    using that i(5) eq big by (metis add.left_neutral sub_sub)
  have words: "sub img 0 4 = u32_to_ne_bytes hw BTREE_MAGIC" "sub img 4 4 = u32_to_ne_bytes hw BTREE_VERSION"
    "sub img 8 4 = u32_to_ne_bytes hw (of_nat (w_psize w))" "sub img 20 4 = u32_to_ne_bytes hw (w_flags w)"
    using m' mm ab head by simp_all
  have len: "24 \<le> length img" using big ab by simp
  note mp = meta_parse_image [OF len words, of hr]
  let ?d = "\<lparr>db_mmap = img, db_psize = w_psize w, db_swap = (hr \<noteq> hw)\<rparr>"
  have u: "unat (of_nat (w_psize w) :: u32) = w_psize w" using ab by simp
  have flags: "B_NODUPS AND NOT SAVEMETA = 0" "B_NODUPS AND R_RECNO = 0"
    by (simp_all add: B_NODUPS_def SAVEMETA_def R_RECNO_def)
  have par: "w_psize w AND 1 = 0" using ps by (simp add: and_one_eq even_iff_mod_2_eq_zero)
  have md: "length img mod w_psize w = 0" using i(2) eq by simp
  have "open_mapped hr img = Ok ?d"
    using len ab md par flags unfolding open_mapped_def sizes mp prod.case Let_def meta.simps u fl by simp
  moreover have "serves hr ?d hw w"
  proof -
    have "db_page ?d p = Ok (page_at w p)" if p: "1 \<le> unat p" "unat p < page_count w" for p
    proof -
      have "(unat p + 1) * w_psize w \<le> page_count w * w_psize w" using p(2) by (intro mult_le_mono1) simp
      then have "unat p * w_psize w + w_psize w \<le> length img" using i(2) eq by simp
      then show ?thesis using i(6) [OF p] eq
        by (simp add: db_page_def get_range_def ok_or_def Let_def)
    qed
    then show ?thesis by (simp add: serves_def eff_neq)
  qed
  ultimately show ?thesis using that by simp
qed

end
