(* ===== verification/Reader_Store.thy ===== *)
theory Reader_Store
  imports File_Image
begin

text \<open>
  The reader on a file that the writer built: \<open>search\<close> returns on every key, and
  \<open>get\<close> is a lookup in the contents of the tree, on hosts of either byte order.
\<close>

lemma db_view_leaf:
  assumes "db_page d p = Ok buf" "leaf_page (eff hr (db_swap d)) buf kvs"
  shows "db_view hr d p = Ok (view_of hr p buf (db_swap d))" "pv_is_leaf (view_of hr p buf (db_swap d))"
    "pv_nentries (view_of hr p buf (db_swap d)) = length kvs"
  using parse_leaf_page [OF assms(2), of p] assms(1) by (simp_all add: db_view_def)

lemma db_view_int:
  assumes "db_page d p = Ok buf" "int_page (eff hr (db_swap d)) buf kcs"
  shows "db_view hr d p = Ok (view_of hr p buf (db_swap d))"
    "\<not> pv_is_leaf (view_of hr p buf (db_swap d))" "pv_is_internal (view_of hr p buf (db_swap d))"
    "pv_nentries (view_of hr p buf (db_swap d)) = length kcs"
  using parse_int_page [OF assms(2), of p] assms(1) by (simp_all add: db_view_def)

lemma serves_page:
  assumes "serves hr d hw w" "well hw w ts c" "p \<in> set (all_pgs ts @ cpgs c)"
  shows "db_page d p = Ok (page_at w p)"
  using assms(1) page_len [OF assms(2,3)] by (simp add: serves_def)

text \<open>The descent ends in the leaf that is responsible for the key.\<close>

lemma search_from_tree:
  assumes "rep (eff hr (db_swap d)) P t" "tree_ok lo hi t" "lo \<le> key" "below key hi"
    and "\<And>p. p \<in> set (pgs t) \<Longrightarrow> db_page d p = Ok (P p)"
  shows "\<exists>c lp kvs. plug (Leaf lp kvs) c = t \<and>
    search_from hr d key (pg t) = Some (search_leaf hr d (view_of hr lp (P lp) (db_swap d)) key) \<and>
    hole_lo lo c \<le> key \<and> below key (hole_hi hi c)"
  using assms
proof (induction t arbitrary: lo hi rule: measure_induct_rule [where f = size])
  case (less t)
  show ?case
  proof (cases t)
    case (Leaf lp kvs)
    have pb: "db_page d lp = Ok (P lp)" using less.prems(5) Leaf by simp
    have L: "leaf_page (eff hr (db_swap d)) (P lp) kvs" using less.prems(1) Leaf by simp
    have "search_from hr d key lp = Some (search_leaf hr d (view_of hr lp (P lp) (db_swap d)) key)"
      using db_view_leaf [OF pb L] by (subst search_from.simps) simp
    then show ?thesis using less.prems(3,4) Leaf
      by (intro exI [of _ "[]"] exI [of _ lp] exI [of _ kvs]) simp
  next
    case (Node p kts)
    note ok = less.prems(2) [unfolded Node]
    have pb: "db_page d p = Ok (P p)" using less.prems(5) Node by simp
    have I: "int_page (eff hr (db_swap d)) (P p) (heads kts)" using less.prems(1) Node by simp
    have ne: "heads kts \<noteq> []" and asc: "ascending (heads kts)" and hd: "fst (heads kts ! 0) \<le> key"
      using ok less.prems(3) kids_ascending [of hi kts] by (auto simp: hd_conv_nth)
    obtain i where di: "descend_internal hr d (view_of hr p (P p) (db_swap d)) key = Ok (snd (heads kts ! i))"
        and i: "child_slot (heads kts) key i"
      by (rule descend_internal_page [OF I asc ne hd])
    note ch = chosen_child [OF ok less.prems(4) i]
    let ?t = "snd (kts ! i)" and ?k = "fst (kts ! i)" and ?rs = "drop (Suc i) kts"
    have mem: "kts ! i \<in> set kts" using ch(2) by simp
    have sub: "set (pgs ?t) \<subseteq> set (pgs t)"
    proof -
      have "set (pgs_l (xs @ kt # ys)) \<supseteq> set (pgs (snd kt))" for xs kt ys by auto
      then have "set (pgs ?t) \<subseteq> set (pgs_l kts)" using ch(1) by (metis snd_conv)
      then show ?thesis using Node by auto
    qed
    have child: "snd (heads kts ! i) = pg ?t" using ch(2) by simp
    have step: "search_from hr d key p = search_from hr d key (pg ?t)"
      using db_view_int [OF pb I] di child by (subst search_from.simps) simp
    have "rep (eff hr (db_swap d)) P ?t" using reps_nth [OF _ ch(2)] less.prems(1) Node by simp
    from less.IH [OF _ this ch(3,4,5)] size_child [OF mem, of p] Node less.prems(5) sub
    obtain c lp kvs where IH: "plug (Leaf lp kvs) c = ?t"
      "search_from hr d key (pg ?t) = Some (search_leaf hr d (view_of hr lp (P lp) (db_swap d)) key)"
      "hole_lo ?k c \<le> key" "below key (hole_hi (nxt hi ?rs) c)"
      by blast
    let ?c = "c @ [(p, take i kts, ?k, ?rs)]"
    have "plug (Leaf lp kvs) ?c = t" using IH(1) ch(1) Node by (simp add: plug_append)
    moreover have "hole_lo lo ?c \<le> key" "below key (hole_hi hi ?c)"
      using IH(3,4) by (simp_all add: hole_append)
    ultimately show ?thesis using IH(2) step Node
      by (intro exI [of _ ?c] exI [of _ lp] exI [of _ kvs]) simp
  qed
qed

text \<open>The position that \<open>search\<close> returns holds the key, and its absence means that there is none.\<close>

lemma search_store:
  assumes S: "store_ok hw w t" and V: "serves hr d hw w"
  obtains (found) p i kvs c where "search hr d key = Some (Ok (Some \<lparr>pos_pgno = p, pos_index = i\<rparr>))"
    "t = plug (Leaf p kvs) c" "well hw w [Leaf p kvs] c" "located kvs key True i"
  | (absent) "search hr d key = Some (Ok None)" "contents t key = None"
proof -
  have W: "well hw w [t] []" and pg: "pg t = P_ROOT" and ok: "tree_ok [] None t"
    using S by (simp_all add: store_ok_def)
  have e: "eff hr (db_swap d) = hw" using V by (simp add: serves_def)
  have pb: "db_page d p = Ok (page_at w p)" if "p \<in> set (pgs t)" for p
    using serves_page [OF V W, of p] that by simp
  have R: "rep (eff hr (db_swap d)) (page_at w) t" using wellD(3) [OF W] e by simp
  have "[] \<le> key" by simp
  from search_from_tree [OF R ok this _ pb]
  obtain c lp kvs where c: "plug (Leaf lp kvs) c = t"
      "search hr d key = Some (search_leaf hr d (view_of hr lp (page_at w lp) (db_swap d)) key)"
      "hole_lo [] c \<le> key" "below key (hole_hi None c)"
    unfolding search_def pg [symmetric] by auto
  have Wc: "well hw w [Leaf lp kvs] c" using W c(1) well_plug by metis
  have T: "tree_ok [] None (plug (Leaf lp kvs) c)" using ok c(1) by simp
  have "tree_ok (hole_lo [] c) (hole_hi None c) (Leaf lp kvs)" using tree_ok_hole(1) [OF T] by simp
  then have asc: "ascending kvs" by simp
  have L: "leaf_page (eff hr (db_swap d)) (page_at w lp) kvs" using wellD(3) [OF Wc] e by simp
  show ?thesis
  proof (rule search_leaf_page [OF L asc, of d lp key])
    fix i assume "search_leaf hr d (view_of hr lp (page_at w lp) (db_swap d)) key =
        Ok (Some \<lparr>pos_pgno = lp, pos_index = i\<rparr>)" "i < length kvs" "fst (kvs ! i) = key"
    then show thesis using found [of lp i kvs c] c Wc by (simp add: located_def)
  next
    assume a: "search_leaf hr d (view_of hr lp (page_at w lp) (db_swap d)) key = Ok None"
      "key \<notin> fst ` set kvs"
    have "contents t key = None"
      using outside_hole [OF T _ c(3,4)] a(2) unfolding c(1) [symmetric] contents_def flat_plug
      by (auto simp: map_of_eq_None_iff)
    then show thesis using absent a(1) c(2) by simp
  qed
qed

lemma get_store:
  assumes S: "store_ok hw w t" and V: "serves hr d hw w"
  shows "db_get hr d key = Some (Ok (contents t key))"
proof (rule search_store [OF S V, of key])
  fix p i kvs c assume a: "search hr d key = Some (Ok (Some \<lparr>pos_pgno = p, pos_index = i\<rparr>))"
    "t = plug (Leaf p kvs) c" "well hw w [Leaf p kvs] c" "located kvs key True i"
  have pb: "db_page d p = Ok (page_at w p)" by (rule serves_page [OF V a(3)]) simp
  have L: "leaf_page (eff hr (db_swap d)) (page_at w p) kvs"
    using wellD(3) [OF a(3)] V by (simp add: serves_def)
  note v = db_view_leaf [OF pb L]
  obtain ki di where e: "pv_leaf_entry hr (view_of hr p (page_at w p) (db_swap d)) i = Ok \<lparr>le_key = ki, le_data = di\<rparr>"
    "\<And>d'. materialise hr d' (view_of hr p (page_at w p) (db_swap d)) di = Ok (snd (kvs ! i))"
    using leaf_entry_page [OF L, of i p] located_In [OF a(4)] by metis
  have "tree_ok [] None (plug (Leaf p kvs) c)" using S a(2) by (simp add: store_ok_def)
  from contents_found [OF this a(4)] show ?thesis
    using a(1,2) v(1) e by (simp add: db_get_def)
qed (simp add: db_get_def)

section \<open>The scan\<close>

text \<open>The leaves of a tree from left to right.\<close>

fun leaves :: "btree \<Rightarrow> (u32 \<times> (bytes \<times> bytes) list) list"
and leaves_l :: "(bytes \<times> btree) list \<Rightarrow> (u32 \<times> (bytes \<times> bytes) list) list" where
  "leaves (Leaf p kvs) = [(p, kvs)]"
| "leaves (Node p kts) = leaves_l kts"
| "leaves_l [] = []"
| "leaves_l (kt # kts) = leaves (snd kt) @ leaves_l kts"

lemma leaves_pgs: "map fst (leaves t) = leaf_pgs t" "map fst (leaves_l kts) = leaf_pgs_l kts"
  by (induction t and kts rule: leaves_leaves_l.induct) simp_all

lemma leaves_flat: "concat (map snd (leaves t)) = flat t" "concat (map snd (leaves_l kts)) = flats kts"
  by (induction t and kts rule: leaves_leaves_l.induct) simp_all

lemma leaves_rep:
  "rep h P t \<Longrightarrow> x \<in> set (leaves t) \<Longrightarrow> leaf_page h (P (fst x)) (snd x)"
  "reps h P kts \<Longrightarrow> x \<in> set (leaves_l kts) \<Longrightarrow> leaf_page h (P (fst x)) (snd x)"
  by (induction t and kts rule: leaves_leaves_l.induct) auto

lemma leaves_not_Nil: "tree_ok lo hi t \<Longrightarrow> leaves t \<noteq> []" "kids_ok hi kts \<Longrightarrow> kts \<noteq> [] \<Longrightarrow> leaves_l kts \<noteq> []"
  by (induction lo hi t and hi kts rule: tree_ok_kids_ok.induct) auto

end
