(* ===== verification/Scan.thy ===== *)
theory Scan
  imports Reader_Store Iter
begin

text \<open>
  The sequential scan of a file that the writer built: along the chain of leaves it yields
  the entries in order, skipping empty leaves, and then ends.
\<close>

section \<open>The chain of leaves\<close>

definition chain_ok :: "endian \<Rightarrow> db \<Rightarrow> (u32 \<Rightarrow> bytes) \<Rightarrow> (u32 \<times> (bytes \<times> bytes) list) list \<Rightarrow> bool" where
  "chain_ok hr d P ls \<longleftrightarrow>
     (\<forall>(p, kvs) \<in> set ls. p \<noteq> P_INVALID \<and> db_page d p = Ok (P p) \<and>
        leaf_page (eff hr (db_swap d)) (P p) kvs) \<and>
     links (\<lambda>p. hd_next (eff hr (db_swap d)) (P p)) (map fst ls)"

definition head_page :: "(u32 \<times> 'a) list \<Rightarrow> u32" where
  "head_page ls = (case ls of [] \<Rightarrow> P_INVALID | x # _ \<Rightarrow> fst x)"

lemma links_ConsD: "links nx (p # ps) \<Longrightarrow> links nx ps \<and> nx p = (case ps of [] \<Rightarrow> P_INVALID | q # _ \<Rightarrow> q)"
  by (cases ps) auto

lemma chain_ConsD:
  assumes "chain_ok hr d P ((p, kvs) # ls)"
  shows "chain_ok hr d P ls" "p \<noteq> P_INVALID" "db_page d p = Ok (P p)"
    "leaf_page (eff hr (db_swap d)) (P p) kvs"
    "hd_next (eff hr (db_swap d)) (P p) = head_page ls"
  using assms links_ConsD [of "\<lambda>p. hd_next (eff hr (db_swap d)) (P p)" p "map fst ls"]
  by (auto simp: chain_ok_def head_page_def split: list.splits)

text \<open>The first entry at or after the head of a chain.\<close>

fun first_state :: "endian \<Rightarrow> db \<Rightarrow> (u32 \<Rightarrow> bytes) \<Rightarrow> (u32 \<times> (bytes \<times> bytes) list) list \<Rightarrow> iter_state" where
  "first_state hr d P [] = Done"
| "first_state hr d P ((p, kvs) # ls) =
     (if kvs = [] then first_state hr d P ls
      else Active \<lparr>cur_view = view_of hr p (P p) (db_swap d), cur_index = 0\<rparr>)"

lemma advance_leaf_chain:
  "chain_ok hr d P ls \<Longrightarrow> advance_leaf hr d (head_page ls) = Some (Ok (first_state hr d P ls))"
proof (induction ls)
  case Nil
  show ?case by (subst advance_leaf.simps) (simp add: head_page_def)
next
  case (Cons x ls)
  obtain p kvs where x: "x = (p, kvs)" by (cases x)
  note c = chain_ConsD [OF Cons.prems [unfolded x]]
  note v = db_view_leaf [OF c(3,4)]
  have hp: "head_page ((p, kvs) # ls) = p" by (simp add: head_page_def)
  show ?case unfolding x hp
    using c(2,5) v Cons.IH [OF c(1)] by (subst advance_leaf.simps) simp
qed

section \<open>Positions of the iterator\<close>

text \<open>\<open>at_pos st xs\<close>: in the state \<open>st\<close> the entries \<open>xs\<close> are still to come.\<close>

definition at_pos :: "endian \<Rightarrow> db \<Rightarrow> (u32 \<Rightarrow> bytes) \<Rightarrow> iter_state \<Rightarrow> (bytes \<times> bytes) list \<Rightarrow> bool" where
  "at_pos hr d P st xs \<longleftrightarrow>
     (st = Done \<and> xs = []) \<or>
     (\<exists>p kvs ls i. st = Active \<lparr>cur_view = view_of hr p (P p) (db_swap d), cur_index = i\<rparr> \<and>
        i < length kvs \<and> chain_ok hr d P ((p, kvs) # ls) \<and> xs = drop i kvs @ concat (map snd ls))"

lemma at_first_state: "chain_ok hr d P ls \<Longrightarrow> at_pos hr d P (first_state hr d P ls) (concat (map snd ls))"
proof (induction ls)
  case (Cons x ls)
  obtain p kvs where x: "x = (p, kvs)" by (cases x)
  show ?case
  proof (cases "kvs = []")
    case True
    then show ?thesis using Cons.IH chain_ConsD(1) Cons.prems x by auto
  next
    case False
    then show ?thesis using Cons.prems unfolding at_pos_def x
      by (intro disjI2 exI [of _ p] exI [of _ kvs] exI [of _ ls] exI [of _ 0]) simp
  qed
qed (simp add: at_pos_def)

definition entry_of :: "bytes \<times> bytes \<Rightarrow> entry" where
  "entry_of kv = \<lparr>entry_key = fst kv, entry_value = snd kv\<rparr>"

lemma yield_current_chain:
  assumes i: "i < length kvs" and C: "chain_ok hr d P ((p, kvs) # ls)"
  defines "v \<equiv> view_of hr p (P p) (db_swap d)"
  shows "yield_current hr d \<lparr>cur_view = v, cur_index = i\<rparr> =
    Some (Ok (entry_of (kvs ! i)),
      if i + 1 < length kvs then Active \<lparr>cur_view = v, cur_index = i + 1\<rparr> else first_state hr d P ls)"
proof -
  note c = chain_ConsD [OF C]
  note w = db_view_leaf [OF c(3,4), folded v_def]
  obtain ki di where e: "pv_leaf_entry hr v i = Ok \<lparr>le_key = ki, le_data = di\<rparr>"
    "\<And>d'. materialise hr d' v ki = Ok (fst (kvs ! i))" "\<And>d'. materialise hr d' v di = Ok (snd (kvs ! i))"
    using leaf_entry_page [OF c(4) i, of p, folded v_def] by metis
  have nx: "pv_next_pg v = head_page ls" using c(5) by (simp add: v_def)
  show ?thesis
    using e w(3) nx advance_leaf_chain [OF c(1)] by (simp add: yield_current_def entry_of_def)
qed

lemma iter_next_at:
  assumes "at_pos hr d P st xs"
  shows "case xs of
      [] \<Rightarrow> iter_next hr \<lparr>it_db = d, it_state = st\<rparr> = Some (None, \<lparr>it_db = d, it_state = st\<rparr>)
    | x # ys \<Rightarrow> \<exists>st'. iter_next hr \<lparr>it_db = d, it_state = st\<rparr> =
        Some (Some (Ok (entry_of x)), \<lparr>it_db = d, it_state = st'\<rparr>) \<and> at_pos hr d P st' ys"
  using assms unfolding at_pos_def [of _ _ _ st xs]
proof (elim disjE conjE exE)
  assume "st = Done" "xs = []"
  then show ?thesis by (subst iter_next.simps) simp
next
  fix p kvs ls i
  let ?v = "view_of hr p (P p) (db_swap d)"
  assume st: "st = Active \<lparr>cur_view = ?v, cur_index = i\<rparr>" and i: "i < length kvs"
    and C: "chain_ok hr d P ((p, kvs) # ls)" and xs: "xs = drop i kvs @ concat (map snd ls)"
  define st' where "st' = (if i + 1 < length kvs then Active \<lparr>cur_view = ?v, cur_index = i + 1\<rparr>
    else first_state hr d P ls)"
  have n: "iter_next hr \<lparr>it_db = d, it_state = st\<rparr> =
      Some (Some (Ok (entry_of (kvs ! i))), \<lparr>it_db = d, it_state = st'\<rparr>)"
    using yield_current_chain [OF i C] st by (subst iter_next.simps) (simp add: st'_def)
  have xs': "xs = kvs ! i # drop (Suc i) kvs @ concat (map snd ls)"
    using i by (simp add: xs Cons_nth_drop_Suc [symmetric])
  have "at_pos hr d P st' (drop (Suc i) kvs @ concat (map snd ls))"
  proof (cases "i + 1 < length kvs")
    case True
    then show ?thesis using C unfolding at_pos_def st'_def
      by (intro disjI2 exI [of _ p] exI [of _ kvs] exI [of _ ls] exI [of _ "i + 1"]) simp
  next
    case False
    then show ?thesis using at_first_state [OF chain_ConsD(1) [OF C]] by (simp add: st'_def)
  qed
  with n show ?thesis by (simp add: xs')
qed

lemma collect_at:
  "at_pos hr d P st xs \<Longrightarrow> length xs < n \<Longrightarrow>
   iter_collect n hr \<lparr>it_db = d, it_state = st\<rparr> = Some (map (\<lambda>x. Ok (entry_of x)) xs, True)"
proof (induction n arbitrary: st xs)
  case (Suc n)
  note nx = iter_next_at [OF Suc.prems(1)]
  show ?case
  proof (cases xs)
    case Nil
    then show ?thesis using nx by simp
  next
    case (Cons x ys)
    then obtain st' where s: "iter_next hr \<lparr>it_db = d, it_state = st\<rparr> =
        Some (Some (Ok (entry_of x)), \<lparr>it_db = d, it_state = st'\<rparr>)" "at_pos hr d P st' ys"
      using nx by auto
    have "length ys < n" using Suc.prems(2) Cons by simp
    from Suc.IH [OF s(2) this] show ?thesis using s(1) Cons by simp
  qed
qed simp

section \<open>The start of the scan\<close>

text \<open>\<open>initial_state\<close> goes to the leftmost leaf and ends the scan when that leaf is empty.\<close>

definition start_state :: "endian \<Rightarrow> db \<Rightarrow> (u32 \<Rightarrow> bytes) \<Rightarrow> (u32 \<times> (bytes \<times> bytes) list) list \<Rightarrow> iter_state" where
  "start_state hr d P ls = (if snd (hd ls) = [] then Done else first_state hr d P ls)"

lemma hd_leaves_l: "kids_ok hi kts \<Longrightarrow> kts \<noteq> [] \<Longrightarrow> hd (leaves_l kts) = hd (leaves (snd (hd kts)))"
  using leaves_not_Nil(1) by (cases kts) fastforce+

lemma initial_state_tree:
  assumes "rep (eff hr (db_swap d)) P t" "tree_ok lo hi t"
    and "\<And>p. p \<in> set (pgs t) \<Longrightarrow> db_page d p = Ok (P p)"
  shows "initial_state_from hr d (pg t) = Some (Ok (start_state hr d P (leaves t)))"
  using assms
proof (induction t arbitrary: lo hi rule: measure_induct_rule [where f = size])
  case (less t)
  show ?case
  proof (cases t)
    case (Leaf p kvs)
    have pb: "db_page d p = Ok (P p)" using less.prems(3) Leaf by simp
    have L: "leaf_page (eff hr (db_swap d)) (P p) kvs" using less.prems(1) Leaf by simp
    show ?thesis
      using db_view_leaf [OF pb L] Leaf by (subst initial_state_from.simps) (simp add: start_state_def)
  next
    case (Node p kts)
    have pb: "db_page d p = Ok (P p)" using less.prems(3) Node by simp
    have I: "int_page (eff hr (db_swap d)) (P p) (heads kts)" using less.prems(1) Node by simp
    have ne: "kts \<noteq> []" and ok: "kids_ok hi kts" using less.prems(2) Node by simp_all
    then obtain kt kts' where k: "kts = kt # kts'" by (cases kts) auto
    have len: "0 < length (heads kts)" using ne by simp
    obtain item where e: "pv_internal_entry hr (view_of hr p (P p) (db_swap d)) 0
        = Ok \<lparr>ie_key = item, ie_child = snd (heads kts ! 0)\<rparr>"
      using internal_entry_page [OF I len, of p] by metis
    have child: "snd (heads kts ! 0) = pg (snd kt)" by (simp add: k)
    have step: "initial_state_from hr d p = initial_state_from hr d (pg (snd kt))"
      using db_view_int [OF pb I] e child ne by (subst initial_state_from.simps) simp
    have ss: "start_state hr d P (leaves t) = start_state hr d P (leaves (snd kt))"
    proof -
      have l: "leaves (snd kt) \<noteq> []" using ok k leaves_not_Nil(1) by fastforce
      then obtain x xs where x: "leaves (snd kt) = x # xs" by (cases "leaves (snd kt)") auto
      then show ?thesis using Node k by (cases x) (auto simp: start_state_def)
    qed
    have "size (snd kt) < size t" using size_child [of kt kts p] Node k by simp
    moreover have "rep (eff hr (db_swap d)) P (snd kt)" using less.prems(1) Node k by simp
    moreover have "tree_ok (fst kt) (nxt hi kts') (snd kt)" using ok k by simp
    moreover have "db_page d q = Ok (P q)" if "q \<in> set (pgs (snd kt))" for q
      using that less.prems(3) Node k by simp
    ultimately have "initial_state_from hr d (pg (snd kt)) = Some (Ok (start_state hr d P (leaves (snd kt))))"
      by (rule less.IH)
    then show ?thesis using step ss Node by simp
  qed
qed

lemma chain_store:
  assumes S: "store_ok hw w t" and V: "serves hr d hw w"
  shows "chain_ok hr d (page_at w) (leaves t)"
proof -
  have W: "well hw w [t] []" using S by (simp add: store_ok_def)
  have e: "eff hr (db_swap d) = hw" using V by (simp add: serves_def)
  have "p \<noteq> P_INVALID \<and> db_page d p = Ok (page_at w p) \<and> leaf_page hw (page_at w p) kvs"
    if x: "(p, kvs) \<in> set (leaves t)" for p kvs
  proof -
    have "p \<in> set (map fst (leaves t))" using x by force
    then have "p \<in> set (leaf_pgs t)" by (simp add: leaves_pgs)
    then have p: "p \<in> set (pgs t)" using leaf_pgs_subset(1) by auto
    then have "1 \<le> unat p" using page_len [OF W, of p] by simp
    then have "p \<noteq> P_INVALID" by (auto simp: P_INVALID_def)
    then show ?thesis
      using serves_page [OF V W, of p] p leaves_rep(1) [OF wellD(3) [OF W] x] by simp
  qed
  moreover have "links (nexts hw w) (leaf_pgs t)" using wellD(9) [OF W] by simp
  ultimately show ?thesis unfolding chain_ok_def e leaves_pgs nexts_def by blast
qed

lemma scan_store:
  assumes S: "store_ok hw w t" and V: "serves hr d hw w" and n: "length (flat t) + 1 < n"
  shows "iter_collect n hr (iter_new d) =
    Some (if snd (hd (leaves t)) = [] then [] else map (\<lambda>x. Ok (entry_of x)) (flat t), True)"
proof -
  have W: "well hw w [t] []" and pg: "pg t = P_ROOT" and ok: "tree_ok [] None t"
    using S by (simp_all add: store_ok_def)
  have e: "eff hr (db_swap d) = hw" using V by (simp add: serves_def)
  have pb: "db_page d p = Ok (page_at w p)" if "p \<in> set (pgs t)" for p
    using serves_page [OF V W, of p] that by simp
  have R: "rep (eff hr (db_swap d)) (page_at w) t" using wellD(3) [OF W] e by simp
  let ?st = "start_state hr d (page_at w) (leaves t)"
  have i: "initial_state hr (iter_new d) = Some (Ok ?st)"
    using initial_state_tree [OF R ok pb] by (simp add: initial_state_def iter_new_def pg)
  have "iter_next hr (iter_new d) = iter_next hr \<lparr>it_db = d, it_state = ?st\<rparr>"
    using i by (subst iter_next.simps) (simp add: iter_new_def)
  moreover obtain m where m: "n = Suc m" using n by (cases n) auto
  ultimately have c: "iter_collect n hr (iter_new d) = iter_collect n hr \<lparr>it_db = d, it_state = ?st\<rparr>"
    by simp
  have C: "chain_ok hr d (page_at w) (leaves t)" by (rule chain_store [OF S V])
  show ?thesis
  proof (cases "snd (hd (leaves t)) = []")
    case True
    have "at_pos hr d (page_at w) Done []" by (simp add: at_pos_def)
    from collect_at [OF this, of n] True c n show ?thesis by (simp add: start_state_def)
  next
    case False
    from collect_at [OF at_first_state [OF C], of n] False c n show ?thesis
      by (simp add: start_state_def leaves_flat)
  qed
qed

end
