(* ===== verification/Scan_Gap.thy ===== *)
theory Scan_Gap
  imports Scan
begin

text \<open>
  The leaves of a tree as lists of entries, and the scan in terms of them: a file that was
  only inserted into is scanned completely, and a file whose first leaf was emptied by
  deletions is not scanned at all.
\<close>

lemma leaves_groups: "map snd (leaves t) = groups t" "map snd (leaves_l kts) = groups_l kts"
  by (induction t and kts rule: leaves_leaves_l.induct) simp_all

lemma first_leaf_group: "tree_ok lo hi t \<Longrightarrow> snd (hd (leaves t)) = hd (groups t)"
  using leaves_not_Nil(1) [of lo hi t] by (simp add: leaves_groups [symmetric] hd_map)

lemma filled_scan:
  assumes S: "store_ok hw w t" and F: "filled t" and V: "serves hr d hw w" and n: "length (flat t) + 1 < n"
  shows "iter_collect n hr (iter_new d) = Some (map (\<lambda>x. Ok (entry_of x)) (flat t), True)"
proof -
  have ok: "tree_ok [] None t" using S by (simp add: store_ok_def)
  have "snd (hd (leaves t)) = [] \<Longrightarrow> flat t = []"
    using F first_leaf_group [OF ok] leaves_not_Nil(1) [OF ok] leaves_groups(1) [of t] concat_groups(1) [of t]
    by (cases "groups t") (auto simp: filled_def)
  with scan_store [OF S V n] show ?thesis by auto
qed

lemma empty_first_scan:
  assumes S: "store_ok hw w t" and g: "groups t = [] # gs" and V: "serves hr d hw w"
  shows "iter_collect (Suc n) hr (iter_new d) = Some ([], True)"
proof -
  have W: "well hw w [t] []" and pg: "pg t = P_ROOT" and ok: "tree_ok [] None t"
    using S by (simp_all add: store_ok_def)
  have e: "eff hr (db_swap d) = hw" using V by (simp add: serves_def)
  have pb: "db_page d p = Ok (page_at w p)" if "p \<in> set (pgs t)" for p
    using serves_page [OF V W, of p] that by simp
  have R: "rep (eff hr (db_swap d)) (page_at w) t" using wellD(3) [OF W] e by simp
  have "start_state hr d (page_at w) (leaves t) = Done"
    using first_leaf_group [OF ok] g by (simp add: start_state_def)
  then have i: "initial_state hr (iter_new d) = Some (Ok Done)"
    using initial_state_tree [OF R ok pb] by (simp add: initial_state_def iter_new_def pg)
  have "iter_next hr (iter_new d) = iter_next hr \<lparr>it_db = d, it_state = Done\<rparr>"
    using i by (subst iter_next.simps) (simp add: iter_new_def)
  moreover have "iter_next hr \<lparr>it_db = d, it_state = Done\<rparr> = Some (None, \<lparr>it_db = d, it_state = Done\<rparr>)"
    by (subst iter_next.simps) simp
  ultimately show ?thesis by simp
qed

section \<open>Emptying the first leaf\<close>

lemma leaf_del_first:
  assumes "groups t = (x # g) # gs" "distinct (map fst (flat t))" "leaf_del t t' (fst x)"
  shows "groups t' = g # gs"
proof -
  obtain ls kvs rs i where d: "groups t = ls @ kvs # rs" "groups t' = ls @ rem_at i kvs # rs"
      "i < length kvs" "fst (kvs ! i) = fst x"
    using assms(3) by (auto simp: leaf_del_def)
  have dist: "distinct (map fst (concat (groups t)))" using assms(2) by (simp add: concat_groups)
  have key: "fst x \<in> fst ` set kvs" using d(3,4) by (metis image_eqI nth_mem)
  show ?thesis
  proof (cases ls)
    case Nil
    then have k: "kvs = x # g" "rs = gs" using d(1) assms(1) by simp_all
    have "distinct (map fst (x # g))" using dist assms(1) by simp
    then have "i = 0" using d(3,4) k(1) by (cases i) (auto, metis image_eqI nth_mem)
    then show ?thesis using d(2) Nil k by (simp add: rem_at_def)
  next
    case (Cons l ls')
    then have "l = x # g" "gs = ls' @ kvs # rs" using d(1) assms(1) by simp_all
    then show ?thesis using dist key assms(1) by auto
  qed
qed

lemma run_ops_append:
  "run_ops ins rem w xs = Some (rs, w1) \<Longrightarrow> run_ops ins rem w1 ys = Some (rs', w2) \<Longrightarrow>
   run_ops ins rem w (xs @ ys) = Some (rs @ rs', w2)"
proof (induction xs arbitrary: w rs)
  case (Cons x xs)
  then show ?case by (auto split: option.splits prod.splits)
qed simp

lemma spec_run_append:
  "spec_run m (xs @ ys) = (fst (spec_run m xs) @ fst (spec_run (snd (spec_run m xs)) ys),
     snd (spec_run (snd (spec_run m xs)) ys))"
  by (induction xs arbitrary: m) (simp_all add: case_prod_beta Let_def)

lemma spec_run_deletes: "snd (spec_run m (map Del_Op ks)) k = (if k \<in> set ks then None else m k)"
  by (induction ks arbitrary: m) (simp_all add: case_prod_beta Let_def)

lemma empty_first_leaf:
  assumes "stored h fp w m n t" "groups t = g # gs"
  shows "\<exists>w' t'. run_ops (put h) (del h) w (map Del_Op (map fst g)) =
      Some (map Ok (fst (spec_run m (map Del_Op (map fst g)))), w') \<and>
    stored h fp w' (snd (spec_run m (map Del_Op (map fst g)))) (n + length g) t' \<and> groups t' = [] # gs"
  using assms
proof (induction g arbitrary: w m n t)
  case (Cons x g)
  obtain w1 t1 where s: "del h w (fst x) = Some (Ok (m (fst x) \<noteq> None), w1)"
      "stored h fp w1 (m(fst x := None)) (Suc n) t1" "m (fst x) \<noteq> None \<Longrightarrow> leaf_del t t1 (fst x)"
    by (rule del_stored [OF Cons.prems(1), of "fst x"], rule that)
  have S: "store_ok h w t" "contents t = m" using Cons.prems(1) by (auto simp: stored_def stored_in_def)
  have "x \<in> set (flat t)" unfolding concat_groups(1) [symmetric] Cons.prems(2) by simp
  then have "m (fst x) \<noteq> None"
    using S(2) by (metis contents_def image_eqI map_of_eq_None_iff)
  note g1 = leaf_del_first [OF Cons.prems(2) store_distinct [OF S(1)] s(3) [OF this]]
  from Cons.IH [OF s(2) g1] obtain w' t' where
    "run_ops (put h) (del h) w1 (map Del_Op (map fst g)) =
      Some (map Ok (fst (spec_run (m(fst x := None)) (map Del_Op (map fst g)))), w')"
    "stored h fp w' (snd (spec_run (m(fst x := None)) (map Del_Op (map fst g)))) (Suc n + length g) t'"
    "groups t' = [] # gs" by blast
  then show ?case using s(1)
    by (intro exI [of _ w'] exI [of _ t']) (simp add: case_prod_beta Let_def)
qed auto

section \<open>A file with two leaves\<close>

lemma sum_list_lower: "(\<And>x. x \<in> set xs \<Longrightarrow> c \<le> f x) \<Longrightarrow> length xs * c \<le> sum_list (map f xs)" for f :: "'a \<Rightarrow> nat"
  by (induction xs) (auto intro: add_mono)

lemma leaf_capacity:
  "rep h P t \<Longrightarrow> g \<in> set (groups t) \<Longrightarrow> (\<And>p. p \<in> set (pgs t) \<Longrightarrow> length (P p) = ps) \<Longrightarrow>
     20 + 2 * length g + sum_list (map leaf_bytes g) \<le> ps"
  "reps h P kts \<Longrightarrow> g \<in> set (groups_l kts) \<Longrightarrow> (\<And>p. p \<in> set (pgs_l kts) \<Longrightarrow> length (P p) = ps) \<Longrightarrow>
     20 + 2 * length g + sum_list (map leaf_bytes g) \<le> ps"
proof (induction t and kts rule: groups_groups_l.induct)
  case (1 p kvs)
  then show ?case using leaf_page_header(3-5) [of h "P p" kvs] by simp
qed auto

lemma store_two_leaves:
  assumes S: "store_ok h w t" and F: "filled t"
    and big: "\<And>kv. kv \<in> set (flat t) \<Longrightarrow> c \<le> leaf_bytes kv"
    and many: "w_psize w < 20 + length (flat t) * (c + 2)" and ne: "flat t \<noteq> []"
  obtains g gs where "groups t = g # gs" "[] \<notin> set (groups t)" "gs \<noteq> []"
proof -
  have W: "well h w [t] []" using S by (simp add: store_ok_def)
  have f: "concat (groups t) = flat t" by (rule concat_groups)
  have nn: "[] \<notin> set (groups t)" using F f ne by (auto simp: filled_def)
  have "groups t \<noteq> []" using f ne by auto
  then obtain g gs where g: "groups t = g # gs" by (cases "groups t") auto
  have "gs \<noteq> []"
  proof
    assume "gs = []"
    then have fg: "flat t = g" using f g by simp
    have "20 + 2 * length g + sum_list (map leaf_bytes g) \<le> w_psize w"
    proof (rule leaf_capacity(1) [OF wellD(3) [OF W]])
      show "g \<in> set (groups t)" by (simp add: g)
      show "length (page_at w p) = w_psize w" if "p \<in> set (pgs t)" for p
        using page_len [OF W, of p] that by simp
    qed simp
    moreover have "length g * c \<le> sum_list (map leaf_bytes g)"
      by (rule sum_list_lower) (use big fg in simp)
    ultimately show False using many fg by (simp add: algebra_simps)
  qed
  then show ?thesis using that g nn by blast
qed

end
