(* ===== verification/Reader_Safety.thy ===== *)
theory Reader_Safety
  imports Iter Page_Facts
begin

text \<open>
  The reader never panics: on the bytes of any file, damaged or hostile, every operation
  returns a value or an error (or descends for ever). The only arithmetic that could fail is
  \<open>psize - PAGE_HEADER_SIZE\<close>, which the check of the page size in \<open>Db::open\<close> rules out.
\<close>

definition db_ok :: "db \<Rightarrow> bool" where
  "db_ok d \<longleftrightarrow> 20 < db_psize d \<and> db_psize d \<le> MAX_PSIZE"

lemma open_mapped_no_panic: "no_panic (open_mapped h bs)"
  by (simp add: open_mapped_def Let_def split: prod.split)

lemma open_mapped_ok:
  assumes "open_mapped h bs = Ok d"
  shows "db_ok d" "db_mmap d = bs" "length bs mod db_psize d = 0"
    "MIN_PSIZE \<le> db_psize d" "db_psize d \<le> MAX_PSIZE"
  using assms by (auto simp: open_mapped_def db_ok_def Let_def split: prod.splits if_splits)

lemma db_page_OkD:
  "db_page d pgno = Ok b \<Longrightarrow>
   length b = db_psize d \<and> b = sub (db_mmap d) (unat pgno * db_psize d) (db_psize d)
   \<and> unat pgno * db_psize d + db_psize d \<le> length (db_mmap d)"
  by (auto simp: db_page_def Let_def get_range_def split: if_splits)

lemma db_view_OkD:
  assumes "db_view h d pgno = Ok v"
  obtains b where "db_page d pgno = Ok b" "v = view_of h pgno b (db_swap d)"
    "length b = db_psize d"
  using assms by (auto simp: db_view_def and_then_eq_Ok dest: pv_parse_OkD(1) db_page_OkD)

lemma db_page_no_panic [no_panic_intros]: "no_panic (db_page d pgno)"
  by (simp add: db_page_def Let_def)

lemma db_view_no_panic [no_panic_intros]: "no_panic (db_view h d pgno)"
  unfolding db_view_def by (intro no_panic_and_then no_panic_intros)

lemma db_view_payload [no_panic_intros]:
  "db_ok d \<Longrightarrow> db_view h d pgno = Ok v \<Longrightarrow> no_panic (pv_overflow_payload v)"
  by (auto simp: db_ok_def elim!: db_view_OkD intro!: pv_overflow_payload_no_panic)

section \<open>Overflow chains\<close>

lemma compare_overflow_loop_no_panic:
  assumes "db_ok d" "ppp \<noteq> 0"
  shows "no_panic (compare_overflow_loop h d key s ppp tot pgno consumed)"
proof (induction "tot - consumed" arbitrary: pgno consumed rule: less_induct)
  case less
  have "no_panic (compare_overflow_loop h d key s ppp tot p (consumed + min (tot - consumed) ppp))"
    if "consumed < tot" for p
    by (rule less) (rule overflow_progress [OF assms(2) that])
  then show ?case
    unfolding compare_overflow_loop.simps [of h d key s ppp tot pgno consumed] Let_def
    using assms by (intro no_panic_rules no_panic_Ok no_panic_intros; blast)
qed

lemma fetch_overflow_loop_no_panic:
  assumes "db_ok d" "ppp \<noteq> 0"
  shows "no_panic (fetch_overflow_loop h d s ppp pgno remaining out)"
proof (induction remaining arbitrary: pgno out rule: less_induct)
  case (less remaining)
  have "no_panic (fetch_overflow_loop h d s ppp p (remaining - min remaining ppp) out')"
    if "remaining > 0" for p out'
    by (rule less) (use assms(2) that in auto)
  then show ?case
    unfolding fetch_overflow_loop.simps [of h d s ppp pgno remaining out] Let_def
    using assms by (intro no_panic_rules no_panic_Ok no_panic_intros; blast)
qed

lemma compare_overflow_no_panic [no_panic_intros]:
  "db_ok d \<Longrightarrow> no_panic (compare_overflow h d key s sz)"
  by (simp add: compare_overflow_def compare_overflow_loop_no_panic db_ok_def)

lemma fetch_overflow_no_panic [no_panic_intros]:
  "db_ok d \<Longrightarrow> no_panic (fetch_overflow h d s sz)"
  by (simp add: fetch_overflow_def fetch_overflow_loop_no_panic db_ok_def)

lemma materialise_no_panic [no_panic_intros]: "db_ok d \<Longrightarrow> no_panic (materialise h d v item)"
  by (auto simp: materialise_def intro!: no_panic_intros split: item_ref.split)

lemma compare_item_no_panic [no_panic_intros]: "db_ok d \<Longrightarrow> no_panic (compare_item h d key v item)"
  by (auto simp: compare_item_def intro!: no_panic_and_then no_panic_intros split: item_ref.split)

section \<open>Lookup\<close>

lemma leaf_probe_no_panic: "db_ok d \<Longrightarrow> no_panic (leaf_probe h d v key i)"
  unfolding leaf_probe_def by (intro no_panic_and_then no_panic_intros)

lemma internal_probe_no_panic: "db_ok d \<Longrightarrow> no_panic (internal_probe h d v lm key i)"
  unfolding internal_probe_def by (auto intro!: no_panic_and_then no_panic_intros)

lemma search_leaf_no_panic [no_panic_intros]: "db_ok d \<Longrightarrow> no_panic (search_leaf h d v key)"
  unfolding search_leaf_def
  by (auto intro!: no_panic_and_then bsearch_no_panic leaf_probe_no_panic)

lemma descend_internal_no_panic [no_panic_intros]:
  "db_ok d \<Longrightarrow> no_panic (descend_internal h d v key)"
  unfolding descend_internal_def Let_def
  by (auto intro!: no_panic_and_then bsearch_no_panic internal_probe_no_panic no_panic_intros)

lemma search_from_no_panic:
  assumes ret: "search_from h d key pgno = Some r" and "db_ok d"
  shows "no_panic r"
proof -
  have "db_ok d \<longrightarrow> no_panic r"
  proof (rule search_from.raw_induct [where P = "\<lambda>h d key pgno r. db_ok d \<longrightarrow> no_panic r", OF _ ret],
      intro impI)
    fix f h d key pgno r
    assume IH: "\<And>h d key pgno r. f h d key pgno = Some r \<Longrightarrow> db_ok d \<longrightarrow> no_panic r"
      and eq: "(case db_view h d pgno of
          Ok view \<Rightarrow> if pv_is_leaf view then Some (search_leaf h d view key)
            else if \<not> pv_is_internal view
            then Some (Err (CorruptPage pgno ''non-internal page during descent''))
            else (case descend_internal h d view key of Ok child \<Rightarrow> f h d key child
                 | Err e \<Rightarrow> Some (Err e) | Panic \<Rightarrow> Some Panic)
        | Err e \<Rightarrow> Some (Err e) | Panic \<Rightarrow> Some Panic) = Some r"
      and ok: "db_ok d"
    show "no_panic r"
      using eq ok IH search_leaf_no_panic [OF ok, of h _ key] db_view_no_panic [of h d pgno]
        descend_internal_no_panic [OF ok, of h _ key]
      by (fastforce simp: no_panic_def split: outcome.splits if_splits)
  qed
  with \<open>db_ok d\<close> show ?thesis by simp
qed

lemma db_get_no_panic:
  assumes "db_ok d" and get: "db_get h d key = Some r"
  shows "no_panic r"
proof -
  from get obtain s where s: "search h d key = Some s"
    and r: "r = and_then s (\<lambda>found. case found of None \<Rightarrow> Ok None
           | Some pos \<Rightarrow> and_then (db_view h d (pos_pgno pos)) (\<lambda>view.
               and_then (pv_leaf_entry h view (pos_index pos)) (\<lambda>entry.
               and_then (materialise h d view (le_data entry)) (\<lambda>v. Ok (Some v)))))"
    by (auto simp: db_get_def split: option.splits)
  have "no_panic s" using s assms(1) by (auto simp: search_def intro: search_from_no_panic)
  then show ?thesis unfolding r
    by (auto intro!: no_panic_and_then no_panic_intros assms(1) split: option.split)
qed

text \<open>
  Lookup in any file. If \<open>Db::open\<close> accepts the bytes of a file, \<open>get\<close> never panics,
  whatever the pages hold; and \<open>Db::open\<close> itself never panics.
\<close>

theorem get_never_panics:
  "case open_mapped h bs of
     Ok d \<Rightarrow> db_get h d key \<noteq> Some Panic
   | Err e \<Rightarrow> True
   | Panic \<Rightarrow> False"
  using open_mapped_no_panic [of h bs] open_mapped_ok(1) [of h bs] db_get_no_panic [of _ h key Panic]
  by (auto split: outcome.split)

section \<open>Iteration\<close>

lemma initial_state_from_no_panic:
  assumes ret: "initial_state_from h d pgno = Some r"
  shows "no_panic r"
proof (rule initial_state_from.raw_induct [where P = "\<lambda>h d pgno r. no_panic r", OF _ ret])
  fix f h d pgno r
  assume IH: "\<And>h d pgno r. f h d pgno = Some r \<Longrightarrow> no_panic r"
    and eq: "(case db_view h d pgno of
        Ok view \<Rightarrow> if pv_nentries view = 0 then Some (Ok Done)
          else if pv_is_leaf view then Some (Ok (Active \<lparr>cur_view = view, cur_index = 0\<rparr>))
          else if \<not> pv_is_internal view
          then Some (Err (CorruptPage pgno ''non-internal page during seq descent''))
          else (case pv_internal_entry h view 0 of Ok entry \<Rightarrow> f h d (ie_child entry)
               | Err e \<Rightarrow> Some (Err e) | Panic \<Rightarrow> Some Panic)
      | Err e \<Rightarrow> Some (Err e) | Panic \<Rightarrow> Some Panic) = Some r"
  show "no_panic r"
    using eq IH db_view_no_panic [of h d pgno] pv_internal_entry_no_panic [of h _ 0]
    by (fastforce simp: no_panic_def split: outcome.splits if_splits)
qed

lemma advance_leaf_no_panic:
  assumes ret: "advance_leaf h d pgno = Some r"
  shows "no_panic r"
proof (rule advance_leaf.raw_induct [where P = "\<lambda>h d pgno r. no_panic r", OF _ ret])
  fix f h d pgno r
  assume IH: "\<And>h d pgno r. f h d pgno = Some r \<Longrightarrow> no_panic r"
    and eq: "(if pgno \<noteq> P_INVALID
       then (case db_view h d pgno of
          Ok view \<Rightarrow> if \<not> pv_is_leaf view
            then Some (Err (CorruptPage pgno ''seq sibling is not a leaf''))
            else if 0 < pv_nentries view
            then Some (Ok (Active \<lparr>cur_view = view, cur_index = 0\<rparr>))
            else f h d (pv_next_pg view)
        | Err e \<Rightarrow> Some (Err e) | Panic \<Rightarrow> Some Panic)
       else Some (Ok Done)) = Some r"
  show "no_panic r"
    using eq IH db_view_no_panic [of h d pgno]
    by (fastforce simp: no_panic_def split: outcome.splits if_splits)
qed

lemma yield_current_no_panic:
  assumes "db_ok d" and "yield_current h d cur = Some (r, st)"
  shows "no_panic r"
proof -
  let ?m = "and_then (pv_leaf_entry h (cur_view cur) (cur_index cur)) (\<lambda>leaf.
           and_then (materialise h d (cur_view cur) (le_key leaf)) (\<lambda>key.
           and_then (materialise h d (cur_view cur) (le_data leaf)) (\<lambda>value.
           Ok \<lparr>entry_key = key, entry_value = value\<rparr>)))"
  have "no_panic ?m"
    by (intro no_panic_and_then no_panic_intros no_panic_Ok assms(1))
  then show ?thesis
    using assms(2) unfolding yield_current_def
    by (auto simp: no_panic_def dest: advance_leaf_no_panic split: outcome.splits if_splits option.splits)
qed

lemma iter_next_no_panic:
  assumes ret: "iter_next h it = Some (x, it')" and "db_ok (it_db it)"
  shows "x \<noteq> Some Panic \<and> it_db it' = it_db it"
proof -
  have "db_ok (it_db it) \<longrightarrow> (case (x, it') of (x, it') \<Rightarrow> x \<noteq> Some Panic \<and> it_db it' = it_db it)"
  proof (rule iter_next.raw_induct [where P = "\<lambda>h it r. db_ok (it_db it) \<longrightarrow>
        (case r of (x, it') \<Rightarrow> x \<noteq> Some Panic \<and> it_db it' = it_db it)", OF _ ret], intro impI)
    fix f h it and r :: "entry outcome option \<times> iter"
    assume IH: "\<And>h it r. f h it = Some r \<Longrightarrow> db_ok (it_db it) \<longrightarrow>
          (case r of (x, it') \<Rightarrow> x \<noteq> Some Panic \<and> it_db it' = it_db it)"
      and eq: "(case it_state it of
          Pristine \<Rightarrow> (case initial_state h it of None \<Rightarrow> None
            | Some (Ok st) \<Rightarrow> f h (it\<lparr>it_state := st\<rparr>)
            | Some (Err e) \<Rightarrow> Some (Some (Err e), it\<lparr>it_state := Done\<rparr>)
            | Some Panic \<Rightarrow> Some (Some Panic, it\<lparr>it_state := Done\<rparr>))
        | Active cur \<Rightarrow> (case yield_current h (it_db it) cur of None \<Rightarrow> None
            | Some (r, st) \<Rightarrow> Some (Some r, it\<lparr>it_state := st\<rparr>))
        | Done \<Rightarrow> Some (None, it)) = Some r"
      and ok: "db_ok (it_db it)"
    show "case r of (x, it') \<Rightarrow> x \<noteq> Some Panic \<and> it_db it' = it_db it"
    proof (cases "it_state it")
      case Pristine
      with eq ok IH initial_state_from_no_panic [of h "it_db it" P_ROOT] show ?thesis
        by (fastforce simp: no_panic_def initial_state_def split: option.splits outcome.splits)
    next
      case (Active cur)
      with eq ok yield_current_no_panic [of "it_db it" h cur] show ?thesis
        by (fastforce simp: no_panic_def split: option.splits)
    next
      case Done
      with eq show ?thesis by auto
    qed
  qed
  with assms(2) show ?thesis by simp
qed

text \<open>
  Iteration over any file. No call of \<open>next\<close> panics, from a fresh iterator over any file
  that \<open>Db::open\<close> accepts and for any number of calls.
\<close>

theorem iteration_never_panics:
  "case open_mapped h bs of
     Ok d \<Rightarrow> (case iter_collect n h (iter_new d) of
                None \<Rightarrow> True
              | Some (items, finished) \<Rightarrow> Panic \<notin> set items)
   | Err e \<Rightarrow> True
   | Panic \<Rightarrow> False"
proof -
  have "iter_collect n h it = Some (items, fin) \<Longrightarrow> db_ok (it_db it) \<Longrightarrow> Panic \<notin> set items"
    for it items fin
  proof (induction n arbitrary: it items fin)
    case 0
    then show ?case by simp
  next
    case (Suc n)
    from Suc.prems(1) consider "items = []"
      | r it' rs where "iter_next h it = Some (Some r, it')" "iter_collect n h it' = Some (rs, fin)"
          "items = r # rs"
      by (auto split: option.splits)
    then show ?case
    proof cases
      case 1
      then show ?thesis by simp
    next
      case (2 r it' rs)
      have "r \<noteq> Panic" "db_ok (it_db it')"
        using iter_next_no_panic [OF 2(1) Suc.prems(2)] Suc.prems(2) by auto
      with Suc.IH [OF 2(2)] 2(3) show ?thesis by auto
    qed
  qed
  note collect = this
  show ?thesis
  proof (cases "open_mapped h bs")
    case (Ok d)
    then have "db_ok (it_db (iter_new d))" by (simp add: iter_new_def open_mapped_ok(1))
    with Ok collect [of "iter_new d"] show ?thesis by (auto split: option.split)
  next
    case Panic
    then show ?thesis using open_mapped_no_panic [of h bs] by simp
  qed simp
qed

text \<open>
  C13: no file makes the reader panic. \<open>Db::open\<close> never panics, and on a file that it accepts
  neither \<open>get\<close> of any key nor any call of \<open>next\<close>, however many items are drawn, does.
\<close>

theorem reader_never_panics:
  "case open_mapped h bs of
     Ok d \<Rightarrow> db_get h d key \<noteq> Some Panic \<and>
       (case iter_collect n h (iter_new d) of
          None \<Rightarrow> True
        | Some (items, finished) \<Rightarrow> Panic \<notin> set items)
   | Err e \<Rightarrow> True
   | Panic \<Rightarrow> False"
  using get_never_panics [where h = h and bs = bs and key = key]
    iteration_never_panics [where h = h and bs = bs and n = n]
  by (auto split: outcome.splits option.splits)

end
