(* ===== verification/Walks.thy ===== *)
theory Walks
  imports Iter
begin

text \<open>
  The loops of the reader that follow page numbers: the descent of \<open>Db::search\<close>, the descent
  of \<open>Iter::initial_state\<close> to the first leaf, and the walk of \<open>Iter::advance_leaf\<close> over empty
  leaves. None of them counts pages, so each runs for ever exactly when the pages it reads
  lead back to a page that it has read before. The locale \<open>page_walk\<close> is what the three have
  in common.
\<close>

definition hops :: "('a \<Rightarrow> 'a option) \<Rightarrow> ('a \<times> 'a) set" where
  "hops hop = {(p, q). hop p = Some q}"

definition runs_into_cycle :: "('a \<Rightarrow> 'a option) \<Rightarrow> 'a \<Rightarrow> bool" where
  "runs_into_cycle hop p \<longleftrightarrow> (\<exists>q. (p, q) \<in> (hops hop)\<^sup>* \<and> (q, q) \<in> (hops hop)\<^sup>+)"

lemma hopsI: "hop p = Some q \<Longrightarrow> (p, q) \<in> hops hop"
  by (simp add: hops_def)

lemma hops_trancl: "(p, q) \<in> (hops hop)\<^sup>+ \<longleftrightarrow> (\<exists>p'. hop p = Some p' \<and> (p', q) \<in> (hops hop)\<^sup>*)"
  by (auto simp: hops_def dest: tranclD intro: rtrancl_into_trancl2)

text \<open>Where a walk goes on, it meets a cycle before the hop if and only if it does after it.\<close>

lemma cycle_hop:
  assumes "hop p = Some p'"
  shows "runs_into_cycle hop p \<longleftrightarrow> runs_into_cycle hop p'"
proof
  assume "runs_into_cycle hop p"
  then obtain q where q: "(p, q) \<in> (hops hop)\<^sup>*" "(q, q) \<in> (hops hop)\<^sup>+"
    by (auto simp: runs_into_cycle_def)
  show "runs_into_cycle hop p'"
  proof (cases "p = q")
    case True
    then have "(p', p) \<in> (hops hop)\<^sup>*" using q(2) assms by (auto simp: hops_trancl)
    then show ?thesis using q(2) True by (auto simp: runs_into_cycle_def)
  next
    case False
    then have "(p', q) \<in> (hops hop)\<^sup>*" using q(1) assms by (auto simp: hops_def elim: converse_rtranclE)
    then show ?thesis using q(2) by (auto simp: runs_into_cycle_def)
  qed
next
  assume "runs_into_cycle hop p'"
  then show "runs_into_cycle hop p"
    using hopsI [of hop, OF assms] unfolding runs_into_cycle_def
    by (meson converse_rtrancl_into_rtrancl)
qed

lemma no_hop_no_cycle: "hop p = None \<Longrightarrow> \<not> runs_into_cycle hop p"
  unfolding runs_into_cycle_def hops_trancl by (auto simp: hops_def elim: converse_rtranclE)

text \<open>A walk over finitely many pages that never stops meets a page twice.\<close>

fun hop_n :: "('a \<Rightarrow> 'a option) \<Rightarrow> nat \<Rightarrow> 'a \<Rightarrow> 'a option" where
  "hop_n hop 0 p = Some p"
| "hop_n hop (Suc n) p = Option.bind (hop_n hop n p) hop"

lemma hop_n_reaches: "hop_n hop n p = Some q \<Longrightarrow> (p, q) \<in> (hops hop)\<^sup>*"
  by (induction n arbitrary: q)
    (auto simp: bind_eq_Some_conv intro: rtrancl_into_rtrancl hopsI)

lemma hop_n_later:
  "hop_n hop i p = Some q \<Longrightarrow> i < j \<Longrightarrow> hop_n hop j p = Some r \<Longrightarrow> (q, r) \<in> (hops hop)\<^sup>+"
proof (induction j arbitrary: r)
  case (Suc j)
  then obtain s where s: "hop_n hop j p = Some s" "hop s = Some r" by (auto simp: bind_eq_Some_conv)
  have "(q, s) \<in> (hops hop)\<^sup>*" using Suc s(1) by (cases "i = j") (auto intro: trancl_into_rtrancl)
  then show ?case using hopsI [of hop, OF s(2)] by (rule rtrancl_into_trancl1)
qed simp

lemma endless_walk_cycles:
  fixes p :: "'a :: finite"
  assumes "\<And>n. hop_n hop n p \<noteq> None"
  shows "runs_into_cycle hop p"
proof -
  have "\<not> inj (\<lambda>n. hop_n hop n p)"
    using finite_UNIV_inj_surj infinite_UNIV_nat by (meson finite finite_imageD finite_subset subset_UNIV)
  then obtain i j where ij: "i < j" "hop_n hop i p = hop_n hop j p"
    unfolding inj_def by (metis linorder_neqE_nat)
  then show ?thesis
    using assms [of i] hop_n_reaches hop_n_later [of hop i p _ j] unfolding runs_into_cycle_def by fastforce
qed

section \<open>A loop that follows page numbers\<close>

locale page_walk =
  fixes run :: "u32 \<Rightarrow> 'r option" and hop :: "u32 \<Rightarrow> u32 option"
  assumes continues: "hop p = Some q \<Longrightarrow> run p = run q"
    and stops: "hop p = None \<Longrightarrow> run p \<noteq> None"
    and returns_induct: "run p = Some r \<Longrightarrow> (\<And>p. (\<And>q. hop p = Some q \<Longrightarrow> P q) \<Longrightarrow> P p) \<Longrightarrow> P p"
begin

lemma run_hop_n: "hop_n hop n p = Some q \<Longrightarrow> run p = run q"
  by (induction n arbitrary: q) (auto simp: bind_eq_Some_conv dest: continues)

lemma returns_no_cycle: "run p = Some r \<Longrightarrow> \<not> runs_into_cycle hop p"
proof (erule returns_induct)
  show "\<not> runs_into_cycle hop p" if "\<And>q. hop p = Some q \<Longrightarrow> \<not> runs_into_cycle hop q" for p
    using that cycle_hop [of hop p] no_hop_no_cycle [of hop p] by (cases "hop p") auto
qed

lemma diverges_iff: "run p = None \<longleftrightarrow> runs_into_cycle hop p"
proof
  assume N: "run p = None"
  have "hop_n hop n p \<noteq> None" for n
  proof (induction n)
    case (Suc n)
    then obtain q where q: "hop_n hop n p = Some q" by blast
    then have "hop q \<noteq> None" using stops [of q] run_hop_n [OF q] N by auto
    then show ?case using q by auto
  qed simp
  then show "runs_into_cycle hop p" by (rule endless_walk_cycles)
next
  assume "runs_into_cycle hop p"
  then show "run p = None" using returns_no_cycle by (cases "run p") auto
qed

end

section \<open>The three loops of the reader\<close>

text \<open>The page at which each loop goes on after page \<open>p\<close>, if it does.\<close>

definition get_hop :: "endian \<Rightarrow> db \<Rightarrow> bytes \<Rightarrow> u32 \<Rightarrow> u32 option" where
  "get_hop h d key p = (case db_view h d p of
      Ok v \<Rightarrow> if pv_is_leaf v \<or> \<not> pv_is_internal v then None
        else (case descend_internal h d v key of Ok child \<Rightarrow> Some child | Err e \<Rightarrow> None | Panic \<Rightarrow> None)
    | Err e \<Rightarrow> None | Panic \<Rightarrow> None)"

definition first_hop :: "endian \<Rightarrow> db \<Rightarrow> u32 \<Rightarrow> u32 option" where
  "first_hop h d p = (case db_view h d p of
      Ok v \<Rightarrow> if pv_nentries v = 0 \<or> pv_is_leaf v \<or> \<not> pv_is_internal v then None
        else (case pv_internal_entry h v 0 of Ok e \<Rightarrow> Some (ie_child e) | Err e \<Rightarrow> None | Panic \<Rightarrow> None)
    | Err e \<Rightarrow> None | Panic \<Rightarrow> None)"

definition leaf_hop :: "endian \<Rightarrow> db \<Rightarrow> u32 \<Rightarrow> u32 option" where
  "leaf_hop h d p = (if p = P_INVALID then None else case db_view h d p of
      Ok v \<Rightarrow> if pv_is_leaf v \<and> pv_nentries v = 0 then Some (pv_next_pg v) else None
    | Err e \<Rightarrow> None | Panic \<Rightarrow> None)"

lemma search_from_returns_induct:
  assumes "search_from h d key p = Some r"
    and step: "\<And>p. (\<And>q. get_hop h d key p = Some q \<Longrightarrow> P q) \<Longrightarrow> P p"
  shows "P p"
proof -
  have "h = h \<and> d = d \<and> key = key \<longrightarrow> P p"
  proof (rule search_from.raw_induct [where P = "\<lambda>h' d' key' p r. h' = h \<and> d' = d \<and> key' = key \<longrightarrow> P p",
        OF _ assms(1)], clarify)
    fix f p r
    assume IH: "\<And>h' d' key' p r. f h' d' key' p = Some r \<Longrightarrow> h' = h \<and> d' = d \<and> key' = key \<longrightarrow> P p"
      and "(case db_view h d p of
          Ok view \<Rightarrow> if pv_is_leaf view then Some (search_leaf h d view key)
            else if \<not> pv_is_internal view
            then Some (Err (CorruptPage p ''non-internal page during descent''))
            else (case descend_internal h d view key of Ok child \<Rightarrow> f h d key child
                 | Err e \<Rightarrow> Some (Err e) | Panic \<Rightarrow> Some Panic)
        | Err e \<Rightarrow> Some (Err e) | Panic \<Rightarrow> Some Panic) = Some r"
    then have "get_hop h d key p = Some q \<Longrightarrow> f h d key q = Some r" for q
      by (auto simp: get_hop_def split: outcome.splits if_splits)
    with IH show "P p" by (intro step [of p]) metis
  qed
  then show ?thesis by simp
qed

lemma initial_state_from_returns_induct:
  assumes "initial_state_from h d p = Some r"
    and step: "\<And>p. (\<And>q. first_hop h d p = Some q \<Longrightarrow> P q) \<Longrightarrow> P p"
  shows "P p"
proof -
  have "h = h \<and> d = d \<longrightarrow> P p"
  proof (rule initial_state_from.raw_induct [where P = "\<lambda>h' d' p r. h' = h \<and> d' = d \<longrightarrow> P p", OF _ assms(1)],
      clarify)
    fix f p r
    assume IH: "\<And>h' d' p r. f h' d' p = Some r \<Longrightarrow> h' = h \<and> d' = d \<longrightarrow> P p"
      and "(case db_view h d p of
          Ok view \<Rightarrow> if pv_nentries view = 0 then Some (Ok Done)
            else if pv_is_leaf view then Some (Ok (Active \<lparr>cur_view = view, cur_index = 0\<rparr>))
            else if \<not> pv_is_internal view
            then Some (Err (CorruptPage p ''non-internal page during seq descent''))
            else (case pv_internal_entry h view 0 of Ok entry \<Rightarrow> f h d (ie_child entry)
                 | Err e \<Rightarrow> Some (Err e) | Panic \<Rightarrow> Some Panic)
        | Err e \<Rightarrow> Some (Err e) | Panic \<Rightarrow> Some Panic) = Some r"
    then have "first_hop h d p = Some q \<Longrightarrow> f h d q = Some r" for q
      by (auto simp: first_hop_def split: outcome.splits if_splits)
    with IH show "P p" by (intro step [of p]) metis
  qed
  then show ?thesis by simp
qed

lemma advance_leaf_returns_induct:
  assumes "advance_leaf h d p = Some r"
    and step: "\<And>p. (\<And>q. leaf_hop h d p = Some q \<Longrightarrow> P q) \<Longrightarrow> P p"
  shows "P p"
proof -
  have "h = h \<and> d = d \<longrightarrow> P p"
  proof (rule advance_leaf.raw_induct [where P = "\<lambda>h' d' p r. h' = h \<and> d' = d \<longrightarrow> P p", OF _ assms(1)],
      clarify)
    fix f p r
    assume IH: "\<And>h' d' p r. f h' d' p = Some r \<Longrightarrow> h' = h \<and> d' = d \<longrightarrow> P p"
      and "(if p \<noteq> P_INVALID
        then (case db_view h d p of
            Ok view \<Rightarrow> if \<not> pv_is_leaf view then Some (Err (CorruptPage p ''seq sibling is not a leaf''))
              else if 0 < pv_nentries view then Some (Ok (Active \<lparr>cur_view = view, cur_index = 0\<rparr>))
              else f h d (pv_next_pg view)
          | Err e \<Rightarrow> Some (Err e) | Panic \<Rightarrow> Some Panic)
        else Some (Ok Done)) = Some r"
    then have "leaf_hop h d p = Some q \<Longrightarrow> f h d q = Some r" for q
      by (auto simp: leaf_hop_def split: outcome.splits if_splits)
    with IH show "P p" by (intro step [of p]) metis
  qed
  then show ?thesis by simp
qed

interpretation get_walk: page_walk "search_from h d key" "get_hop h d key" for h d key
proof
  show "search_from h d key p = search_from h d key q" if "get_hop h d key p = Some q" for p q
    using that by (subst search_from.simps) (auto simp: get_hop_def split: outcome.splits if_splits)
  show "search_from h d key p \<noteq> None" if "get_hop h d key p = None" for p
    using that by (subst search_from.simps) (auto simp: get_hop_def split: outcome.splits if_splits)
  show "P p" if "search_from h d key p = Some r" "\<And>p. (\<And>q. get_hop h d key p = Some q \<Longrightarrow> P q) \<Longrightarrow> P p" for p r P
    by (rule search_from_returns_induct [OF that(1)]) (rule that(2))
qed

interpretation first_walk: page_walk "initial_state_from h d" "first_hop h d" for h d
proof
  show "initial_state_from h d p = initial_state_from h d q" if "first_hop h d p = Some q" for p q
    using that by (subst initial_state_from.simps) (auto simp: first_hop_def split: outcome.splits if_splits)
  show "initial_state_from h d p \<noteq> None" if "first_hop h d p = None" for p
    using that by (subst initial_state_from.simps) (auto simp: first_hop_def split: outcome.splits if_splits)
  show "P p" if "initial_state_from h d p = Some r" "\<And>p. (\<And>q. first_hop h d p = Some q \<Longrightarrow> P q) \<Longrightarrow> P p" for p r P
    by (rule initial_state_from_returns_induct [OF that(1)]) (rule that(2))
qed

interpretation leaf_walk: page_walk "advance_leaf h d" "leaf_hop h d" for h d
proof
  show "advance_leaf h d p = advance_leaf h d q" if "leaf_hop h d p = Some q" for p q
    using that by (subst advance_leaf.simps) (auto simp: leaf_hop_def split: outcome.splits if_splits)
  show "advance_leaf h d p \<noteq> None" if "leaf_hop h d p = None" for p
    using that by (subst advance_leaf.simps) (auto simp: leaf_hop_def split: outcome.splits if_splits)
  show "P p" if "advance_leaf h d p = Some r" "\<And>p. (\<And>q. leaf_hop h d p = Some q \<Longrightarrow> P q) \<Longrightarrow> P p" for p r P
    by (rule advance_leaf_returns_induct [OF that(1)]) (rule that(2))
qed

text \<open>The state that the first descent finds is a position or the end, never a fresh iterator.\<close>

lemma initial_state_not_pristine:
  assumes "initial_state_from h d p = Some r"
  shows "r \<noteq> Ok Pristine"
proof -
  have "initial_state_from h d p = Some r \<longrightarrow> r \<noteq> Ok Pristine" using assms
  proof (rule first_walk.returns_induct)
    fix p assume "\<And>q. first_hop h d p = Some q \<Longrightarrow> initial_state_from h d q = Some r \<longrightarrow> r \<noteq> Ok Pristine"
    then show "initial_state_from h d p = Some r \<longrightarrow> r \<noteq> Ok Pristine"
      by (subst initial_state_from.simps) (auto simp: first_hop_def split: outcome.splits if_splits)
  qed
  with assms show ?thesis by simp
qed

section \<open>When the reader does not return\<close>

text \<open>The entry at the cursor, as \<open>yield_current\<close> decodes it.\<close>

definition current_entry :: "endian \<Rightarrow> db \<Rightarrow> cursor \<Rightarrow> entry outcome" where
  "current_entry h d cur =
     and_then (pv_leaf_entry h (cur_view cur) (cur_index cur)) (\<lambda>leaf.
     and_then (materialise h d (cur_view cur) (le_key leaf)) (\<lambda>key.
     and_then (materialise h d (cur_view cur) (le_data leaf)) (\<lambda>value.
     Ok \<lparr>entry_key = key, entry_value = value\<rparr>)))"

lemma yield_current_None:
  "yield_current h d cur = None \<longleftrightarrow> (\<exists>e. current_entry h d cur = Ok e) \<and>
     pv_nentries (cur_view cur) \<le> cur_index cur + 1 \<and> advance_leaf h d (pv_next_pg (cur_view cur)) = None"
  unfolding yield_current_def current_entry_def [symmetric]
  by (auto split: outcome.split option.split)

lemma db_get_None: "db_get h d key = None \<longleftrightarrow> search_from h d key P_ROOT = None"
  by (simp add: db_get_def search_def split: option.split)

lemma iter_next_Active:
  "iter_next h \<lparr>it_db = d, it_state = Active cur\<rparr> = None \<longleftrightarrow> yield_current h d cur = None"
  by (subst iter_next.simps) (auto split: option.split)

lemma iter_next_new:
  "iter_next h (iter_new d) = None \<longleftrightarrow> initial_state_from h d P_ROOT = None \<or>
     (\<exists>cur. initial_state_from h d P_ROOT = Some (Ok (Active cur)) \<and>
        iter_next h \<lparr>it_db = d, it_state = Active cur\<rparr> = None)"
proof (cases "initial_state_from h d P_ROOT")
  case None
  then show ?thesis by (subst iter_next.simps) (simp add: iter_new_def initial_state_def)
next
  case (Some r)
  have "iter_next h (iter_new d) = None \<longleftrightarrow>
      (\<exists>cur. r = Ok (Active cur) \<and> iter_next h \<lparr>it_db = d, it_state = Active cur\<rparr> = None)"
  proof (cases "\<exists>cur. r = Ok (Active cur)")
    case True
    then show ?thesis using Some
      by (subst iter_next.simps) (auto simp: iter_new_def initial_state_def)
  next
    case False
    then have "(\<exists>e. r = Err e) \<or> r = Panic \<or> r = Ok Done"
      using initial_state_not_pristine [OF Some] by (cases r) (auto intro: iter_state.exhaust)
    then have "iter_next h (iter_new d) \<noteq> None" using Some
      by (subst iter_next.simps) (auto simp: iter_new_def initial_state_def iter_next.simps [of h "\<lparr>it_db = d, it_state = Done\<rparr>"])
    then show ?thesis using False by blast
  qed
  then show ?thesis using Some by simp
qed

text \<open>
  C14: when the reader does not return. On any handle, \<open>get\<close> runs for ever exactly when the
  pages on the descent for the key lead back to a page already read. The first \<open>next\<close> of an
  iteration does so exactly when the first children lead back to a page already read, or when
  it finds an entry and \<open>next\<close> from there does not return; and \<open>next\<close> on an entry does so
  exactly when the entry is good, the last of its leaf, and the empty leaves after it lead
  back to one already read. In every other case the call returns a value or an error.
\<close>

theorem reader_diverges_iff_cycle:
  "(db_get h d key = None \<longleftrightarrow> runs_into_cycle (get_hop h d key) P_ROOT) \<and>
   (iter_next h (iter_new d) = None \<longleftrightarrow> runs_into_cycle (first_hop h d) P_ROOT \<or>
      (\<exists>cur. initial_state_from h d P_ROOT = Some (Ok (Active cur)) \<and>
         iter_next h \<lparr>it_db = d, it_state = Active cur\<rparr> = None)) \<and>
   (iter_next h \<lparr>it_db = d, it_state = Active cur\<rparr> = None \<longleftrightarrow> (\<exists>e. current_entry h d cur = Ok e) \<and>
      pv_nentries (cur_view cur) \<le> cur_index cur + 1 \<and>
      runs_into_cycle (leaf_hop h d) (pv_next_pg (cur_view cur)))"
  by (simp add: db_get_None iter_next_new iter_next_Active yield_current_None
      get_walk.diverges_iff first_walk.diverges_iff leaf_walk.diverges_iff)

end
