(* ===== verification/Reader_Theorems.thy ===== *)
theory Reader_Theorems
  imports Writer_Theorems Scan_Gap Reader_Safety Walks
begin

text \<open>
  What the operations of the reader promise, each on its own: opening, lookup and iteration
  on a file that the writer finished, the decision which bytes are accepted as a file, and
  the behaviour of the iterator after its end.
\<close>

section \<open>A finished file\<close>

text \<open>An image that \<open>finish\<close> writes for a well-formed builder of default settings.\<close>

definition finished :: "endian \<Rightarrow> writer \<Rightarrow> btree \<Rightarrow> bytes \<Rightarrow> bool" where
  "finished hw w t img \<longleftrightarrow> store_ok hw w t \<and> even (w_psize w) \<and> w_flags w = B_NODUPS \<and>
     finish_image hw w = Ok img"

lemma open_finished:
  assumes "finished hw w t img"
  obtains d where "open_mapped hr img = Ok d" "serves hr d hw w" "db_psize d = w_psize w"
    "db_swap d = (hr \<noteq> hw)" "store_ok hw w t"
  using assms open_image [of hw w t img hr] unfolding finished_def by metis

lemma store_pages:
  assumes "store_ok h w t"
  shows "2 \<le> page_count w"
proof -
  have W: "well h w [t] []" and "pg t = P_ROOT" using assms by (simp_all add: store_ok_def)
  then have "P_ROOT \<in> set (pgs t)" using pg_in_pgs [of t] by simp
  then show ?thesis using wellD(8) [OF W, of P_ROOT] by (simp add: in_range_def P_ROOT_def)
qed

text \<open>The finished file of a fresh builder after one \<open>put\<close>.\<close>

lemma finished_single:
  assumes "fits 4096 k v"
  obtains w t img where "finished Little w t img" "contents t = [k \<mapsto> v]"
    "groups t \<noteq> [[]]" "filled t" "length (flat t) \<le> 1" "w_psize w = 4096" "2 \<le> page_count w"
proof -
  have small: "manageable (map (\<lambda>(k, v). Put_Op k v) [(k, v)])"
    using assms by (simp add: manageable_def)
  obtain w0 w t where w: "new_writer Little ''f'' = Ok w0"
      "run_ops (put Little) (del Little) w0 (map (\<lambda>(k, v). Put_Op k v) [(k, v)]) =
        Some (map Ok (fst (spec_run Map.empty (map (\<lambda>(k, v). Put_Op k v) [(k, v)]))), w)"
      "stored Little (''f'', 4096, P_INVALID, 0, B_NODUPS) w
        (snd (spec_run Map.empty (map (\<lambda>(k, v). Put_Op k v) [(k, v)])))
        (length (map (\<lambda>(k, v). Put_Op k v) [(k, v)])) t" "filled t"
    by (rule built_filled_store [OF small])
  note s = stored_new_file [OF w(3)]
  have c: "contents t = [k \<mapsto> v]" and n: "length (flat t) \<le> 1" using s(2,6) by simp_all
  then have "groups t \<noteq> [[]]" using concat_groups(1) [of t]
    by (auto simp: contents_def dest: fun_cong [of _ _ k])
  moreover obtain img where "finish_image Little w = Ok img" using finish_image_ok [OF s(1)] by metis
  moreover have two: "2 \<le> page_count w" using store_pages [OF s(1)] .
  ultimately have "finished Little w t img" "groups t \<noteq> [[]]" using s(1,4,5) by (simp_all add: finished_def)
  then show ?thesis by (rule that [OF _ c _ w(4) n s(4) two])
qed

lemma finished_example:
  obtains w t img where "finished Little w t img" "contents t = [[1] \<mapsto> [2]]"
    "groups t \<noteq> [[]]" "filled t" "length (flat t) \<le> 1" "w_psize w = 4096" "2 \<le> page_count w"
  by (rule finished_single [of "[1]" "[2]"]) (simp add: fits_def leaf_bytes_def align_entry_eq)

text \<open>Writing the file and opening it again.\<close>

lemma finish_and_open:
  assumes S: "stored hw (path, 4096, P_INVALID, 0, B_NODUPS) w m n t"
    and io: "\<And>img. env_write env img = None" "\<And>bs. mmap_map bs = Inr bs"
  obtains fs2 d where "finish hw env w fs = (Ok (), fs2)" "db_open hr mmap_map fs2 path = Ok d" "serves hr d hw w"
proof -
  note s = stored_new_file [OF S]
  obtain img where img: "finish_image hw w = Ok img" using finish_image_ok [OF s(1)] by metis
  have ev: "even (w_psize w)" using s(4) by simp
  obtain d where d: "open_mapped hr img = Ok d" "serves hr d hw w"
    by (rule open_image [OF s(1) ev s(5) img])
  have "finish hw env w fs = (Ok (), fs(path \<mapsto> img))" using img io(1) s(3) by (simp add: finish_def)
  moreover have "db_open hr mmap_map (fs(path \<mapsto> img)) path = Ok d" using d(1) io(2) by (simp add: db_open_def)
  ultimately show ?thesis using that d(2) by blast
qed

text \<open>
  C6: lookup. A finished file is accepted by \<open>Db::open\<close> on a host of either byte order,
  which sees that the bytes have to be swapped exactly when the orders differ; then \<open>get\<close>
  of every key is the lookup in the contents of the builder.
\<close>

theorem get_refines_lookup:
  assumes "finished hw w t img"
  shows "\<exists>d. open_mapped hr img = Ok d \<and> db_psize d = w_psize w \<and> db_swap d = (hr \<noteq> hw) \<and>
    (\<forall>key. db_get hr d key = Some (Ok (contents t key)))"
proof -
  obtain d where d: "open_mapped hr img = Ok d" "serves hr d hw w" "db_psize d = w_psize w"
      "db_swap d = (hr \<noteq> hw)" "store_ok hw w t"
    by (rule open_finished [OF assms])
  show ?thesis using d get_store [OF d(5,2)] by blast
qed

lemma get_refines_lookup_witness:
  "\<exists>img d. open_mapped Big img = Ok d \<and> db_swap d \<and> db_get Big d [1] = Some (Ok (Some [2])) \<and>
    db_get Big d [3] = Some (Ok None)"
proof -
  obtain w t img where f: "finished Little w t img" "contents t = [[1] \<mapsto> [2]]" by (rule finished_example)
  from get_refines_lookup [OF f(1), of Big] obtain d where
    "open_mapped Big img = Ok d" "db_swap d = (Big \<noteq> Little)" "\<And>key. db_get Big d key = Some (Ok (contents t key))"
    by blast
  then show ?thesis using f(2) by (intro exI [of _ img] exI [of _ d]) simp
qed

text \<open>
  C12: the search ends. On a finished file \<open>search\<close> returns for every key, on a host of
  either byte order, after a descent that ends in a leaf: at a position of a leaf page when
  the key is there, and with nothing otherwise.
\<close>

theorem search_returns:
  assumes "finished hw w t img" "open_mapped hr img = Ok d"
  shows "case contents t key of
      None \<Rightarrow> search hr d key = Some (Ok None)
    | Some v \<Rightarrow> \<exists>p i. search hr d key = Some (Ok (Some \<lparr>pos_pgno = p, pos_index = i\<rparr>)) \<and> p \<in> set (leaf_pgs t)"
proof -
  obtain d' where d': "open_mapped hr img = Ok d'" "serves hr d' hw w" "store_ok hw w t"
    by (rule open_finished [OF assms(1)])
  then have V: "serves hr d hw w" using assms(2) by simp
  show ?thesis
  proof (rule search_store [OF d'(3) V, of key])
    fix p i kvs c assume a: "search hr d key = Some (Ok (Some \<lparr>pos_pgno = p, pos_index = i\<rparr>))"
      "t = plug (Leaf p kvs) c" "located kvs key True i"
    have "tree_ok [] None (plug (Leaf p kvs) c)" using d'(3) a(2) by (simp add: store_ok_def)
    from contents_found [OF this a(3)] a(1,2) show ?thesis by (simp add: leaf_pgs_plug)
  qed simp
qed

lemma search_returns_witness:
  "\<exists>img d p i. open_mapped Big img = Ok d \<and> search Big d [1] = Some (Ok (Some \<lparr>pos_pgno = p, pos_index = i\<rparr>))"
proof -
  obtain w t img where f: "finished Little w t img" "contents t = [[1] \<mapsto> [2]]" by (rule finished_example)
  obtain d where d: "open_mapped Big img = Ok d" by (rule open_finished [OF f(1), of Big])
  from search_returns [OF f(1) d, of "[1]"] f(2) d show ?thesis by auto
qed

text \<open>
  C7: iteration. On a finished file the iteration ends after finitely many items, none of
  them an error. If the leftmost leaf holds an entry, it yields every entry in ascending
  order of the keys, also when later leaves are empty; if the leftmost leaf is empty, it
  yields nothing.
\<close>

theorem scan_finished:
  assumes "finished hw w t img" "open_mapped hr img = Ok d" "length (flat t) + 1 < n"
  shows "iter_collect n hr (iter_new d) =
    Some (if hd (groups t) = [] then [] else map (\<lambda>x. Ok (entry_of x)) (flat t), True)"
proof -
  obtain d' where d': "open_mapped hr img = Ok d'" "serves hr d' hw w" "store_ok hw w t"
    by (rule open_finished [OF assms(1)])
  then have V: "serves hr d hw w" using assms(2) by simp
  have "tree_ok [] None t" using d'(3) by (simp add: store_ok_def)
  then show ?thesis using scan_store [OF d'(3) V assms(3)] first_leaf_group by simp
qed

lemma scan_finished_witness:
  "\<exists>img d. open_mapped Big img = Ok d \<and>
    iter_collect 3 Big (iter_new d) = Some ([Ok \<lparr>entry_key = [1], entry_value = [2]\<rparr>], True)"
proof -
  obtain w t img where f: "finished Little w t img" "contents t = [[1] \<mapsto> [2]]" "groups t \<noteq> [[]]" "filled t"
      "length (flat t) \<le> 1"
    by (rule finished_example)
  obtain d where d: "open_mapped Big img = Ok d" by (rule open_finished [OF f(1), of Big])
  have "map_of (flat t) [1] = Some [2]" using f(2) by (simp add: contents_def)
  then have "([1], [2]) \<in> set (flat t)" by (rule map_of_SomeD)
  with f(5) have fl: "flat t = [([1], [2])]" by (cases "flat t") auto
  have "hd (groups t) \<noteq> []"
    using f(3,4) fl concat_groups(1) [of t] by (cases "groups t") (auto simp: filled_def)
  with scan_finished [OF f(1) d, of 3] fl d show ?thesis by (auto simp: entry_of_def)
qed

text \<open>
  C37: finishing. On a well-formed file \<open>finish\<close> writes one image, a whole number of pages
  that holds the pages of the builder after the meta page. If the write fails, its error is
  returned and a prefix of the image is in the file, which \<open>Db::open\<close> rejects unless the
  prefix is a whole number of pages. No other file is touched.
\<close>

theorem finish_outcomes:
  assumes "finished hw w t img"
  shows "finish hw env w fs =
      (case env_write env img of
         None \<Rightarrow> (Ok (), fs(w_file w \<mapsto> img))
       | Some (n, e) \<Rightarrow> (Err (Io e), fs(w_file w \<mapsto> take n img))) \<and>
    length img = page_count w * w_psize w \<and>
    drop (w_psize w) img = drop (w_psize w) (w_pages w) \<and>
    (if k < length img \<and> k mod w_psize w \<noteq> 0 then \<exists>e. open_mapped hr (take k img) = Err e else True)"
proof -
  have S: "store_ok hw w t" and img: "finish_image hw w = Ok img" using assms by (simp_all add: finished_def)
  have ok: "arena_ok w" using S by (simp add: store_ok_def well_def)
  obtain img' m where i: "finish_image hw w = Ok img'" "length img' = page_count w * w_psize w" "length m = w_psize w"
      "build_meta hw (w_psize w) (w_free w) (w_nrecs w) (w_flags w) = Ok m"
    by (rule finish_image_ok [OF S], rule that)
  have len: "length img = page_count w * w_psize w" using i img by simp
  have tail: "drop (w_psize w) img = drop (w_psize w) (w_pages w)"
    using img i(3) arena_bounds [OF ok]
    by (auto simp: finish_image_def and_then_eq_Ok copy_from_slice_def splice_def split: if_splits)
  obtain d where d: "open_mapped hr img = Ok d" "db_psize d = w_psize w" by (rule open_finished [OF assms])
  have cut: "\<exists>e. open_mapped hr (take k img) = Err e" if n: "k < length img" "k mod w_psize w \<noteq> 0"
  proof (cases "k < 24")
    case True
    then have "length (take k img) < 24" by (simp add: min_def)
    then show ?thesis by (simp add: open_mapped_def sizes)
  next
    case False
    then have "sub (take k img) 0 24 = sub img 0 24" "length (take k img) = k" "\<not> length img < 24"
      using n(1) by (simp_all add: sub_def)
    then show ?thesis using d n(2) False
      by (auto simp: open_mapped_def sizes Let_def split: prod.splits if_splits)
  qed
  show ?thesis using img len tail cut by (auto simp: finish_def split: option.split)
qed

lemma finish_outcomes_witness:
  "\<exists>w img e. finish_image Little w = Ok img \<and>
    finish Little \<lparr>env_create = \<lambda>_. None, env_write = \<lambda>_. Some (5000, NotFound)\<rparr> w Map.empty =
      (Err (Io NotFound), [w_file w \<mapsto> take 5000 img]) \<and>
    open_mapped Big (take 5000 img) = Err e"
proof -
  obtain w t img where f: "finished Little w t img" "w_psize w = 4096" "2 \<le> page_count w" by (rule finished_example)
  have "finish_image Little w = Ok img" using f(1) by (simp add: finished_def)
  moreover have "5000 < length img"
    using finish_outcomes [OF f(1)] f(2,3) by simp
  moreover note finish_outcomes [OF f(1), of "\<lparr>env_create = \<lambda>_. None, env_write = \<lambda>_. Some (5000, NotFound)\<rparr>"
      Map.empty 5000 Big]
  ultimately show ?thesis using f(2) by (intro exI [of _ w] exI [of _ img]) auto
qed

section \<open>Which bytes are a file\<close>

lemma flags_allowed: "(f AND NOT SAVEMETA \<noteq> 0 \<or> f AND R_RECNO \<noteq> 0) = (f \<notin> {0, B_NODUPS})" for f :: u32
proof -
  have "B_NODUPS = 2 ^ 5" by (simp add: B_NODUPS_def)
  then have nodups: "bit B_NODUPS n = (n = 5)" for n
    using bit_exp_iff [where 'a = "32 word", of 5 n] by auto
  have zero: "(x OR y = 0) = (x = 0 \<and> y = 0)" for x y :: u32
    by (auto simp: bit_eq_iff bit_simps)
  have "NOT B_NODUPS = NOT SAVEMETA OR R_RECNO" by (simp add: B_NODUPS_def SAVEMETA_def R_RECNO_def)
  then have "f AND NOT B_NODUPS = (f AND NOT SAVEMETA) OR (f AND R_RECNO)"
    by (simp add: bit.conj_disj_distrib)
  then have "(f AND NOT SAVEMETA = 0 \<and> f AND R_RECNO = 0) = (f AND NOT B_NODUPS = 0)"
    by (simp add: zero)
  also have "\<dots> = (f \<in> {0, B_NODUPS})"
  proof
    assume z: "f AND NOT B_NODUPS = 0"
    have bit: "bit f n \<longrightarrow> n = 5" for n
      using arg_cong [OF z, of "\<lambda>w. bit w n"] bit_imp_le_length [of f n] by (auto simp: nodups bit_simps)
    show "f \<in> {0, B_NODUPS}"
    proof (cases "bit f 5")
      case True
      then have "bit f n = (n = 5)" for n using bit by blast
      then have "f = B_NODUPS" by (intro bit_word_eqI) (simp only: nodups)
      then show ?thesis by simp
    next
      case False
      then have "\<not> bit f n" for n using bit by blast
      then have "f = 0" by (intro bit_word_eqI) simp
      then show ?thesis by simp
    qed
  qed auto
  finally show ?thesis by auto
qed

text \<open>The 32-bit word at an offset of a file, in the byte order of a host.\<close>

definition file_word :: "endian \<Rightarrow> bytes \<Rightarrow> nat \<Rightarrow> u32" where
  "file_word h b off = u32_from_ne_bytes h (sub b off 4)"

text \<open>
  C21: opening. \<open>Db::open\<close> on the bytes of a file never panics, and it reports the first
  check that fails, in this order: a file shorter than the meta page header, the magic
  number in neither byte order, the version, the page size (from 512 to 32768 and even), the
  flags (only \<open>B_NODUPS\<close> may be set), and a length that is not a multiple of the page size.
\<close>

theorem open_decides:
  "open_mapped h b =
    (if length b < 24 then Err ShortFile
     else
       let e = (if file_word h b 0 = BTREE_MAGIC then h else flip h);
           ps = unat (file_word e b 8)
       in if file_word e b 0 \<noteq> BTREE_MAGIC then Err (BadMagic (file_word e b 0))
          else if file_word e b 4 \<noteq> 3 then Err (BadVersion (file_word e b 4))
          else if \<not> (512 \<le> ps \<and> ps \<le> 32768 \<and> even ps) then Err (BadPageSize (file_word e b 8))
          else if file_word e b 20 \<notin> {0, B_NODUPS} then Err (UnsupportedFlags (file_word e b 20))
          else if \<not> ps dvd length b then Err (UnalignedFileLength (of_nat (length b)) (file_word e b 8))
          else Ok \<lparr>db_mmap = b, db_psize = ps, db_swap = (file_word h b 0 \<noteq> BTREE_MAGIC)\<rparr>)"
proof (cases "length b < 24")
  case True
  then show ?thesis by (simp add: open_mapped_def)
next
  case False
  define c where "c = sub b 0 24"
  have len: "length c = 24" using False by (simp add: c_def)
  have s: "sub c off 4 = sub b off 4" if "off + 4 \<le> 24" for off using that by (simp add: c_def sub_simps)
  let ?swap = "file_word h b 0 \<noteq> BTREE_MAGIC"
  let ?e = "if file_word h b 0 = BTREE_MAGIC then h else flip h"
  have m: "[c ! 0, c ! 1, c ! 2, c ! 3] = sub b 0 4"
    using four_bytes [of 0 c] len s [of 0] by (simp add: numeral_2_eq_2)
  have sw: "(u32_from_ne_bytes h [c ! 0, c ! 1, c ! 2, c ! 3] \<noteq> BTREE_MAGIC) = ?swap"
    unfolding m file_word_def ..
  have e: "eff h ?swap = ?e" by (simp add: eff_def)
  have w: "meta_word h c ?swap off = file_word ?e b off" if "off + 4 \<le> 24" for off
    using that len s by (subst meta_word_eq) (simp_all add: e file_word_def)
  have mp: "meta_parse h c = (\<lparr>m_magic = file_word ?e b 0, m_version = file_word ?e b 4, m_psize = file_word ?e b 8,
      m_flags = file_word ?e b 20\<rparr>, ?swap)"
    unfolding meta_parse_def Let_def sw by (simp add: w)
  have flags: "(f AND NOT SAVEMETA \<noteq> 0 \<or> f AND R_RECNO \<noteq> 0) = (f \<notin> {0, B_NODUPS})" for f :: u32
    by (rule flags_allowed)
  have par: "(n AND 1 \<noteq> 0) = odd n" for n :: nat by (simp add: and_one_eq odd_iff_mod_2_eq_one)
  show ?thesis
    using False unfolding open_mapped_def sizes c_def [symmetric] mp prod.case Let_def meta.simps flags par
      BTREE_VERSION_def
    by (simp add: dvd_eq_mod_eq_0 not_le)
qed

section \<open>After the end\<close>

lemma yield_current_Done:
  assumes "yield_current h d cur = Some (r, st)" "\<And>x. r \<noteq> Ok x"
  shows "st = Done"
proof -
  define m where "m = and_then (pv_leaf_entry h (cur_view cur) (cur_index cur)) (\<lambda>leaf.
           and_then (materialise h d (cur_view cur) (le_key leaf)) (\<lambda>key.
           and_then (materialise h d (cur_view cur) (le_data leaf)) (\<lambda>value.
           Ok \<lparr>entry_key = key, entry_value = value\<rparr>)))"
  show ?thesis using assms unfolding yield_current_def m_def [symmetric]
    by (cases m) (auto split: if_splits option.splits outcome.splits)
qed

lemma done_next: "it_state it = Done \<Longrightarrow> iter_next h it = Some (None, it)"
  by (subst iter_next.simps) simp

lemma active_next:
  assumes "iter_next h it = Some (r, it')" "it_state it \<noteq> Pristine"
  shows "(\<exists>e. r = Some (Ok e)) \<or> it_state it' = Done"
proof (cases "it_state it")
  case (Active cur)
  obtain x st where y: "yield_current h (it_db it) cur = Some (x, st)" "r = Some x" "it' = it\<lparr>it_state := st\<rparr>"
    using assms(1) Active by (subst (asm) iter_next.simps) (auto split: option.splits)
  then show ?thesis using yield_current_Done [OF y(1)] by (cases x) auto
qed (use assms done_next in auto)

text \<open>A call that does not return an entry leaves the iterator in the state \<open>Done\<close>.\<close>

lemma next_ends:
  assumes "iter_next h it = Some (r, it')"
  shows "(\<exists>e. r = Some (Ok e)) \<or> it_state it' = Done"
proof (cases "it_state it")
  case Pristine
  note n = assms [unfolded iter_next.simps [of h it] Pristine iter_state.case]
  show ?thesis
  proof (cases "\<exists>st. initial_state h it = Some (Ok st)")
    case True
    then obtain st where st: "initial_state h it = Some (Ok st)" by blast
    then have "st \<noteq> Pristine" using initial_state_not_pristine by (auto simp: initial_state_def)
    then show ?thesis using active_next [of h "it\<lparr>it_state := st\<rparr>" r it'] n st by simp
  next
    case False
    then show ?thesis using n by (auto split: option.splits outcome.splits)
  qed
qed (use assms active_next in auto)

text \<open>A run of calls of \<open>next\<close>: what they return, in order, and the iterator they leave.\<close>

inductive calls :: "endian \<Rightarrow> iter \<Rightarrow> entry outcome option list \<Rightarrow> iter \<Rightarrow> bool" for h where
  no_call: "calls h it [] it"
| one_more: "iter_next h it = Some (r, it') \<Longrightarrow> calls h it' rs it'' \<Longrightarrow> calls h it (r # rs) it''"

inductive_simps calls_Nil [simp]: "calls h it [] it'"
inductive_simps calls_Cons [simp]: "calls h it (r # rs) it'"

lemma done_calls: "calls h it rs it' \<Longrightarrow> it_state it = Done \<Longrightarrow> rs = replicate (length rs) None"
  by (induction rule: calls.induct) (simp_all add: done_next)

text \<open>
  C24: what an iterator returns. Any run of calls of \<open>next\<close>, on any bytes and from any state
  of the iterator, returns entries, then at most one error, and from then on nothing.
\<close>

theorem iterator_is_fused:
  assumes "calls h it rs it'"
  shows "\<exists>es errs n. rs = map (\<lambda>e. Some (Ok e)) es @ errs @ replicate n None \<and>
    (errs = [] \<or> errs = [Some Panic] \<or> (\<exists>e. errs = [Some (Err e)]))"
  using assms
proof (induction rule: calls.induct)
  case (no_call it)
  have "([] :: entry outcome option list) = map (\<lambda>e. Some (Ok e)) [] @ [] @ replicate 0 None" by simp
  then show ?case by blast
next
  case (one_more it r it' rs it'')
  show ?case
  proof (cases "\<exists>e. r = Some (Ok e)")
    case True
    then obtain e where e: "r = Some (Ok e)" by blast
    obtain es errs n where rs: "rs = map (\<lambda>e. Some (Ok e)) es @ errs @ replicate n None"
        "errs = [] \<or> errs = [Some Panic] \<or> (\<exists>e. errs = [Some (Err e)])"
      using one_more.IH by blast
    have "r # rs = map (\<lambda>e. Some (Ok e)) (e # es) @ errs @ replicate n None" using e rs(1) by simp
    with rs(2) show ?thesis by blast
  next
    case False
    then have "it_state it' = Done" using next_ends [OF one_more.hyps(1)] by blast
    then obtain n where n: "rs = replicate n None" using done_calls [OF one_more.hyps(2)] by blast
    show ?thesis
    proof (cases r)
      case None
      then have "r # rs = map (\<lambda>e. Some (Ok e)) [] @ [] @ replicate (Suc n) None" using n by simp
      then show ?thesis by blast
    next
      case (Some x)
      then have "r # rs = map (\<lambda>e. Some (Ok e)) [] @ [Some x] @ replicate n None" using n by simp
      moreover have "x = Panic \<or> (\<exists>e. x = Err e)" using False Some by (cases x) auto
      ultimately show ?thesis by blast
    qed
  qed
qed

text \<open>An iterator over a handle whose root page is beyond the end of the file.\<close>

lemma iterator_is_fused_witness:
  defines "rs \<equiv> [Some (Err (PageOutOfBounds 1)), None, None]"
  shows "calls Little (iter_new \<lparr>db_mmap = [], db_psize = 512, db_swap = False\<rparr>) rs
      \<lparr>it_db = \<lparr>db_mmap = [], db_psize = 512, db_swap = False\<rparr>, it_state = Done\<rparr> \<and>
    (\<exists>es errs n. rs = map (\<lambda>e. Some (Ok e)) es @ errs @ replicate n None \<and>
    (errs = [] \<or> errs = [Some Panic] \<or> (\<exists>e. errs = [Some (Err e)])))"
proof -
  let ?it = "iter_new \<lparr>db_mmap = [], db_psize = 512, db_swap = False\<rparr>"
    and ?last = "\<lparr>it_db = \<lparr>db_mmap = [], db_psize = 512, db_swap = False\<rparr>, it_state = Done\<rparr>"
  have v: "db_view Little (it_db ?it) P_ROOT = Err (PageOutOfBounds 1)"
    by (simp add: iter_new_def db_view_def db_page_def get_range_def P_ROOT_def)
  have "initial_state Little ?it = Some (Err (PageOutOfBounds 1))"
    unfolding initial_state_def by (subst initial_state_from.simps) (simp add: v)
  moreover have "it_state ?it = Pristine" "?it\<lparr>it_state := Done\<rparr> = ?last" by (simp_all add: iter_new_def)
  ultimately have "iter_next Little ?it = Some (Some (Err (PageOutOfBounds 1)), ?last)"
    by (subst iter_next.simps) (simp only: iter_state.case option.case outcome.case)
  then have "calls Little ?it rs ?last" by (simp add: done_next rs_def)
  with iterator_is_fused [OF this] show ?thesis by blast
qed

end
