(* ===== verification/Dump_Theorems.thy ===== *)
theory Dump_Theorems
  imports Dump Reader_Theorems
begin

text \<open>
  What the example program prints, from the creation of the file to standard output.
\<close>

section \<open>The output\<close>

text \<open>A standard output that takes everything, and the line of an entry.\<close>

definition all_output :: "bytes sink" where
  "all_output = \<lparr>out_write = (\<lambda>out b. (None, out @ b)), out_flush = (\<lambda>out. (None, out))\<rparr>"

definition pair_line :: "bytes \<times> bytes \<Rightarrow> bytes" where
  "pair_line kv = ascii ''file: '' @ trim_nul (fst kv) @ ascii '' pkg: '' @ trim_nul (snd kv) @ [10]"

lemma write_pair_all: "write_pair all_output out k v = (None, out @ pair_line (k, v))"
  by (simp add: write_pair_def all_output_def pair_line_def)

text \<open>The loop prints a line for each entry that the iteration yields.\<close>

lemma dump_entries_collect:
  assumes "iter_collect n h it = Some (map (\<lambda>x. Ok (entry_of x)) xs, True)"
  shows "dump_entries h all_output it out = Some (Exit_Code 0, out @ concat (map pair_line xs))"
  using assms
proof (induction n arbitrary: it xs out)
  case (Suc n)
  show ?case
  proof (cases "iter_next h it")
    case (Some ri)
    obtain r it' where ri: "ri = (r, it')" by (cases ri)
    show ?thesis
    proof (cases r)
      case None
      then show ?thesis using Suc.prems Some ri
        by (subst dump_entries.simps) (simp add: all_output_def)
    next
      case r: (Some x)
      then obtain ys where ys: "iter_collect n h it' = Some (ys, True)" "x # ys = map (\<lambda>x. Ok (entry_of x)) xs"
        using Suc.prems Some ri by (auto split: option.splits)
      then obtain kv kvs where xs: "xs = kv # kvs" "x = Ok (entry_of kv)" "ys = map (\<lambda>x. Ok (entry_of x)) kvs"
        by (cases xs) auto
      have "dump_entries h all_output it' (out @ pair_line kv) =
          Some (Exit_Code 0, (out @ pair_line kv) @ concat (map pair_line kvs))"
        using Suc.IH ys(1) xs(3) by blast
      then show ?thesis using Some ri r xs
        by (subst dump_entries.simps) (simp add: entry_of_def write_pair_all)
    qed
  qed (use Suc.prems in simp)
qed simp

section \<open>The whole path\<close>

text \<open>
  C3: a file from creation to the printed dump. Put a manageable list of entries into a new
  file (each within half a page, and at most 46000 of them, or 1073741724 if no key is
  longer than 1007 bytes), finish, and run the program with the path of the file alone, on a
  host of either byte order: it prints one line for every entry of the map, in ascending
  order of the keys, nothing on standard error, and exits with 0.
\<close>

theorem build_and_dump:
  assumes "fs (os_path arg) = None" "env_create env (os_path arg) = None" "\<And>img. env_write env img = None"
    and "\<And>bs. mmap_map bs = Inr bs"
    and "manageable (map (\<lambda>(k, v). Put_Op k v) kvs)"
  shows "\<exists>w0 fs1 rs w fs2 xs.
    create_new hw env fs (os_path arg) = (Ok w0, fs1) \<and>
    run_ops (put hw) (del hw) w0 (map (\<lambda>(k, v). Put_Op k v) kvs) = Some (rs, w) \<and>
    finish hw env w fs1 = (Ok (), fs2) \<and>
    dump_main hr mmap_map fs2 all_output [arg] [] = Some (Exit_Code 0, concat (map pair_line xs), []) \<and>
    sorted_wrt (\<lambda>x y. fst x < fst y) xs \<and>
    map_of xs = snd (spec_run Map.empty (map (\<lambda>(k, v). Put_Op k v) kvs))"
proof -
  let ?ops = "map (\<lambda>(k, v). Put_Op k v) kvs"
  obtain w0 w t where w: "new_writer hw (os_path arg) = Ok w0"
      "run_ops (put hw) (del hw) w0 ?ops = Some (map Ok (fst (spec_run Map.empty ?ops)), w)"
      "stored hw (os_path arg, 4096, P_INVALID, 0, B_NODUPS) w (snd (spec_run Map.empty ?ops)) (length ?ops) t"
      "filled t"
    by (rule built_filled_store [OF assms(5)])
  note s = stored_new_file [OF w(3)]
  have c: "create_new hw env fs (os_path arg) = (Ok w0, fs(os_path arg \<mapsto> []))"
    using assms(1,2) w(1) by (simp add: create_new_def)
  obtain fs2 d where f: "finish hw env w (fs(os_path arg \<mapsto> [])) = (Ok (), fs2)"
      "db_open hr mmap_map fs2 (os_path arg) = Ok d" "serves hr d hw w"
    by (rule finish_and_open [OF w(3) assms(3,4)])
  have "iter_collect (length (flat t) + 2) hr (iter_new d) = Some (map (\<lambda>x. Ok (entry_of x)) (flat t), True)"
    by (rule filled_scan [OF s(1) w(4) f(3)]) simp
  from dump_entries_collect [OF this, of "[]"]
  have "dump_main hr mmap_map fs2 all_output [arg] [] = Some (Exit_Code 0, concat (map pair_line (flat t)), [])"
    using f(2) by (simp add: dump_main_def into_iter_def db_iter_def)
  moreover have "tree_ok [] None t" using s(1) by (simp add: store_ok_def)
  then have "sorted_wrt (\<lambda>x y. fst x < fst y) (flat t)"
    using flat_bounds(1) by (simp add: ascending_def)
  moreover have "map_of (flat t) = snd (spec_run Map.empty ?ops)" using s(2) by (simp add: contents_def)
  ultimately show ?thesis using c w(2) f(1) by blast
qed

lemma build_and_dump_witness:
  "\<exists>fs2 xs. dump_main Big Inr fs2 all_output [[102]] [] = Some (Exit_Code 0, concat (map pair_line xs), []) \<and>
    sorted_wrt (\<lambda>x y. fst x < fst y) xs \<and> map_of xs = [[3, 0] \<mapsto> [4], [1, 0] \<mapsto> [2, 0]]"
proof -
  let ?env = "\<lparr>env_create = \<lambda>_. None, env_write = \<lambda>_. None\<rparr>"
  from build_and_dump [of Map.empty "[102]" ?env Inr "[([3, 0], [4]), ([1, 0], [2, 0])]" Little Big]
  show ?thesis by (simp add: manageable_def fits_def leaf_bytes_def align_entry_eq) blast
qed

text \<open>
  C38: looking up a key. On a finished file, with a key argument of any bytes, the program
  looks up the argument with every invalid UTF-8 sequence replaced by U+FFFD and a NUL
  appended. If the file holds that key, it prints the value without a trailing NUL, again
  with every invalid sequence replaced, and exits with 0; otherwise it prints nothing and
  exits with 1. The replacement leaves ASCII bytes as they are, so an ASCII key is looked up,
  and an ASCII value printed, unchanged.
\<close>

theorem dump_looks_up:
  assumes "finished hw w t img" "fs (os_path arg) = Some img" "\<And>bs. mmap_map bs = Inr bs"
  shows "dump_main hr mmap_map fs all_output [arg, key] [] =
      (case contents t (utf8_lossy key @ [0]) of
         None \<Rightarrow> Some (Exit_Code 1, [], [])
       | Some v \<Rightarrow> Some (Exit_Code 0, utf8_lossy (trim_nul v) @ [10], [])) \<and>
    (\<forall>bs. list_all (\<lambda>b. b < 0x80) bs \<longrightarrow> utf8_lossy bs = bs)"
proof -
  obtain d where d: "open_mapped hr img = Ok d" "serves hr d hw w" "store_ok hw w t"
    by (rule open_finished [OF assms(1)])
  have "db_open hr mmap_map fs (os_path arg) = Ok d" using assms(2,3) d(1) by (simp add: db_open_def)
  then show ?thesis
    using get_store [OF d(3,2), of "utf8_lossy key @ [0]"] utf8_lossy_ascii
    by (simp add: dump_main_def dump_key_def all_output_def split: option.split)
qed

text \<open>
  A file with the key \<open>a\<close>, whose value is the byte FF with a NUL: the value is printed as
  U+FFFD, and the keys \<open>b\<close> and FF are not found.
\<close>

lemma dump_looks_up_witness:
  "\<exists>img. let run = (\<lambda>key. dump_main Big Inr [''f'' \<mapsto> img] all_output [[102], key] []) in
    run [97] = Some (Exit_Code 0, [0xEF, 0xBF, 0xBD, 10], []) \<and>
    run [98] = Some (Exit_Code 1, [], []) \<and> run [0xFF] = Some (Exit_Code 1, [], [])"
proof -
  obtain w t img where f: "finished Little w t img" "contents t = [[97, 0] \<mapsto> [0xFF, 0]]"
    by (rule finished_single [of "[97, 0]" "[0xFF, 0]"]) (simp add: fits_def leaf_bytes_def align_entry_eq)
  have p: "os_path [102] = ''f''" by (simp add: os_path_def char_of_def bit_0)
  have u: "utf8_lossy [97] = [97]" "utf8_lossy [98] = [98]" "utf8_lossy [0xFF] = [0xEF, 0xBF, 0xBD]"
      "trim_nul [0xFF, 0] = [0xFF]"
    by (simp_all add: utf8_step_def Let_def is_cont_def second_of_three_def second_of_four_def trim_nul_def)
  note run = dump_looks_up [OF f(1), of "[''f'' \<mapsto> img]" "[102]" Inr Big, THEN conjunct1]
  show ?thesis
    using run [of "[97]"] run [of "[98]"] run [of "[0xFF]"] p f(2) u
    by (intro exI [of _ img]) (simp add: Let_def)
qed

end
