(* ===== verification/Page_Theorems.thy ===== *)
theory Page_Theorems
  imports Root_Page Leaf_Split File_Image
begin

text \<open>
  What the page-level functions promise, each on its own: a page that the writer edits is
  read back by \<open>PageView\<close> on a host of either byte order, a split distributes the entries,
  a separator separates, both searches of an internal page take the same child, and the
  meta page round-trips.
\<close>

section \<open>The entries of a page, read by the reader\<close>

definition read_all :: "(nat \<Rightarrow> 'a outcome) \<Rightarrow> nat \<Rightarrow> 'a list outcome" where
  "read_all f n = for_each [0..<n] (\<lambda>i xs. and_then (f i) (\<lambda>x. Ok (xs @ [x]))) []"

definition leaf_entries :: "endian \<Rightarrow> u32 \<Rightarrow> bytes \<Rightarrow> bool \<Rightarrow> (bytes \<times> bytes) list outcome" where
  "leaf_entries h pgno buf swap =
     and_then (pv_parse h pgno buf swap) (\<lambda>view.
     and_then (assert_that (pv_is_leaf view)) (\<lambda>_.
     read_all (\<lambda>i. and_then (pv_leaf_entry h view i) (\<lambda>e.
       and_then (pv_inline view (le_key e)) (\<lambda>k.
       and_then (pv_inline view (le_data e)) (\<lambda>v. Ok (k, v))))) (pv_nentries view)))"

definition node_entries :: "endian \<Rightarrow> u32 \<Rightarrow> bytes \<Rightarrow> bool \<Rightarrow> (bytes \<times> u32) list outcome" where
  "node_entries h pgno buf swap =
     and_then (pv_parse h pgno buf swap) (\<lambda>view.
     and_then (assert_that (pv_is_internal view)) (\<lambda>_.
     read_all (\<lambda>i. and_then (pv_internal_entry h view i) (\<lambda>e.
       and_then (pv_inline view (ie_key e)) (\<lambda>k. Ok (k, ie_child e)))) (pv_nentries view)))"

lemma read_all_Ok:
  assumes "\<And>i. i < length xs \<Longrightarrow> f i = Ok (xs ! i)"
  shows "read_all f (length xs) = Ok xs"
proof -
  have "n \<le> length xs \<Longrightarrow> read_all f n = Ok (take n xs)" for n
  proof (induction n)
    case (Suc n)
    then show ?case using assms [of n]
      by (simp add: read_all_def for_each_append take_Suc_conv_app_nth)
  qed (simp add: read_all_def)
  then show ?thesis by simp
qed

lemma leaf_entries_page:
  assumes L: "leaf_page (eff h swap) buf kvs"
  shows "leaf_entries h pgno buf swap = Ok kvs"
proof -
  note pl = parse_leaf_page [OF L, of pgno]
  have P: "page_holds (eff h swap) buf (map (enc_bleaf (eff h swap)) kvs)"
    using L by (simp add: leaf_page_def)
  let ?v = "view_of h pgno buf swap"
  have "and_then (pv_leaf_entry h ?v i) (\<lambda>e.
       and_then (pv_inline ?v (le_key e)) (\<lambda>k.
       and_then (pv_inline ?v (le_data e)) (\<lambda>v. Ok (k, v)))) = Ok (kvs ! i)" if "i < length kvs" for i
    by (rule leaf_entry_read [OF P that, of pgno]) simp
  from read_all_Ok [OF this] show ?thesis
    unfolding leaf_entries_def pl(1) and_then_simps assert_that_simps(1) [OF pl(3)] pl(2) by simp
qed

lemma node_entries_page:
  assumes I: "int_page (eff h swap) buf kcs"
  shows "node_entries h pgno buf swap = Ok kcs"
proof -
  note pi = parse_int_page [OF I, of pgno]
  let ?v = "view_of h pgno buf swap"
  have "and_then (pv_internal_entry h ?v i) (\<lambda>e.
       and_then (pv_inline ?v (ie_key e)) (\<lambda>k. Ok (k, ie_child e))) = Ok (kcs ! i)" if "i < length kcs" for i
    by (rule internal_entry_page [OF I that, of pgno]) simp
  from read_all_Ok [OF this] show ?thesis
    unfolding node_entries_def pi(1) and_then_simps assert_that_simps(1) [OF pi(4)] pi(2) by simp
qed

text \<open>A page in the byte order of its writer, read on a host of either byte order.\<close>

lemma eff_other [simp]: "eff hr (hr \<noteq> hw) = hw"
  by (rule eff_neq)

section \<open>Inserting and deleting\<close>

text \<open>Fresh leaf pages, where the examples start.\<close>

lemma empty_leaf_page:
  assumes "20 \<le> psize" "psize \<le> 32768"
  obtains b where "empty_leaf h pgno psize = Ok b" "leaf_page h b []" "length b = psize"
    "hd_lower h b = 20" "hd_upper h b = psize"
proof -
  obtain b where b: "empty_page h pgno psize P_BLEAF = Ok b" "fresh h P_BLEAF b" "length b = psize"
    using empty_page_fresh [of psize h pgno P_BLEAF] assms by auto
  have "leaf_page h b []" using b(2) by (simp add: fresh_def leaf_page_def)
  then show ?thesis using that b fresh_upper [OF b(2)] leaf_page_header(3) [of h b "[]"]
    by (simp add: empty_leaf_def)
qed

text \<open>
  C25: an insertion is read back. On a leaf page with the entries \<open>kvs\<close> and room for an entry
  with its slot, \<open>insert_leaf_entry\<close> returns a page of the same size with the same page
  number, links and type, and a reader on a host of either byte order reads from it the old
  entries with the new one at its index.
\<close>

theorem insert_leaf_read_back:
  assumes "leaf_page hw buf kvs" "idx \<le> length kvs"
    and "hd_lower hw buf + 2 + leaf_bytes (key, val) \<le> hd_upper hw buf"
  shows "\<exists>b. insert_leaf_entry hw buf idx key val = Ok b \<and> length b = length buf \<and> ident b = ident buf \<and>
    leaf_page hw b (take idx kvs @ (key, val) # drop idx kvs) \<and>
    leaf_entries hr pgno b (hr \<noteq> hw) = Ok (take idx kvs @ (key, val) # drop idx kvs)"
proof -
  obtain b where b: "insert_leaf_entry hw buf idx key val = Ok b" "leaf_page hw b (ins_at idx (key, val) kvs)"
      "ident b = ident buf" "length b = length buf"
    by (rule insert_leaf_page [OF assms])
  then show ?thesis using leaf_entries_page [of hr "hr \<noteq> hw" b] by (simp add: ins_at_def)
qed

lemma insert_leaf_read_back_witness:
  "\<exists>b b1 b2. empty_leaf Little 5 512 = Ok b \<and> insert_leaf_entry Little b 0 [7] [8] = Ok b1 \<and>
    insert_leaf_entry Little b1 0 [1] [] = Ok b2 \<and>
    leaf_entries Big 5 b2 True = Ok [([1], []), ([7], [8])]"
proof -
  obtain b where b: "empty_leaf Little 5 512 = Ok b" "leaf_page Little b []" "length b = 512"
      "hd_lower Little b = 20" "hd_upper Little b = 512"
    by (rule empty_leaf_page [of 512]) simp_all
  have "hd_lower Little b + 2 + leaf_bytes ([7], [8]) \<le> hd_upper Little b"
    by (simp add: b leaf_bytes_def align_entry_eq)
  from insert_leaf_read_back [OF b(2) _ this, of 0] obtain b1 where
    b1: "insert_leaf_entry Little b 0 [7] [8] = Ok b1" "leaf_page Little b1 [([7], [8])]" "length b1 = 512"
    using b(3) by auto
  note hd = leaf_page_header [OF b1(2)]
  have "hd_lower Little b1 + 2 + leaf_bytes ([1], []) \<le> hd_upper Little b1"
    using hd(3,5) b1(3) by (simp add: leaf_bytes_def align_entry_eq)
  from insert_leaf_read_back [OF b1(2) _ this, of 0 Big 5] show ?thesis using b(1) b1(1) by auto
qed

text \<open>
  C26: a deletion is read back. On a leaf page \<open>delete_leaf_entry\<close> of an entry returns a
  page of the same size with the same page number, links and type, the other entries are
  read back in their order, and the space of the entry and of its slot is free again.
\<close>

theorem delete_leaf_read_back:
  assumes "leaf_page hw buf kvs" "idx < length kvs"
  shows "\<exists>b. delete_leaf_entry hw buf idx = Ok b \<and> length b = length buf \<and> ident b = ident buf \<and>
    leaf_page hw b (take idx kvs @ drop (Suc idx) kvs) \<and>
    leaf_entries hr pgno b (hr \<noteq> hw) = Ok (take idx kvs @ drop (Suc idx) kvs) \<and>
    pb_free_space hw b = Ok (hd_upper hw buf - hd_lower hw buf + leaf_bytes (kvs ! idx) + 2)"
proof -
  obtain b where b: "delete_leaf_entry hw buf idx = Ok b" "leaf_page hw b (rem_at idx kvs)"
      "ident b = ident buf" "length b = length buf"
    by (rule delete_leaf_page [OF assms])
  note h = leaf_page_header [OF assms(1)] and h' = leaf_page_header [OF b(2)]
  have s: "sum_list (map leaf_bytes (rem_at idx kvs)) + leaf_bytes (kvs ! idx) = sum_list (map leaf_bytes kvs)"
    using sum_list_rem_at [OF assms(2), of leaf_bytes] by simp
  have l: "Suc (length (rem_at idx kvs)) = length kvs" using assms(2) by simp
  have "pb_free_space hw b = Ok (hd_upper hw b - hd_lower hw b)"
    using pb_free_space_eq [of b hw] h'(1,4) by simp
  moreover have "hd_upper hw b - hd_lower hw b = hd_upper hw buf - hd_lower hw buf + leaf_bytes (kvs ! idx) + 2"
    using h(3,4,5) h'(3,4,5) b(4) s l by linarith
  ultimately show ?thesis using b leaf_entries_page [of hr "hr \<noteq> hw" b] by (simp add: rem_at_def)
qed

text \<open>A page of two entries, for the examples.\<close>

lemma example_leaf:
  obtains b where "leaf_page Little b [([1], []), ([7], [8])]" "length b = 512"
    "hd_lower Little b = 24" "hd_upper Little b = 488"
proof -
  obtain b where b: "leaf_page Little b []" "length b = 512" "hd_lower Little b = 20" "hd_upper Little b = 512"
    by (rule empty_leaf_page [of 512 Little 5]) simp_all
  have "hd_lower Little b + 2 + leaf_bytes ([7], [8]) \<le> hd_upper Little b"
    by (simp add: b leaf_bytes_def align_entry_eq)
  from insert_leaf_page [OF b(1) _ this, of 0] obtain b1 where
    b1: "leaf_page Little b1 [([7], [8])]" "length b1 = 512"
    using b(2) by (auto simp: ins_at_def)
  have "hd_lower Little b1 + 2 + leaf_bytes ([1], []) \<le> hd_upper Little b1"
    using leaf_page_header(3,5) [OF b1(1)] b1(2) by (simp add: leaf_bytes_def align_entry_eq)
  from insert_leaf_page [OF b1(1) _ this, of 0] obtain b2 where
    b2: "leaf_page Little b2 [([1], []), ([7], [8])]" "length b2 = 512"
    using b1(2) by (auto simp: ins_at_def)
  with leaf_page_header(3,5) [OF b2(1)] show ?thesis
    by (intro that) (simp_all add: leaf_bytes_def align_entry_eq)
qed

lemma delete_leaf_read_back_witness:
  "\<exists>b b'. leaf_entries Big 5 b True = Ok [([1], []), ([7], [8])] \<and> delete_leaf_entry Little b 0 = Ok b' \<and>
    leaf_entries Big 5 b' True = Ok [([7], [8])] \<and> pb_free_space Little b' = Ok 478"
proof -
  obtain b where b: "leaf_page Little b [([1], []), ([7], [8])]" "hd_lower Little b = 24" "hd_upper Little b = 488"
    by (rule example_leaf)
  from delete_leaf_read_back [OF b(1), of 0 Big 5] leaf_entries_page [of Big True b _ 5] b
  show ?thesis by (auto simp: leaf_bytes_def align_entry_eq eff_def)
qed

text \<open>
  An insertion is undone by the deletion at its index. On a leaf page with room for the
  entry, inserting it and deleting it again gives a page with the same entries, the same
  free space and the same header fields.
\<close>

theorem insert_delete_round_trip:
  assumes "leaf_page hw buf kvs" "idx \<le> length kvs"
    and "hd_lower hw buf + 2 + leaf_bytes (key, val) \<le> hd_upper hw buf"
  shows "\<exists>b. and_then (insert_leaf_entry hw buf idx key val) (\<lambda>b1. delete_leaf_entry hw b1 idx) = Ok b \<and>
    leaf_entries hr pgno b (hr \<noteq> hw) = leaf_entries hr pgno buf (hr \<noteq> hw) \<and>
    pb_lower hw b = pb_lower hw buf \<and> pb_upper hw b = pb_upper hw buf \<and>
    pb_nentries hw b = pb_nentries hw buf \<and> ident b = ident buf \<and> length b = length buf"
proof -
  obtain b1 where b1: "insert_leaf_entry hw buf idx key val = Ok b1" "leaf_page hw b1 (ins_at idx (key, val) kvs)"
      "ident b1 = ident buf" "length b1 = length buf"
    by (rule insert_leaf_page [OF assms])
  have "idx < length (ins_at idx (key, val) kvs)" using assms(2) by simp
  then obtain b where b: "delete_leaf_entry hw b1 idx = Ok b" "leaf_page hw b (rem_at idx (ins_at idx (key, val) kvs))"
      "ident b = ident b1" "length b = length b1"
    by (rule delete_leaf_page [OF b1(2)])
  have same: "rem_at idx (ins_at idx (key, val) kvs) = kvs" using assms(2) by (simp add: rem_at_def ins_at_def)
  note L = b(2) [unfolded same]
  note h = leaf_page_header [OF assms(1)] and h' = leaf_page_header [OF L]
  have "hd_upper hw b = hd_upper hw buf" using h(5) h'(5) b(4) b1(4) by linarith
  then show ?thesis
    using b b1 h(1,3,4) h'(1,3,4) leaf_entries_page [of hr "hr \<noteq> hw" b kvs]
      leaf_entries_page [of hr "hr \<noteq> hw" buf kvs] assms(1) L
    by (simp add: pb_header pb_nentries_eq)
qed

lemma insert_delete_round_trip_witness:
  "\<exists>b b'. leaf_entries Big 5 b True = Ok [([1], []), ([7], [8])] \<and>
    and_then (insert_leaf_entry Little b 1 [3] [4, 5]) (\<lambda>b1. delete_leaf_entry Little b1 1) = Ok b' \<and>
    leaf_entries Big 5 b' True = Ok [([1], []), ([7], [8])]"
proof -
  obtain b where b: "leaf_page Little b [([1], []), ([7], [8])]" "hd_lower Little b = 24" "hd_upper Little b = 488"
    by (rule example_leaf)
  have "hd_lower Little b + 2 + leaf_bytes ([3], [4, 5]) \<le> hd_upper Little b"
    by (simp add: b leaf_bytes_def align_entry_eq)
  from insert_delete_round_trip [OF b(1) _ this, of 1 Big 5] leaf_entries_page [of Big True b _ 5] b(1)
  show ?thesis by (auto simp: eff_def)
qed

section \<open>Searching\<close>

text \<open>The number of entries below a key.\<close>

definition keys_below :: "(bytes \<times> 'a) list \<Rightarrow> bytes \<Rightarrow> nat" where
  "keys_below kvs key = length (filter (\<lambda>x. fst x < key) kvs)"

lemma count_below:
  assumes "i \<le> length xs" "\<And>j. j < i \<Longrightarrow> fst (xs ! j) < key"
    and "\<And>j. i \<le> j \<Longrightarrow> j < length xs \<Longrightarrow> \<not> fst (xs ! j) < (key :: bytes)"
  shows "length (filter (\<lambda>x. fst x < key) xs) = i"
proof -
  have "filter (\<lambda>x. fst x < key) (take i xs) = take i xs"
    using assms(1,2) by (intro filter_True) (clarsimp simp: in_set_conv_nth, metis fst_conv)
  moreover have "filter (\<lambda>x. fst x < key) (drop i xs) = []"
    proof (intro filter_False ballI)
    fix x assume "x \<in> set (drop i xs)"
    then obtain j where "j < length xs - i" "x = xs ! (i + j)" using assms(1) by (auto simp: in_set_conv_nth)
    then show "\<not> fst x < key" using assms(3) [of "i + j"] by simp
  qed
  ultimately have "filter (\<lambda>x. fst x < key) (take i xs @ drop i xs) = take i xs"
    unfolding filter_append by simp
  then show ?thesis using assms(1) by simp
qed

lemma located_count:
  assumes "ascending kvs" "located kvs key found i"
  shows "found \<longleftrightarrow> key \<in> fst ` set kvs" "keys_below kvs key = i"
proof -
  show "keys_below kvs key = i"
  unfolding keys_below_def
  proof (rule count_below)
    show "i \<le> length kvs" using assms(2) by (auto simp: located_def split: if_splits)
    show "fst (kvs ! j) < key" if "j < i" for j
      using assms(2) that ascendingD [OF assms(1), of j i] by (auto simp: located_def split: if_splits)
    show "\<not> fst (kvs ! j) < key" if "i \<le> j" "j < length kvs" for j
      using assms(2) that ascendingD [OF assms(1), of i j]
      by (cases "j = i") (auto simp: located_def split: if_splits dest: less_asym)
  qed
  show "found \<longleftrightarrow> key \<in> fst ` set kvs"
  proof (cases found)
    case True
    then have "i < length kvs" "fst (kvs ! i) = key" using assms(2) by (simp_all add: located_def)
    then show ?thesis using True nth_mem [of i kvs] by force
  next
    case False
    then have "fst (kvs ! j) \<noteq> key" if "j < length kvs" for j
      using assms(2) that by (cases "j < i") (auto simp: located_def not_less dest!: spec [of _ j])
    then have "key \<notin> fst ` set kvs" by (metis imageE in_set_conv_nth)
    then show ?thesis using False by simp
  qed
qed

text \<open>
  C30: both binary searches of a leaf agree with counting. On a leaf page whose keys ascend,
  \<open>leaf_search\<close> of the writer returns whether the key is there and how many keys are below
  it, and \<open>search_leaf\<close> of a reader on a host of either byte order returns the position of
  the key exactly when it is there.
\<close>

theorem leaf_searches_count:
  assumes "leaf_page hw buf kvs" "ascending kvs"
  shows "leaf_search hw pgno buf key = Ok (key \<in> fst ` set kvs, keys_below kvs key) \<and>
    and_then (pv_parse hr pgno buf (hr \<noteq> hw)) (\<lambda>view. search_leaf hr d view key) =
      Ok (if key \<in> fst ` set kvs then Some \<lparr>pos_pgno = pgno, pos_index = keys_below kvs key\<rparr> else None)"
proof -
  obtain found i where w: "leaf_search hw pgno buf key = Ok (found, i)" "located kvs key found i"
    by (rule leaf_search_page [OF assms(1,2)])
  have L: "leaf_page (eff hr (hr \<noteq> hw)) buf kvs" using assms(1) by simp
  have p: "pv_parse hr pgno buf (hr \<noteq> hw) = Ok (view_of hr pgno buf (hr \<noteq> hw))"
    by (rule parse_leaf_page(1) [OF L])
  have "search_leaf hr d (view_of hr pgno buf (hr \<noteq> hw)) key =
      Ok (if key \<in> fst ` set kvs then Some \<lparr>pos_pgno = pgno, pos_index = keys_below kvs key\<rparr> else None)"
  proof (rule search_leaf_page [OF L assms(2), of d pgno key])
    fix j assume s: "search_leaf hr d (view_of hr pgno buf (hr \<noteq> hw)) key = Ok (Some \<lparr>pos_pgno = pgno, pos_index = j\<rparr>)"
      and j: "j < length kvs" "fst (kvs ! j) = key"
    then have "located kvs key True j" by (simp add: located_def)
    from located_count [OF assms(2) this] s show ?thesis by simp
  qed simp
  then show ?thesis using w located_count [OF assms(2) w(2)] p by simp
qed

lemma leaf_searches_count_witness:
  "\<exists>b. leaf_entries Big 5 b True = Ok [([1], []), ([7], [8])] \<and>
    leaf_search Little 5 b [7] = Ok (True, 1) \<and> leaf_search Little 5 b [9] = Ok (False, 2) \<and>
    leaf_search Little 5 b [2] = Ok (False, 1)"
proof -
  obtain b where b: "leaf_page Little b [([1], []), ([7], [8])]" by (rule example_leaf)
  have "ascending [([1 :: u8], []), ([7], [8 :: u8])]" by (simp add: ascending_def)
  note s = leaf_searches_count [OF b this, of 5]
  have "leaf_entries Big 5 b True = Ok [([1], []), ([7], [8])]"
    using leaf_entries_page [of Big True b] b by (simp add: eff_def)
  moreover have "leaf_search Little 5 b [7] = Ok (True, 1)" "leaf_search Little 5 b [9] = Ok (False, 2)"
      "leaf_search Little 5 b [2] = Ok (False, 1)"
    using s [of "[7]"] s [of "[9]"] s [of "[2]"] by (simp_all add: keys_below_def)
  ultimately show ?thesis by blast
qed

lemma child_slot_unique: "child_slot xs key c \<Longrightarrow> child_slot xs key c' \<Longrightarrow> c = c'"
  unfolding child_slot_def by (metis linorder_not_le nat_neq_iff)

text \<open>
  C31: reader and writer take the same child. On an internal page whose keys ascend and do
  not lie above the search key in the first slot, \<open>descend_internal_pick\<close> of the writer
  and \<open>descend_internal\<close> of a reader on a host of either byte order choose the same slot,
  the last one whose key is not above the search key.
\<close>

theorem same_child:
  assumes "int_page hw buf kcs" "ascending kcs" "kcs \<noteq> []" "fst (kcs ! 0) \<le> key"
  shows "\<exists>c. child_slot kcs key c \<and>
    and_then (pv_parse hw pgno buf False) (\<lambda>view.
      descend_internal_pick hw view key (pv_prev_pg view = P_INVALID)) = Ok c \<and>
    and_then (pv_parse hr pgno buf (hr \<noteq> hw)) (\<lambda>view. descend_internal hr d view key) = Ok (snd (kcs ! c))"
proof -
  have W: "int_page (eff hw False) buf kcs" and R: "int_page (eff hr (hr \<noteq> hw)) buf kcs"
    using assms(1) by simp_all
  obtain c where c: "descend_internal_pick hw (view_of hw pgno buf False) key (hd_prev hw buf = P_INVALID) = Ok c"
      "child_slot kcs key c"
    by (rule descend_internal_pick_page [OF assms])
  obtain c' where c': "descend_internal hr d (view_of hr pgno buf (hr \<noteq> hw)) key = Ok (snd (kcs ! c'))"
      "child_slot kcs key c'"
    by (rule descend_internal_page [OF R assms(2-4)])
  have "pv_prev_pg (view_of hw pgno buf False) = hd_prev hw buf" by (simp add: view_of_simps)
  then show ?thesis
    using c c' child_slot_unique [OF c(2) c'(2)] parse_int_page(1) [OF W, of pgno] parse_int_page(1) [OF R, of pgno]
    by (intro exI [of _ c]) simp
qed

text \<open>An internal page of two entries, for the examples.\<close>

lemma example_node:
  obtains b where "int_page Little b [([], 2), ([5], 3)]" "length b = 512"
    "hd_lower Little b = 24" "hd_upper Little b = 488"
proof -
  obtain p where p: "leaf_page Little p []" "length p = 512"
    by (rule empty_leaf_page [of 512 Little 1]) simp_all
  have f: "hd_flags Little p = P_BLEAF \<or> hd_flags Little p = P_BINTERNAL" using leaf_page_header(7) [OF p(1)] by simp
  have k: "key_bytes [5] + 36 \<le> 512" by (simp add: key_bytes_def align_entry_eq)
  obtain b where b: "int_page Little b [([], 2), ([5], 3)]" "length b = 512"
    by (rule convert_root_page [OF p(2) _ _ f k, of 2 3]) simp_all
  with int_page_header(3,5) [OF b(1)] show ?thesis
    by (intro that) (simp_all add: int_bytes_def align_entry_eq)
qed

lemma same_child_witness:
  "\<exists>b d. node_entries Big 1 b True = Ok [([], 2), ([5], 3)] \<and>
    and_then (pv_parse Big 1 b True) (\<lambda>view. descend_internal Big d view [4, 9]) = Ok 2"
proof -
  obtain b where b: "int_page Little b [([], 2), ([5], 3)]" by (rule example_node)
  have a: "ascending [([] :: bytes, 2 :: u32), ([5], 3)]" by (simp add: ascending_def)
  obtain c where "child_slot [([] :: bytes, 2 :: u32), ([5], 3)] [4, 9] c"
      "and_then (pv_parse Big 1 b True) (\<lambda>view. descend_internal Big undefined view [4, 9]) =
        Ok (snd ([([] :: bytes, 2 :: u32), ([5], 3)] ! c))"
    using same_child [OF b a, of "[4, 9]" 1 Big undefined] by auto
  moreover from this(1) have "c = 0" by (auto simp: child_slot_def less_Suc_eq)
  moreover have "node_entries Big 1 b True = Ok [([], 2), ([5], 3)]"
    using node_entries_page [of Big True b] b by (simp add: eff_def)
  ultimately show ?thesis by auto
qed

text \<open>
  C32: an insertion into an internal page is read back. With room for the entry,
  \<open>insert_internal_in_place\<close> returns a page of the same size, page number, links and type
  from which a reader on a host of either byte order reads the old entries and, at its index,
  the separator key cut to the given length with its child.
\<close>

theorem insert_internal_read_back:
  assumes "int_page hw buf kcs" "idx \<le> length kcs" "nksize \<le> length key"
    and "hd_lower hw buf + 2 + align_entry (9 + nksize) \<le> hd_upper hw buf"
  shows "\<exists>b. insert_internal_in_place hw buf idx nksize key child = Ok b \<and>
    length b = length buf \<and> ident b = ident buf \<and>
    int_page hw b (take idx kcs @ (take nksize key, child) # drop idx kcs) \<and>
    node_entries hr pgno b (hr \<noteq> hw) = Ok (take idx kcs @ (take nksize key, child) # drop idx kcs)"
proof -
  have "hd_lower hw buf + 2 + int_bytes (take nksize key, child) \<le> hd_upper hw buf"
    using assms(3,4) by (simp add: int_bytes_def min_def)
  then obtain b where b: "insert_internal_in_place hw buf idx nksize key child = Ok b"
      "int_page hw b (ins_at idx (take nksize key, child) kcs)" "ident b = ident buf" "length b = length buf"
    by (rule insert_internal_page [OF assms(1,2) _ assms(3)])
  then show ?thesis using node_entries_page [of hr "hr \<noteq> hw" b] by (simp add: ins_at_def)
qed

lemma insert_internal_read_back_witness:
  "\<exists>b b'. node_entries Big 1 b True = Ok [([], 2), ([5], 3)] \<and>
    insert_internal_in_place Little b 2 1 [7, 7, 7] 4 = Ok b' \<and>
    node_entries Big 1 b' True = Ok [([], 2), ([5], 3), ([7], 4)]"
proof -
  obtain b where b: "int_page Little b [([], 2), ([5], 3)]" "hd_lower Little b = 24" "hd_upper Little b = 488"
    by (rule example_node)
  have "hd_lower Little b + 2 + align_entry (9 + 1) \<le> hd_upper Little b"
    by (simp add: b align_entry_eq)
  from insert_internal_read_back [OF b(1) _ _ this, of 2 "[7, 7, 7]" 4 Big 1] node_entries_page [of Big True b _ 1] b(1)
  show ?thesis by (auto simp: eff_def)
qed

text \<open>
  C33: the new root is read back. \<open>convert_root_to_internal\<close>, on a root page of at most
  32768 bytes with room for both entries, returns an internal page from which a reader on a
  host of either byte order reads two entries, the empty key with the left page and the
  separator with the right page.
\<close>

theorem new_root_read_back:
  assumes "length p = psize" "512 \<le> psize" "psize \<le> 32768"
    and "hd_flags hw p \<in> {P_BLEAF, P_BINTERNAL}" "36 + key_bytes key \<le> psize"
  shows "\<exists>b. convert_root_to_internal hw p psize l_pgno r_pgno key = Ok b \<and> length b = psize \<and>
    hd_next hw b = hd_next hw p \<and> hd_prev hw b = hd_prev hw p \<and>
    node_entries hr pgno b (hr \<noteq> hw) = Ok [([], l_pgno), (key, r_pgno)]"
proof -
  have f: "hd_flags hw p = P_BLEAF \<or> hd_flags hw p = P_BINTERNAL" using assms(4) by simp
  have k: "key_bytes key + 36 \<le> psize" using assms(5) by simp
  obtain b where "convert_root_to_internal hw p psize l_pgno r_pgno key = Ok b" "int_page hw b [([], l_pgno), (key, r_pgno)]"
      "length b = psize" "hd_next hw b = hd_next hw p" "hd_prev hw b = hd_prev hw p"
    by (rule convert_root_page [OF assms(1-3) f k])
  then show ?thesis using node_entries_page [of hr "hr \<noteq> hw" b] by simp
qed

lemma new_root_read_back_witness:
  "\<exists>p b. empty_leaf Little 1 512 = Ok p \<and> convert_root_to_internal Little p 512 2 3 [5] = Ok b \<and>
    node_entries Big 1 b True = Ok [([], 2), ([5], 3)]"
proof -
  obtain p where p: "empty_leaf Little 1 512 = Ok p" "leaf_page Little p []" "length p = 512"
    by (rule empty_leaf_page [of 512 Little 1]) simp_all
  have "hd_flags Little p \<in> {P_BLEAF, P_BINTERNAL}" using leaf_page_header(7) [OF p(2)] by simp
  moreover have "36 + key_bytes [5] \<le> (512 :: nat)" by (simp add: key_bytes_def align_entry_eq)
  ultimately show ?thesis using new_root_read_back [OF p(3), of Little "[5]" 2 3 Big 1] p(1) by auto
qed

section \<open>Splitting\<close>

text \<open>
  C28: the split point. For a page whose entries, and the new one at \<open>skip\<close>, each take at
  most half of the usable space with their slots, and which is not overfull without the new
  one, \<open>psplit_loop\<close> returns a number of slots for the left page that leaves an entry on
  both sides, and both sides fit on a page with the new entry among them.
\<close>

theorem split_sides_fit:
  assumes "skip \<le> n" "2 \<le> n" "\<And>i. i < n \<Longrightarrow> entry_size i = Ok (sz i)"
    and "\<And>i. i < n \<Longrightarrow> sz i + 2 \<le> (psize - 20) div 2" "ilen + 2 \<le> (psize - 20) div 2"
    and "(\<Sum>i \<leftarrow> [0..<n]. sz i + 2) \<le> psize - 20"
  defines "all \<equiv> ins_at skip (ilen + 2) (map (\<lambda>i. sz i + 2) [0..<n])"
  shows "\<exists>l. psplit_loop skip ilen psize n entry_size = Ok \<lparr>left_slots = l, right_target = (l \<le> skip)\<rparr> \<and>
    0 < l \<and> l < length all \<and> 20 + sum_list (take l all) \<le> psize \<and> 20 + sum_list (drop l all) \<le> psize"
proof -
  obtain l where "psplit_loop skip ilen psize n entry_size = Ok \<lparr>left_slots = l, right_target = (skip \<ge> l)\<rparr>"
    "1 \<le> l" "l \<le> n" "20 + sum_list (take l (weights skip ilen sz n)) \<le> psize"
    "20 + sum_list (drop l (weights skip ilen sz n)) \<le> psize"
    by (rule psplit_loop_balanced [OF assms(1,2) refl assms(3-6)])
  then show ?thesis using assms(1) unfolding all_def weights_def by (intro exI [of _ l]) simp
qed

lemma split_sides_fit_witness:
  "\<exists>l. psplit_loop 3 100 512 4 (\<lambda>i. Ok 116) = Ok \<lparr>left_slots = l, right_target = (l \<le> 3)\<rparr> \<and> 0 < l \<and> l < 5"
  using split_sides_fit [of 3 4 "\<lambda>i. Ok 116" "\<lambda>i. 116" 512 100]
  by (auto simp: map_replicate_const sum_list_replicate)

text \<open>
  C27: a split distributes the entries. A leaf page with at least two entries, to which an
  entry is added at \<open>skip\<close>, all of them within half a page: \<open>split_leaf_full\<close> fills two
  fresh leaf pages, and a reader on a host of either byte order reads from the left one the
  first entries and from the right one the others, the new entry in its place and neither
  page empty.
\<close>

theorem split_distributes:
  assumes "leaf_page hw old kvs" "skip \<le> length kvs" "2 \<le> length kvs"
    and "\<forall>e \<in> set ((key, val) # kvs). leaf_bytes e + 2 \<le> (length old - 20) div 2"
    and "empty_leaf hw lp (length old) = Ok l0" "empty_leaf hw rp (length old) = Ok r0"
  shows "\<exists>l r m. fill_leaf_halves hw pgno old (length old) skip key val l0 r0 = Ok (l, r) \<and>
    0 < m \<and> m \<le> length kvs \<and>
    leaf_entries hr lp l (hr \<noteq> hw) = Ok (take m (take skip kvs @ (key, val) # drop skip kvs)) \<and>
    leaf_entries hr rp r (hr \<noteq> hw) = Ok (drop m (take skip kvs @ (key, val) # drop skip kvs))"
proof -
  note h = leaf_page_header(1,2) [OF assms(1)]
  have fresh: "leaf_page hw b []" "length b = length old" "hd_upper hw b = length old" "hd_flags hw b = P_BLEAF"
    if e: "empty_leaf hw q (length old) = Ok b" for q b
    by (rule empty_leaf_page [OF h, of hw q]; use e leaf_page_header(7) [of hw b "[]"] in simp)+
  obtain l r m where "fill_leaf_halves hw pgno old (length old) skip key val l0 r0 = Ok (l, r)"
    "1 \<le> m" "m \<le> length kvs"
    "leaf_page hw l (take m (ins_at skip (key, val) kvs))" "ident l = ident l0" "length l = length old"
    "leaf_page hw r (drop m (ins_at skip (key, val) kvs))" "ident r = ident r0" "length r = length old"
    by (rule fill_leaf_halves_page [OF assms(1-3) refl _ _ fresh(3,2,4) [OF assms(5)] fresh(3,2,4) [OF assms(6)],
          of key val pgno]) (use assms(4) in simp_all)
  then show ?thesis
    using leaf_entries_page [of hr "hr \<noteq> hw" l] leaf_entries_page [of hr "hr \<noteq> hw" r]
    by (intro exI [of _ l] exI [of _ r] exI [of _ m]) (simp add: ins_at_def)
qed

lemma split_distributes_witness:
  "\<exists>b l0 r0 l r m. leaf_entries Big 5 b True = Ok [([1], []), ([7], [8])] \<and>
    empty_leaf Little 5 512 = Ok l0 \<and> empty_leaf Little 6 512 = Ok r0 \<and>
    fill_leaf_halves Little 5 b 512 1 [3] [4] l0 r0 = Ok (l, r) \<and> 0 < m \<and> m < 3 \<and>
    leaf_entries Big 5 l True = Ok (take m [([1], []), ([3], [4]), ([7], [8])]) \<and>
    leaf_entries Big 6 r True = Ok (drop m [([1], []), ([3], [4]), ([7], [8])])"
proof -
  obtain b where b: "leaf_page Little b [([1], []), ([7], [8])]" "length b = 512" by (rule example_leaf)
  obtain l0 where l0: "empty_leaf Little 5 (length b) = Ok l0" by (rule empty_leaf_page [of "length b"]) (simp_all add: b)
  obtain r0 where r0: "empty_leaf Little 6 (length b) = Ok r0" by (rule empty_leaf_page [of "length b"]) (simp_all add: b)
  have small: "\<forall>e \<in> set (([3], [4]) # [([1], []), ([7], [8])]). leaf_bytes e + 2 \<le> (length b - 20) div 2"
    by (simp add: b leaf_bytes_def align_entry_eq)
  obtain l r m where "fill_leaf_halves Little 5 b (length b) 1 [3] [4] l0 r0 = Ok (l, r)" "0 < m" "m \<le> 2"
    "leaf_entries Big 5 l True = Ok (take m [([1], []), ([3], [4]), ([7], [8])])"
    "leaf_entries Big 6 r True = Ok (drop m [([1], []), ([3], [4]), ([7], [8])])"
    using split_distributes [OF b(1) _ _ small l0 r0, of 1 5 Big] by auto
  moreover have "leaf_entries Big 5 b True = Ok [([1], []), ([7], [8])]"
    using leaf_entries_page [of Big True b _ 5] b(1) by (simp add: eff_def)
  ultimately show ?thesis using l0 r0 b(2) by (metis less_Suc_eq_le numeral_2_eq_2 numeral_3_eq_3)
qed

section \<open>Separators\<close>

lemma bt_defpfx_shortest: "a < b \<Longrightarrow> n < bt_defpfx a b \<Longrightarrow> take n b \<le> a"
proof (induction a b arbitrary: n rule: cmp_bytes.induct)
  case (2 y ys)
  then show ?case by (simp add: bt_defpfx_def)
next
  case (4 x xs y ys)
  then show ?case by (cases "x = y"; cases n) (auto simp: bt_defpfx_Cons)
qed simp_all

text \<open>
  C35: the separator prefix. For two keys in ascending order \<open>bt_defpfx\<close> is the shortest
  length to which the second can be cut and still lie above the first.
\<close>

theorem defpfx_least:
  assumes "a < b"
  shows "bt_defpfx a b = (LEAST n. a < take n b) \<and> bt_defpfx a b \<le> length b \<and>
    a < take (bt_defpfx a b) b \<and> take (bt_defpfx a b) b \<le> b"
proof -
  have sep: "a < take (bt_defpfx a b) b" "bt_defpfx a b \<le> length b"
    using bt_defpfx_separates [OF assms] by simp_all
  have "(LEAST n. a < take n b) = bt_defpfx a b"
  proof (rule Least_equality)
    show "bt_defpfx a b \<le> n" if "a < take n b" for n
      using bt_defpfx_shortest [OF assms, of n] that by (metis linorder_not_le)
  qed (rule sep)
  then show ?thesis using sep take_le by simp
qed

lemma defpfx_least_witness:
  "bt_defpfx [97, 98, 99] [97, 99, 0] = 2 \<and> [97, 98, 99] < take 2 [97, 99, 0 :: u8]"
  using defpfx_least [of "[97, 98, 99]" "[97, 99, 0]"] by (simp add: bt_defpfx_def)

text \<open>
  C34: the encoded separator. For the last key of the left page below the first key of the
  right page, \<open>encoded_size\<close> of the separator gives a length to which the key can be cut and
  still separate them, with the bytes of an entry of that length; it never takes more bytes
  than the whole key, and on the left edge of the tree it is the whole key.
\<close>

theorem separator_separates:
  assumes "last_key < key" "encoded_size (SepLeaf key child last_key) prev skip = (ksize, nbytes)"
  shows "last_key < take ksize key \<and> take ksize key \<le> key \<and> ksize \<le> length key \<and>
    nbytes = align_entry (9 + ksize) \<and> nbytes \<le> align_entry (9 + length key) \<and>
    (if prev = P_INVALID \<and> skip \<le> 1 then ksize = length key else True)"
proof -
  note pfx = bt_defpfx_separates [OF assms(1)]
  have "ksize = length key \<or> ksize = bt_defpfx last_key key"
    and nb: "nbytes = align_entry (9 + ksize)"
    and edge: "if prev = P_INVALID \<and> skip \<le> 1 then ksize = length key else True"
    using assms(2) by (auto simp: encoded_size_def Let_def split: if_splits)
  then have "last_key < take ksize key" "ksize \<le> length key" using pfx assms(1) by auto
  then show ?thesis using nb edge take_le by (simp add: align_entry_mono)
qed

lemma separator_separates_witness:
  "encoded_size (SepLeaf [7, 7, 7, 7, 7, 7, 7, 7] 3 [5]) 2 1 = (1, 12) \<and> [5] < take 1 [7, 7, 7, 7, 7, 7, 7, 7 :: u8]"
proof -
  have e: "encoded_size (SepLeaf [7, 7, 7, 7, 7, 7, 7, 7] 3 [5]) 2 1 = (1, 12)"
    by (simp add: encoded_size_def Let_def bt_defpfx_def align_entry_eq P_INVALID_def)
  have "[5] < [7, 7, 7, 7, 7, 7, 7, 7 :: u8]" by simp
  from separator_separates [OF this e] e show ?thesis by simp
qed

section \<open>The meta page\<close>

text \<open>
  C36: the meta page round-trips. \<open>build_meta\<close> returns a page of the page size from which
  \<open>Meta::parse\<close> on a host of either byte order reads back the magic number, the version, the
  page size and the flags, and sees whether the bytes are swapped.
\<close>

theorem meta_round_trip:
  assumes "512 \<le> psize" "psize \<le> 32768"
  shows "\<exists>page. build_meta hw psize free nrecs flags = Ok page \<and> length page = psize \<and>
    meta_parse hr (sub page 0 META_SIZE) =
      (\<lparr>m_magic = BTREE_MAGIC, m_version = BTREE_VERSION, m_psize = of_nat psize, m_flags = flags\<rparr>, hr \<noteq> hw) \<and>
    unat (of_nat psize :: u32) = psize"
proof -
  obtain m where m: "build_meta hw psize free nrecs flags = Ok m" "length m = psize"
    "sub m 0 4 = u32_to_ne_bytes hw BTREE_MAGIC" "sub m 4 4 = u32_to_ne_bytes hw BTREE_VERSION"
    "sub m 8 4 = u32_to_ne_bytes hw (of_nat psize)" "sub m 20 4 = u32_to_ne_bytes hw flags"
    by (rule build_meta_ok [OF assms])
  have "24 \<le> length m" using m(2) assms(1) by simp
  from meta_parse_image [OF this m(3-6), of hr] m(1,2) show ?thesis
    using assms(2) by (simp add: sizes unat_of_nat_u32)
qed

lemma meta_round_trip_witness:
  "\<exists>page. build_meta Little 4096 0 0 B_NODUPS = Ok page \<and>
    meta_parse Big (sub page 0 META_SIZE) =
      (\<lparr>m_magic = BTREE_MAGIC, m_version = BTREE_VERSION, m_psize = 4096, m_flags = B_NODUPS\<rparr>, True)"
  using meta_round_trip [of 4096 Little 0 0 B_NODUPS Big] by auto

end
