(* ===== verification/Leaf_Chain.thy ===== *)
theory Leaf_Chain
  imports Page_Theorems Writer_Theorems Reader_Store
begin

text \<open>
  The shape of the pages of a builder after any run of operations: the leaves form a chain in
  key order, a put adds few pages, and the tree stays shallow.
\<close>

lemma links_nth:
  "links nx ps \<Longrightarrow> i < length ps \<Longrightarrow> nx (ps ! i) = (if Suc i < length ps then ps ! Suc i else P_INVALID)"
proof (induction nx ps arbitrary: i rule: links.induct)
  case (3 nx p q ps)
  then show ?case by (cases i) auto
qed simp_all

text \<open>
  C10: the chain of the leaves. After any manageable run of puts and deletes on a new file
  (every entry put within half a page, and at most 46000 operations, or 1073741724 if no key
  put is longer than 1007 bytes) there is a list of distinct leaf pages, each linked to the
  next and the last to no page, whose entries, read page by page, are the entries of the map
  in ascending order of the keys.
\<close>

theorem leaves_form_chain:
  assumes "manageable ops"
  shows "\<exists>w0 rs w ls. new_writer h path = Ok w0 \<and> run_ops (put h) (del h) w0 ops = Some (rs, w) \<and>
    ls \<noteq> [] \<and> distinct (map fst ls) \<and>
    (\<forall>i < length ls. \<exists>b. page_bytes w (fst (ls ! i)) = Ok b \<and>
      leaf_entries h (fst (ls ! i)) b False = Ok (snd (ls ! i)) \<and>
      pb_next_pg h b = Ok (if Suc i < length ls then fst (ls ! Suc i) else P_INVALID)) \<and>
    ascending (concat (map snd ls)) \<and> map_of (concat (map snd ls)) = snd (spec_run Map.empty ops)"
proof -
  obtain w0 w t where w: "new_writer h path = Ok w0"
      "run_ops (put h) (del h) w0 ops = Some (map Ok (fst (spec_run Map.empty ops)), w)"
      "stored h (path, 4096, P_INVALID, 0, B_NODUPS) w (snd (spec_run Map.empty ops)) (length ops) t"
    by (rule built_store [OF assms])
  note s = stored_new_file [OF w(3)]
  have W: "well h w [t] []" and ok: "tree_ok [] None t" using s(1) by (simp_all add: store_ok_def)
  let ?ls = "leaves t"
  have len: "length ?ls = length (leaf_pgs t)" using leaves_pgs(1) [of t] by (metis length_map)
  have fst_nth: "fst (?ls ! i) = leaf_pgs t ! i" if "i < length ?ls" for i
    using that leaves_pgs(1) [of t] by (metis nth_map)
  have "\<exists>b. page_bytes w (fst (?ls ! i)) = Ok b \<and> leaf_entries h (fst (?ls ! i)) b False = Ok (snd (?ls ! i)) \<and>
      pb_next_pg h b = Ok (if Suc i < length ?ls then fst (?ls ! Suc i) else P_INVALID)"
    if i: "i < length ?ls" for i
  proof (intro exI conjI)
    let ?p = "fst (?ls ! i)"
    have "?p \<in> set (leaf_pgs t)" using i fst_nth len by simp
    then have p: "?p \<in> set (pgs t)" using leaf_pgs_subset(1) by auto
    show "page_bytes w ?p = Ok (page_at w ?p)" using page_len [OF W, of ?p] p by simp
    have L: "leaf_page h (page_at w ?p) (snd (?ls ! i))"
      using leaves_rep(1) [of h "page_at w" t "?ls ! i"] wellD(3) [OF W] i by simp
    then show "leaf_entries h ?p (page_at w ?p) False = Ok (snd (?ls ! i))"
      by (intro leaf_entries_page) simp
    have "pb_next_pg h (page_at w ?p) = Ok (nexts h w ?p)"
      using leaf_page_header(1) [OF L] by (simp add: pb_header nexts_def)
    moreover have "links (nexts h w) (leaf_pgs t)" using wellD(9) [OF W] by simp
    ultimately show "pb_next_pg h (page_at w ?p) = Ok (if Suc i < length ?ls then fst (?ls ! Suc i) else P_INVALID)"
      using links_nth [of "nexts h w" "leaf_pgs t" i] i fst_nth len by simp
  qed
  moreover have "distinct (map fst ?ls)" unfolding leaves_pgs using distinct_leaf_pgs(1) [of t] wellD(7) [OF W] by simp
  moreover have "?ls \<noteq> []" by (rule leaves_not_Nil(1) [OF ok])
  moreover have "ascending (concat (map snd ?ls))" unfolding leaves_flat using flat_bounds(1) [OF ok] by simp
  moreover have "map_of (concat (map snd ?ls)) = snd (spec_run Map.empty ops)"
    unfolding leaves_flat using s(2) by (simp add: contents_def)
  ultimately show ?thesis using w(1,2) by blast
qed

lemma leaves_form_chain_witness:
  "\<exists>w0 rs w (ls :: (u32 \<times> (bytes \<times> bytes) list) list). new_writer Big ''f'' = Ok w0 \<and>
    run_ops (put Big) (del Big) w0 [Put_Op [3] [4], Put_Op [1] [2]] = Some (rs, w) \<and>
    ascending (concat (map snd ls)) \<and> map_of (concat (map snd ls)) = [[3] \<mapsto> [4], [1] \<mapsto> [2]]"
proof -
  let ?ops = "[Put_Op [3] [4], Put_Op [1] [2]]"
  have small: "manageable ?ops"
    by (simp add: manageable_def fits_def leaf_bytes_def align_entry_eq)
  obtain w0 rs w and ls :: "(u32 \<times> (bytes \<times> bytes) list) list" where "new_writer Big ''f'' = Ok w0" "run_ops (put Big) (del Big) w0 ?ops = Some (rs, w)"
      "ascending (concat (map snd ls))" "map_of (concat (map snd ls)) = snd (spec_run Map.empty ?ops)"
    using leaves_form_chain [OF small, of Big "''f''"] by - (elim exE conjE, rule that)
  moreover have "snd (spec_run Map.empty ?ops) = [[3] \<mapsto> [4], [1] \<mapsto> [2]]" by simp
  ultimately show ?thesis by metis
qed

text \<open>
  The growth of the file. On a well-formed file, one \<open>put\<close> of an entry within half a
  page adds at most one page for each level of the tree and one for a new root, and the tree
  grows by at most one level (a tree that is a single leaf has height 0).
\<close>

theorem put_growth:
  assumes "store_ok h w t" "fits (w_psize w) key val" "page_count w < 2 ^ 31"
  shows "\<exists>r w' t'. put h w key val = Some (Ok r, w') \<and> store_ok h w' t' \<and>
    page_count w' \<le> page_count w + ht t + 2 \<and> ht t' \<le> ht t + 1"
proof -
  have small: "leaf_bytes (key, val) + 2 \<le> half_page w" using assms(2) by (simp add: fits_def half_page_def)
  obtain w' t' where "put h w key val = Some (Ok (contents t key = None), w')" "store_ok h w' t'"
    "contents t' = (if contents t key = None then (contents t)(key \<mapsto> val) else contents t)"
    "page_count w' \<le> page_count w + ht t + 2" "ht t' \<le> Suc (ht t)"
    by (rule put_store [OF assms(1) small assms(3)], rule that)
  then show ?thesis by auto
qed

lemma put_growth_witness:
  "\<exists>w r w' t'. new_writer Little ''f'' = Ok w \<and> put Little w [1] [2] = Some (Ok r, w') \<and>
    store_ok Little w' t' \<and> page_count w' \<le> 4 \<and> ht t' \<le> 1"
proof -
  obtain w where w: "new_writer Little ''f'' = Ok w" "store_ok Little w (Leaf P_ROOT [])" "page_count w = 2"
      "w_psize w = 4096" by (rule new_writer_store)
  have "fits (w_psize w) [1] [2]" by (simp add: w fits_def leaf_bytes_def align_entry_eq)
  from put_growth [OF w(2) this] w have "\<exists>r w' t'. put Little w [1] [2] = Some (Ok r, w') \<and>
      store_ok Little w' t' \<and> page_count w' \<le> 4 \<and> ht t' \<le> 1" by fastforce
  with w(1) show ?thesis by blast
qed

section \<open>The height of the tree\<close>

lemma shape_depth: "right_spine nx k n (plug (Leaf p kvs) c) \<Longrightarrow> n = length c"
  using plug_level [of nx k n "Leaf p kvs" c] by auto

lemma tree_shape_depth:
  assumes "tree_shape nx k q (plug (Leaf p kvs) c)" "1 \<le> k"
  shows "length c = ht (plug (Leaf p kvs) c)"
proof -
  obtain n where n: "right_spine nx k n (plug (Leaf p kvs) c)" using assms(1) by (auto simp: tree_shape_def)
  show ?thesis using shape_depth [OF n] balanced_ht(1) [OF right_spine_balanced(1) [OF n assms(2)]] by simp
qed

text \<open>
  C29: the tree stays shallow. Run any list of puts and deletes on a new file, every entry
  within half a page and no key longer than 1007 bytes. Then all leaves are at the same
  depth; a descent for any key reads exactly as many internal pages as the tree is high; the
  height is at most one more than the binary logarithm of the number of leaves; there is at
  most one leaf for each operation and one more; and the file has at most two pages for each
  leaf and one for each level.
\<close>

theorem tree_stays_shallow:
  assumes "length ops \<le> 1073741724" "\<forall>x \<in> set ops. fitting (\<lambda>k v. fits 4096 k v \<and> length k \<le> 1007) x"
  shows "\<exists>w0 rs w t. new_writer h path = Ok w0 \<and> run_ops (put h) (del h) w0 ops = Some (rs, w) \<and>
    store_ok h w t \<and> contents t = snd (spec_run Map.empty ops) \<and> balanced (ht t) t \<and>
    (\<forall>key. \<exists>sp. descend h w key = Some (Ok sp) \<and> length (sp_path sp) = ht t) \<and>
    2 ^ (ht t - 1) \<le> length (leaf_pgs t) \<and> length (leaf_pgs t) \<le> length ops + 1 \<and>
    page_count w \<le> 2 * length (leaf_pgs t) + ht t"
proof -
  have fit: "\<forall>x \<in> set ops. fitting (\<lambda>k v. fits 4096 k v \<and> short 1019 k) x"
    using assms(2) short_1019 by (blast intro: fitting_mono)
  obtain w0 w t where w: "new_writer h path = Ok w0"
      "run_ops (put h) (del h) w0 ops = Some (map Ok (fst (spec_run Map.empty ops)), w)"
      "stored_in 2 1019 h (path, 4096, P_INVALID, 0, B_NODUPS) w (snd (spec_run Map.empty ops)) (length ops) t"
    by (rule built_in [where c = 2 and q = 1019, OF _ _ fit]) (use assms(1) that in \<open>simp_all add: capacity_def\<close>)
  have S: "store_ok h w t" "contents t = snd (spec_run Map.empty ops)" "length (leaf_pgs t) \<le> length ops + 1"
      and sh: "tree_shape (nexts h w) 2 1019 t"
    using w(3) by (simp_all add: stored_in_def tshape_def)
  note H = tree_shape_height [OF sh]
  have "well h w [t] []" using S(1) by (simp add: store_ok_def)
  then have "page_count w \<le> 2 * length (leaf_pgs t) + ht t" using well_page_numbers(2) [of h w t] H(2) by simp
  moreover have "\<exists>sp. descend h w key = Some (Ok sp) \<and> length (sp_path sp) = ht t" for key
  proof -
    obtain c lp kvs where d: "plug (Leaf lp kvs) c = t"
      "descend h w key = Some (Ok \<lparr>sp_path = rev (slots c), sp_leaf_pgno = lp\<rparr>)"
      by (rule descend_store [OF S(1), of key])
    have "length c = ht t" using tree_shape_depth [of "nexts h w" 2 1019 lp kvs c] sh d(1) by simp
    then show ?thesis using d(2) by (simp add: slots_def)
  qed
  moreover have "2 ^ (ht t - 1) \<le> length (leaf_pgs t)"
  proof (cases "ht t = 0")
    case True
    have "leaf_pgs t \<noteq> []" using H(1) True by auto
    then show ?thesis using True by (cases "leaf_pgs t") simp_all
  next
    case False
    then show ?thesis using H(1) by simp
  qed
  ultimately show ?thesis using w(1,2) S H(3) by blast
qed

lemma tree_stays_shallow_witness:
  "\<exists>w0 rs w t. new_writer Big ''f'' = Ok w0 \<and>
    run_ops (put Big) (del Big) w0 [Put_Op [3] [4], Put_Op [1] [2]] = Some (rs, w) \<and>
    store_ok Big w t \<and> balanced (ht t) t \<and> length (leaf_pgs t) \<le> 3"
proof -
  let ?ops = "[Put_Op [3] [4], Put_Op [1] [2]]"
  have "length ?ops \<le> 1073741724" "\<forall>x \<in> set ?ops. fitting (\<lambda>k v. fits 4096 k v \<and> length k \<le> 1007) x"
    by (simp_all add: fits_def leaf_bytes_def align_entry_eq)
  from tree_stays_shallow [OF this, of Big "''f''"] show ?thesis by fastforce
qed

end
