(* ===== verification/Cyclic_File.thy ===== *)
theory Cyclic_File
  imports Page_Theorems Reader_Store Walks
begin

text \<open>
  A file on which the reader does not return: its root page names itself as its child. The
  descents of \<open>Db::search\<close> and of \<open>Iter::initial_state\<close> count neither levels nor pages.
\<close>

section \<open>Descending into the same page\<close>

text \<open>An internal page each of whose children is the page itself.\<close>

definition self_child :: "endian \<Rightarrow> db \<Rightarrow> u32 \<Rightarrow> bool" where
  "self_child h d p \<longleftrightarrow> (\<exists>v e. db_view h d p = Ok v \<and> pv_is_internal v \<and> \<not> pv_is_leaf v \<and> pv_nentries v \<noteq> 0 \<and>
     pv_internal_entry h v 0 = Ok e \<and> ie_child e = p \<and> (\<forall>key. descend_internal h d v key = Ok p))"

lemma self_hop_cycle: "hop p = Some p \<Longrightarrow> runs_into_cycle hop p"
  unfolding runs_into_cycle_def by (blast intro: hopsI)

lemma search_diverges: "self_child h d p \<Longrightarrow> search_from h d key p = None"
  by (auto simp: get_walk.diverges_iff self_child_def get_hop_def intro!: self_hop_cycle)

lemma initial_state_diverges: "self_child h d p \<Longrightarrow> initial_state_from h d p = None"
  by (auto simp: first_walk.diverges_iff self_child_def first_hop_def intro!: self_hop_cycle)

section \<open>The file\<close>

lemma cyclic_image:
  obtains img d where "length img = 1024" "open_mapped h img = Ok d" "self_child h d P_ROOT"
proof -
  obtain p where p: "leaf_page h p []" "length p = 512" by (rule empty_leaf_page [of 512 h 1]) simp_all
  have f: "hd_flags h p = P_BLEAF \<or> hd_flags h p = P_BINTERNAL" using leaf_page_header(7) [OF p(1)] by simp
  have k: "key_bytes [1] + 36 \<le> 512" by (simp add: key_bytes_def align_entry_eq)
  obtain b where b: "int_page h b [([], P_ROOT), ([1], P_ROOT)]" "length b = 512"
    by (rule convert_root_page [OF p(2) _ _ f k, of P_ROOT P_ROOT]) simp_all
  obtain m where m: "length m = 512"
    "sub m 0 4 = u32_to_ne_bytes h BTREE_MAGIC" "sub m 4 4 = u32_to_ne_bytes h BTREE_VERSION"
    "sub m 8 4 = u32_to_ne_bytes h (of_nat 512)" "sub m 20 4 = u32_to_ne_bytes h B_NODUPS"
    by (rule build_meta_ok [of 512 h 0 0 B_NODUPS]) simp_all
  let ?img = "m @ b" and ?d = "\<lparr>db_mmap = m @ b, db_psize = 512, db_swap = False\<rparr>"
  have "24 \<le> length m" using m(1) by simp
  note mp = meta_parse_image [OF this m(2-5), of h]
  have "sub ?img 0 24 = sub m 0 24" using m(1) by (simp add: sub_append_left)
  then have o: "open_mapped h ?img = Ok ?d"
    using mp m(1) b(2) by (simp add: open_mapped_def sizes format_defs)
  have "sub b 0 512 = b" using sub_all [of b] b(2) by simp
  then have pg: "db_page ?d P_ROOT = Ok b"
    using m(1) b(2) by (simp add: db_page_def get_range_def P_ROOT_def sub_append_right)
  have I: "int_page (eff h (db_swap ?d)) b [([], P_ROOT), ([1], P_ROOT)]" using b(1) by simp
  note v = db_view_int [OF pg I]
  let ?v = "view_of h P_ROOT b (db_swap ?d)"
  obtain e where e: "pv_internal_entry h ?v 0 = Ok e" "ie_child e = P_ROOT"
    by (rule internal_entry_page [OF I, of 0 P_ROOT]) auto
  have "descend_internal h ?d ?v key = Ok P_ROOT" for key
  proof (rule descend_internal_page [OF I, of key ?d P_ROOT])
    fix c assume "descend_internal h ?d ?v key = Ok (snd ([([], P_ROOT), ([1], P_ROOT)] ! c))"
      "child_slot [([], P_ROOT), ([1], P_ROOT)] key c"
    then show ?thesis by (auto simp: child_slot_def less_Suc_eq)
  qed (simp_all add: ascending_def)
  then have "self_child h ?d P_ROOT" unfolding self_child_def using v e by auto
  then show ?thesis using that [OF _ o] m(1) b(2) by simp
qed

text \<open>
  C40: a file on which the reader does not return. There is a file of two pages that
  \<open>Db::open\<close> accepts and on which \<open>get\<close> of any key, and the first \<open>next\<close> of an iteration,
  run forever instead of reporting a corrupt page.
\<close>

theorem cyclic_file_hangs:
  "\<exists>img d. length img = 1024 \<and> open_mapped h img = Ok d \<and> (\<forall>key. db_get h d key = None) \<and>
    iter_next h (iter_new d) = None"
proof -
  obtain img d where i: "length img = 1024" "open_mapped h img = Ok d" "self_child h d P_ROOT"
    by (rule cyclic_image)
  have "db_get h d key = None" for key
    using search_diverges [OF i(3)] by (simp add: db_get_def search_def)
  moreover have "iter_next h (iter_new d) = None"
    using initial_state_diverges [OF i(3)]
    by (subst iter_next.simps) (simp add: iter_new_def initial_state_def)
  ultimately show ?thesis using i by blast
qed

end
