(* ===== verification/Large_Entries.thy ===== *)
theory Large_Entries
  imports Map_Store
begin

text \<open>
  Entries that pass the size check of \<open>put\<close> but take more than half a page. The root leaf
  can hold one of them, but when a second one arrives that does not fit beside it, the split
  plan sends both to the right page, and the write of the second one underflows if the two
  take more than a page.
\<close>

definition root_leaf :: "endian \<Rightarrow> writer \<Rightarrow> (bytes \<times> bytes) list \<Rightarrow> bool" where
  "root_leaf h w kvs \<longleftrightarrow> arena_ok w \<and> 1 < page_count w \<and> page_count w < 2 ^ 31 \<and>
     leaf_page h (page_at w P_ROOT) kvs \<and> ascending kvs"

lemma root_leafD:
  assumes "root_leaf h w kvs"
  shows "arena_ok w" "unat P_ROOT < page_count w" "page_bytes w P_ROOT = Ok (page_at w P_ROOT)"
    "length (page_at w P_ROOT) = w_psize w" "leaf_page h (page_at w P_ROOT) kvs" "ascending kvs"
    "page_count w + 1 < 2 ^ 32" "page_count w < 2 ^ 32"
proof -
  have a: "arena_ok w" "1 < page_count w" using assms by (simp_all add: root_leaf_def)
  then show r: "unat P_ROOT < page_count w" by (simp add: P_ROOT_def)
  show "arena_ok w" by (rule a(1))
  show "page_bytes w P_ROOT = Ok (page_at w P_ROOT)" "length (page_at w P_ROOT) = w_psize w"
    using page_bytes_eq [OF a(1) r] by simp_all
qed (use assms in \<open>simp_all add: root_leaf_def\<close>)

text \<open>\<open>put\<close> after the search, when the leaf is the root.\<close>

definition root_put :: "endian \<Rightarrow> writer \<Rightarrow> nat \<Rightarrow> bytes \<Rightarrow> bytes \<Rightarrow> (bool outcome \<times> writer) option" where
  "root_put h w i key val =
     (if hd_upper h (page_at w P_ROOT) - hd_lower h (page_at w P_ROOT) \<ge> leaf_bytes (key, val) + 2
      then (case page_update w P_ROOT (\<lambda>p. insert_leaf_entry h p i key val) of
              Err e \<Rightarrow> Some (Err e, w) | Panic \<Rightarrow> Some (Panic, w) | Ok w' \<Rightarrow> Some (Ok True, w'))
      else (case split_root_leaf h w i key val of
              Err e \<Rightarrow> Some (Err e, w) | Panic \<Rightarrow> Some (Panic, w) | Ok w' \<Rightarrow> Some (Ok True, w')))"

lemma root_leaf_put:
  assumes R: "root_leaf h w kvs" and big: "entry_too_large (w_psize w) (length key) (length val) = Ok False"
    and new: "key \<notin> fst ` set kvs"
  obtains i where "located kvs key False i" "i \<le> length kvs"
    "put h w key val = root_put h w i key val"
proof -
  note d = root_leafD [OF R]
  note hd = leaf_page_header [OF d(5)]
  have "descend_hop h w key P_ROOT = Ok None"
    by (rule descend_hop_leaf [where kvs = kvs]) (use d(3,5) in simp_all)
  then have desc: "descend h w key = Some (Ok \<lparr>sp_path = [], sp_leaf_pgno = P_ROOT\<rparr>)"
    unfolding descend_def by (subst descend_from.simps) simp
  obtain found i where s: "leaf_search h P_ROOT (page_at w P_ROOT) key = Ok (found, i)" "located kvs key found i"
    by (rule leaf_search_page [OF d(5,6)])
  have f: "found = False"
    using new s(2) by (cases found) (auto simp: located_def)
  note free = pb_free_space_eq [OF hd(1,4)]
  have le: "align_entry (BLEAF_HEADER_SIZE + length key + length val) = leaf_bytes (key, val)"
    by (simp add: leaf_bytes_def)
  have loc: "located kvs key False i" using s(2) f by simp
  have "put h w key val = Some (put_at h w \<lparr>sp_path = [], sp_leaf_pgno = P_ROOT\<rparr> key val)"
    unfolding put_def big desc by simp
  also have "\<dots> = root_put h w i key val"
    unfolding put_at_def Let_def spine.simps le d(3) and_then_simps s(1) f prod.case free outcome.case if_False
    by (simp add: root_put_def split: outcome.split)
  finally show ?thesis by (rule that [OF loc located_absent(1) [OF loc]])
qed

text \<open>The first entry goes into the empty root, however large.\<close>

lemma root_leaf_first:
  assumes R: "root_leaf h w []" and big: "entry_too_large (w_psize w) (length key) (length val) = Ok False"
  obtains w' where "put h w key val = Some (Ok True, w')" "root_leaf h w' [(key, val)]" "w_psize w' = w_psize w"
proof -
  note d = root_leafD [OF R]
  note hd = leaf_page_header [OF d(5)]
  have "key \<notin> fst ` set ([] :: (bytes \<times> bytes) list)" by simp
  from root_leaf_put [OF R big this] obtain i where i: "i \<le> length ([] :: (bytes \<times> bytes) list)"
    "put h w key val = root_put h w i key val"
    by blast
  have u: "usub (w_psize w) 20 = Ok (w_psize w - 20)" using arena_bounds [OF d(1)] by simp
  have "\<not> leaf_bytes (key, val) + 2 > w_psize w - 20"
    using big unfolding entry_too_large_def Let_def sizes u and_then_simps by (simp add: leaf_bytes_def)
  then have fit: "20 + 2 + leaf_bytes (key, val) \<le> w_psize w" using arena_bounds [OF d(1)] by linarith
  have up: "hd_upper h (page_at w P_ROOT) = w_psize w" "hd_lower h (page_at w P_ROOT) = 20"
    using hd(3,5) d(4) by simp_all
  then have room: "hd_lower h (page_at w P_ROOT) + 2 + leaf_bytes (key, val) \<le> hd_upper h (page_at w P_ROOT)"
    using fit by simp
  obtain b where b: "insert_leaf_entry h (page_at w P_ROOT) i key val = Ok b"
      "leaf_page h b (ins_at i (key, val) [])" "length b = length (page_at w P_ROOT)"
    using insert_leaf_page [OF d(5) i(1) room] by metis
  have lb: "length b = w_psize w" using b(3) d(4) by simp
  note s = set_page_facts [OF d(1,2) lb]
  have pu: "page_update w P_ROOT (\<lambda>p. insert_leaf_entry h p i key val) = Ok (set_page w P_ROOT b)"
    by (rule page_update_eq [where f = "\<lambda>p. insert_leaf_entry h p i key val", OF d(1,2) b(1)])
  have "hd_upper h (page_at w P_ROOT) - hd_lower h (page_at w P_ROOT) \<ge> leaf_bytes (key, val) + 2"
    using room by linarith
  then have "put h w key val = Some (Ok True, set_page w P_ROOT b)"
    using i(2) pu by (simp add: root_put_def)
  moreover have "root_leaf h (set_page w P_ROOT b) [(key, val)]"
    using R s b(2) by (simp add: root_leaf_def ins_at_def)
  ultimately show ?thesis using that s(5) by simp
qed

lemma psplit_single:
  "20 \<le> psize \<Longrightarrow> size_at 0 = Ok n \<Longrightarrow>
   psplit_loop skip ilen psize 1 size_at = Ok \<lparr>left_slots = 0, right_target = True\<rparr>"
  by (simp add: psplit_loop_def psplit_iter.simps)

lemma root_leaf_second:
  assumes R: "root_leaf h w [kv]" and big: "entry_too_large (w_psize w) (length key) (length val) = Ok False"
    and new: "key \<noteq> fst kv" and over: "w_psize w < leaf_bytes kv + leaf_bytes (key, val)"
    and al: "4 dvd w_psize w"
  shows "put h w key val = Some (Panic, w)"
proof -
  note d = root_leafD [OF R]
  note hd = leaf_page_header [OF d(5)]
  have "key \<notin> fst ` set [kv]" using new by simp
  from root_leaf_put [OF R big this] obtain i where i: "i \<le> length [kv]"
    "put h w key val = root_put h w i key val"
    by blast
  have up: "hd_upper h (page_at w P_ROOT) + leaf_bytes kv = w_psize w"
    using hd(5) d(4) by simp
  then have room: "\<not> hd_upper h (page_at w P_ROOT) - hd_lower h (page_at w P_ROOT) \<ge> leaf_bytes (key, val) + 2"
    using over by linarith
  define lp where "lp = (of_nat (page_count w) :: u32)"
  define rp where "rp = lp + 1"
  have ps: "20 \<le> w_psize w" using arena_bounds [OF d(1)] by simp
  obtain l0 r0 where p: "empty_page h lp (w_psize w) P_BLEAF = Ok l0" "empty_page h rp (w_psize w) P_BLEAF = Ok r0"
    "pb_set_next_pg h l0 rp = Ok (wr32 h l0 8 rp)" "pb_set_prev_pg h r0 lp = Ok (wr32 h r0 4 lp)"
    "hd_upper h (wr32 h l0 8 rp) = w_psize w" "hd_upper h (wr32 h r0 4 lp) = w_psize w"
    "length (wr32 h l0 8 rp) = w_psize w" "length (wr32 h r0 4 lp) = w_psize w"
    by (rule fresh_pair [OF d(1)])
  let ?l1 = "wr32 h l0 8 rp" and ?r1 = "wr32 h r0 4 lp" and ?old = "page_at w P_ROOT"
  have succ: "u32_succ lp = Ok rp" using d(7) by (simp add: u32_succ_def lp_def rp_def)
  have P: "page_holds h ?old (map (enc_bleaf h) [kv])" using d(5) by (simp add: leaf_page_def)
  let ?v = "view_of h P_ROOT ?old False"
  note pl = parse_leaf_page [of h False ?old "[kv]" P_ROOT, unfolded eff_simps, OF d(5)]
  have C: "copies h (copy_one h ?v) (map (enc_bleaf h) [kv])"
    unfolding copies_def using leaf_kind.copy_law [OF P] leaf_kind.esize_enc by simp
  have ne: "[] \<notin> set (map (enc_bleaf h) [kv])" using leaf_kind.enc_nonempty [THEN not_sym] by simp
  have ab: "w_psize w \<le> 32768" using arena_bounds [OF d(1)] by simp
  have small: "leaf_bytes kv + 24 \<le> w_psize w"
  proof -
    have "leaf_bytes kv + 22 \<le> w_psize w" using hd(3,4) up by simp
    moreover obtain a b where "leaf_bytes kv = 4 * a" "w_psize w = 4 * b"
      using al by (metis align_entry_dvd dvdE leaf_bytes_def)
    ultimately show ?thesis by presburger
  qed
  have sz: "entry_nbytes h ?v 0 = Ok (leaf_bytes kv)"
    using leaf_kind.size_law [OF P, of 0 P_ROOT] by simp
  have plan: "compute_psplit_split_leaf h ?v i (leaf_bytes (key, val)) (w_psize w)
      = Ok \<lparr>left_slots = 0, right_target = True\<rparr>"
    using psplit_single [where size_at = "entry_nbytes h ?v", OF ps sz, of i "leaf_bytes (key, val)"] pl(2) by (simp add: compute_psplit_split_leaf_def)
  obtain l1 where l1: "copy_range (copy_one h ?v) h 0 (0 + 0) None ?l1 = Ok l1"
    by (rule copy_range_plain [OF C ne, of ?l1 0 0]) (use p ab ps in \<open>simp_all add: sub_def\<close>)
  obtain r1 where r1: "copy_range (copy_one h ?v) h 0 (0 + 1) (Some i) ?r1 = Ok r1"
      "hd_upper h r1 + leaf_bytes kv = w_psize w" "length r1 = w_psize w"
    by (rule copy_range_holds [OF C ne, of ?r1 0 1 "Some i"])
      (use p ab ps small that leaf_kind.esize_enc i(1) in \<open>simp_all add: sub_def slots_total_def\<close>)
  have le: "align_entry (9 + length key + length val) = leaf_bytes (key, val)" by (simp add: leaf_bytes_def)
  have "20 \<le> length r1" using r1(3) ps by simp
  moreover have "\<not> leaf_bytes (key, val) \<le> hd_upper h r1" using r1(2) over by linarith
  ultimately have wr: "write_entry_at_slot h r1 i key val = Panic"
    unfolding write_entry_at_slot_def Let_def sizes le by (simp add: usub_def)
  have fill: "fill_leaf_halves h P_ROOT ?old (w_psize w) i key val ?l1 ?r1 = Panic"
    using l1 r1(1) wr pl(1,2) plan unfolding fill_leaf_halves_def Let_def sizes le
    by (simp add: h_in_l_def l_skip_def r_skip_def target_slot_def copy_entries_def)
  have "split_root_leaf h w i key val = Panic"
    unfolding split_root_leaf_def next_free_pgno_eq [OF d(1,8)] lp_def [symmetric] and_then_simps succ
      empty_leaf_def p(1-4) d(3) fill ..
  then show ?thesis using i(2) room by (simp add: root_put_def)
qed

lemma new_writer_root_leaf:
  obtains w where "new_writer h path = Ok w" "root_leaf h w []" "w_psize w = 4096"
proof -
  obtain w where w: "new_writer h path = Ok w" "store_ok h w (Leaf P_ROOT [])" "page_count w = 2" "w_psize w = 4096"
    by (rule new_writer_store)
  then have "root_leaf h w []" by (simp add: root_leaf_def store_ok_def well_def)
  with w show ?thesis using that by blast
qed

text \<open>
  C17: two large entries. Take any two entries with different keys that each pass the size
  check of \<open>put\<close> and whose encoded sizes add up to more than the 4096 bytes of a page (two
  values of 3000 bytes will do). Put into a new file, the first one is accepted and the
  second one panics, although \<open>Error::EntryTooLarge\<close> promises an error for every entry that
  cannot be stored and the comment in \<open>put\<close> promises that the check excludes an unfittable
  split. Sizes that add up to 4076 to 4096 bytes do not fit beside the page header and the
  slots either, but then the second entry is written over the header and nothing panics
  here; the theorem is not about them.
\<close>

theorem second_large_entry_panics:
  assumes "entry_too_large 4096 (length k1) (length v1) = Ok False"
    and "entry_too_large 4096 (length k2) (length v2) = Ok False"
    and "k1 \<noteq> k2" "4096 < leaf_bytes (k1, v1) + leaf_bytes (k2, v2)"
  shows "\<exists>w0 w1. new_writer h path = Ok w0 \<and> put h w0 k1 v1 = Some (Ok True, w1) \<and>
    put h w1 k2 v2 = Some (Panic, w1)"
proof -
  obtain w0 where w0: "new_writer h path = Ok w0" "root_leaf h w0 []" "w_psize w0 = 4096"
    by (rule new_writer_root_leaf)
  obtain w1 where w1: "put h w0 k1 v1 = Some (Ok True, w1)" "root_leaf h w1 [(k1, v1)]" "w_psize w1 = 4096"
    using root_leaf_first [OF w0(2)] assms(1) w0(3) by metis
  have "put h w1 k2 v2 = Some (Panic, w1)"
    by (rule root_leaf_second [OF w1(2)]) (use assms w1(3) in simp_all)
  with w0 w1 show ?thesis by blast
qed

lemma second_large_entry_panics_witness:
  "\<exists>w0 w1. new_writer Little ''f'' = Ok w0 \<and> put Little w0 [0] (replicate 3000 0) = Some (Ok True, w1) \<and>
    put Little w1 [1] (replicate 3000 0) = Some (Panic, w1)"
  by (rule second_large_entry_panics)
    (simp_all add: entry_too_large_def leaf_bytes_def align_entry_eq usub_def)

end
