(* ===== verification/Overflow.thy ===== *)
theory Overflow
  imports Reader_Safety
begin

text \<open>
  Overflow chains. Both loops of the reader advance by the same round, which reads one chunk
  of a page; comparing a key with an overflow item in place agrees with fetching the item
  and comparing, and fetching returns the chunks of the chain in order.
\<close>

definition overflow_chunk :: "endian \<Rightarrow> db \<Rightarrow> u32 \<Rightarrow> nat \<Rightarrow> u32 \<Rightarrow> (bytes \<times> u32) outcome" where
  "overflow_chunk h d start n pgno =
     (if pgno = P_INVALID then Err (CorruptOverflow start)
      else and_then (db_view h d pgno) (\<lambda>view.
        if \<not> pv_is_overflow view then Err (CorruptOverflow start)
        else and_then (pv_overflow_payload view) (\<lambda>payload.
          if n > length payload then Err (CorruptOverflow start)
          else Ok (take n payload, pv_next_pg view))))"

lemma overflow_chunk_length: "overflow_chunk h d start n pgno = Ok (chunk, p) \<Longrightarrow> length chunk = n"
  by (auto simp: overflow_chunk_def and_then_eq_Ok split: if_splits)

lemma fetch_round:
  assumes "ppp \<noteq> 0" "0 < remaining"
  shows "fetch_overflow_loop h d start ppp pgno remaining out =
    and_then (overflow_chunk h d start (min remaining ppp) pgno) (\<lambda>(chunk, p).
      fetch_overflow_loop h d start ppp p (remaining - min remaining ppp) (out @ chunk))"
  using assms unfolding fetch_overflow_loop.simps [of h d start ppp pgno remaining out] overflow_chunk_def
  by (simp add: and_then_assoc if_distrib [where f = "\<lambda>x. and_then x _"] Let_def cong: if_cong)

lemma fetch_end: "ppp \<noteq> 0 \<Longrightarrow> fetch_overflow_loop h d start ppp pgno 0 out = Ok out"
  by (simp add: fetch_overflow_loop.simps)

definition compare_chunk :: "bytes \<Rightarrow> bytes \<Rightarrow> ordering option" where
  "compare_chunk key_rest other =
     (let cmp_len = min (length key_rest) (length other) in
      case cmp_bytes (take cmp_len key_rest) (take cmp_len other) of
        Less \<Rightarrow> Some Less
      | Greater \<Rightarrow> Some Greater
      | Equal \<Rightarrow> if length key_rest < length other then Some Less else None)"

lemma compare_round:
  assumes "ppp \<noteq> 0" "consumed < tot"
  shows "compare_overflow_loop h d key start ppp tot pgno consumed =
    and_then (overflow_chunk h d start (min (tot - consumed) ppp) pgno) (\<lambda>(chunk, p).
      if consumed \<ge> length key then Ok Less
      else (case compare_chunk (drop consumed key) chunk of
              Some r \<Rightarrow> Ok r
            | None \<Rightarrow> compare_overflow_loop h d key start ppp tot p (consumed + min (tot - consumed) ppp)))"
proof -
  define n where "n = min (tot - consumed) ppp"
  have len: "length (take n xs) = n" if "\<not> n > length xs" for xs :: bytes using that by simp
  show ?thesis
    using assms unfolding compare_overflow_loop.simps [of h d key start ppp tot pgno consumed] overflow_chunk_def
      n_def [symmetric]
    by (simp add: and_then_assoc if_distrib [where f = "\<lambda>x. and_then x _"] Let_def compare_chunk_def
        if_distrib [where f = "\<lambda>x. case_option _ _ x"] ordering.case_distrib [where h = "\<lambda>x. case_option _ _ x"]
        min_absorb2 len not_less del: length_take cong: if_cong ordering.case_cong)
qed

section \<open>Fetching\<close>

lemma fetch_induct [consumes 1, case_names finish round]:
  assumes "ppp \<noteq> 0"
    and "\<And>pgno out. P pgno 0 out"
    and "\<And>pgno remaining out. 0 < remaining \<Longrightarrow>
      (\<And>p chunk. P p (remaining - min remaining ppp) (out @ chunk)) \<Longrightarrow> P pgno remaining out"
  shows "P pgno (remaining :: nat) (out :: bytes)"
proof (induction remaining arbitrary: pgno out rule: less_induct)
  case (less remaining)
  show ?case
  proof (cases "remaining = 0")
    case True
    then show ?thesis using assms(2) by simp
  next
    case False
    then have "remaining - min remaining ppp < remaining" using assms(1) by simp
    with less assms(3) False show ?thesis by simp
  qed
qed

lemma fetch_loop_result:
  assumes "ppp \<noteq> 0" "fetch_overflow_loop h d start ppp pgno remaining out = Ok v"
  obtains rest where "v = out @ rest" "length rest = remaining"
proof -
  have "\<exists>rest. v = out @ rest \<and> length rest = remaining"
    using assms
  proof (induction pgno remaining out rule: fetch_induct)
    case (finish pgno out)
    then show ?case using assms(1) by (simp add: fetch_end)
  next
    case (round pgno remaining out)
    then obtain chunk p where c: "overflow_chunk h d start (min remaining ppp) pgno = Ok (chunk, p)"
        "fetch_overflow_loop h d start ppp p (remaining - min remaining ppp) (out @ chunk) = Ok v"
      using assms(1) by (auto simp: fetch_round and_then_eq_Ok)
    from round(2) [OF c(2)] obtain rest where
      "v = (out @ chunk) @ rest" "length rest = remaining - min remaining ppp" by blast
    then show ?case using overflow_chunk_length [OF c(1)] by (intro exI [of _ "chunk @ rest"]) simp
  qed
  then show ?thesis using that by blast
qed

section \<open>Comparing in place\<close>

lemma compare_chunk_None:
  "compare_chunk kr ch = None \<Longrightarrow> length ch \<le> length kr \<and> take (length ch) kr = ch"
  by (auto simp: compare_chunk_def Let_def split: ordering.splits if_splits)

lemma cmp_bytes_prefix:
  "length a = length b \<Longrightarrow> cmp_bytes (a @ x) (b @ y) = (case cmp_bytes a b of Equal \<Rightarrow> cmp_bytes x y | r \<Rightarrow> r)"
  by (induction a b rule: list_induct2) auto

lemma compare_chunk_Some:
  assumes "compare_chunk kr ch = Some r"
  shows "cmp_bytes kr (ch @ rest) = r" "r \<noteq> Equal"
proof -
  let ?n = "min (length kr) (length ch)"
  have "cmp_bytes kr (ch @ rest) = cmp_bytes (take ?n kr @ drop ?n kr) (take ?n ch @ drop ?n ch @ rest)"
    by (simp flip: append_assoc)
  also have "\<dots> = (case cmp_bytes (take ?n kr) (take ?n ch) of Equal \<Rightarrow> cmp_bytes (drop ?n kr) (drop ?n ch @ rest) | r \<Rightarrow> r)"
    by (rule cmp_bytes_prefix) simp
  finally have eq: "cmp_bytes kr (ch @ rest) =
    (case cmp_bytes (take ?n kr) (take ?n ch) of Equal \<Rightarrow> cmp_bytes (drop ?n kr) (drop ?n ch @ rest) | r \<Rightarrow> r)" .
  have less: "cmp_bytes [] (drop (length kr) ch @ rest) = Less" if "length kr < length ch"
    using that by (cases "drop (length kr) ch") auto
  show "cmp_bytes kr (ch @ rest) = r"
    using assms unfolding eq compare_chunk_def Let_def
    by (auto simp: less simp del: cmp_bytes_Less cmp_bytes_Greater cmp_bytes_Equal split: ordering.splits if_splits)
  show "r \<noteq> Equal" using assms by (auto simp: compare_chunk_def Let_def split: ordering.splits if_splits)
qed

lemma compare_loop_agrees:
  assumes "ppp \<noteq> 0" "consumed \<le> tot" "consumed \<le> length key"
  shows "case fetch_overflow_loop h d start ppp pgno (tot - consumed) (take consumed key) of
      Ok v \<Rightarrow> compare_overflow_loop h d key start ppp tot pgno consumed = Ok (cmp_bytes key v)
    | Err e \<Rightarrow> compare_overflow_loop h d key start ppp tot pgno consumed \<in> {Err e, Ok Less, Ok Greater}
    | Panic \<Rightarrow> True"
  using assms(2,3)
proof (induction "tot - consumed" arbitrary: consumed pgno rule: less_induct)
  case less
  show ?case
  proof (cases "consumed = tot")
    case True
    have "cmp_bytes key (take tot key) = cmp_bytes (drop tot key) []"
      using cmp_bytes_append_same [of "take tot key" "drop tot key" "[]"] by simp
    also have "\<dots> = cmp_nat (length key) tot"
      using less.prems True by (cases "drop tot key") (auto simp: cmp_nat_def)
    finally show ?thesis
      using True assms(1) by (simp add: fetch_end compare_overflow_loop.simps)
  next
    case False
    then have lt: "consumed < tot" "0 < tot - consumed" using less.prems by simp_all
    let ?n = "min (tot - consumed) ppp"
    note fr = fetch_round [OF assms(1) lt(2), of h d start pgno "take consumed key"]
    note cr = compare_round [OF assms(1) lt(1), of h d key start pgno]
    show ?thesis
    proof (cases "overflow_chunk h d start ?n pgno")
      case (Ok cp)
      obtain chunk p where cp: "cp = (chunk, p)" by (cases cp)
      have len: "length chunk = ?n" using overflow_chunk_length Ok cp by simp
      have f: "fetch_overflow_loop h d start ppp pgno (tot - consumed) (take consumed key) =
          fetch_overflow_loop h d start ppp p (tot - consumed - ?n) (take consumed key @ chunk)"
        using fr Ok cp by simp
      show ?thesis
      proof (cases "consumed \<ge> length key")
        case True
        then have k: "take consumed key = key" by simp
        have c: "compare_overflow_loop h d key start ppp tot pgno consumed = Ok Less" using cr Ok cp True by simp
        have "cmp_bytes key v = Less"
          if fv: "fetch_overflow_loop h d start ppp p (tot - consumed - ?n) (take consumed key @ chunk) = Ok v" for v
        proof -
          obtain rest where r: "v = (take consumed key @ chunk) @ rest" by (rule fetch_loop_result [OF assms(1) fv])
          have "chunk \<noteq> []" using len lt assms(1) by auto
          then have "cmp_bytes [] (chunk @ rest) = Less" by (cases chunk) auto
          then show ?thesis using r k cmp_bytes_append_same [of key "[]" "chunk @ rest"] by simp
        qed
        with f c show ?thesis by (auto simp del: cmp_bytes_Less split: outcome.split)
      next
        case False
        have kd: "key = take consumed key @ drop consumed key" by simp
        show ?thesis
        proof (cases "compare_chunk (drop consumed key) chunk")
          case (Some r)
          have c: "compare_overflow_loop h d key start ppp tot pgno consumed = Ok r" using cr Ok cp False Some by simp
          have "cmp_bytes key v = r"
            if fv: "fetch_overflow_loop h d start ppp p (tot - consumed - ?n) (take consumed key @ chunk) = Ok v" for v
          proof -
            obtain rest where "v = (take consumed key @ chunk) @ rest" by (rule fetch_loop_result [OF assms(1) fv])
            then have "cmp_bytes key v = cmp_bytes (drop consumed key) (chunk @ rest)"
              using cmp_bytes_append_same [of "take consumed key" "drop consumed key" "chunk @ rest"] by simp
            then show ?thesis using compare_chunk_Some(1) [OF Some] by simp
          qed
          moreover have "r = Less \<or> r = Greater" using compare_chunk_Some(2) [OF Some] by (cases r) auto
          ultimately show ?thesis using f c by (auto split: outcome.split)
        next
          case None
          have c: "compare_overflow_loop h d key start ppp tot pgno consumed =
              compare_overflow_loop h d key start ppp tot p (consumed + ?n)"
            using cr Ok cp False None by simp
          note nn = compare_chunk_None [OF None]
          have le: "consumed + ?n \<le> length key" using conjunct1 [OF nn] len False unfolding length_drop by linarith
          have t: "take consumed key @ chunk = take (consumed + ?n) key"
            using nn len by (simp add: take_add)
          have dec: "tot - (consumed + ?n) < tot - consumed" "consumed + ?n \<le> tot" using lt assms(1) by simp_all
          have sub: "tot - consumed - ?n = tot - (consumed + ?n)" by simp
          show ?thesis using less.hyps [OF dec le, of p] unfolding c f t sub .
        qed
      qed
    qed (use fr cr in simp_all)
  qed
qed

text \<open>
  C19: comparing a key with an overflow item without fetching it. If the item can be fetched,
  \<open>compare_overflow\<close> returns exactly the comparison of the key with the fetched bytes; if
  the chain is damaged, it returns the same error as the fetch, unless the part of the item
  before the damage already decides the comparison, and then it does not answer Equal.
\<close>

theorem compare_overflow_agrees:
  "case fetch_overflow h d pgno sz of
     Ok v \<Rightarrow> compare_overflow h d key pgno sz = Ok (cmp_bytes key v)
   | Err e \<Rightarrow> compare_overflow h d key pgno sz \<in> {Err e, Ok Less, Ok Greater}
   | Panic \<Rightarrow> True"
proof (cases "20 < db_psize d")
  case True
  then have "db_psize d - 20 \<noteq> 0" by simp
  from compare_loop_agrees [OF this, of 0 "unat sz" key h d pgno pgno] True
  show ?thesis by (auto simp: fetch_overflow_def compare_overflow_def split: outcome.splits)
next
  case False
  then show ?thesis
    by (cases "20 \<le> db_psize d") (simp_all add: fetch_overflow_def usub_def fetch_overflow_loop.simps)
qed

section \<open>A sound chain\<close>

text \<open>The overflow pages of a value, linked in order, with what each holds.\<close>

fun overflow_chain :: "endian \<Rightarrow> db \<Rightarrow> nat \<Rightarrow> u32 \<Rightarrow> bytes list \<Rightarrow> bool" where
  "overflow_chain h d ppp pgno [] = True"
| "overflow_chain h d ppp pgno (c # cs) =
     (pgno \<noteq> P_INVALID \<and> length c = ppp \<and>
      (\<exists>view. db_view h d pgno = Ok view \<and> pv_is_overflow view \<and> pv_overflow_payload view = Ok c \<and>
         overflow_chain h d ppp (pv_next_pg view) cs))"

lemma fetch_loop_chain:
  "overflow_chain h d ppp pgno cs \<Longrightarrow> ppp \<noteq> 0 \<Longrightarrow> n \<le> length cs * ppp \<Longrightarrow>
   fetch_overflow_loop h d start ppp pgno n out = Ok (out @ take n (concat cs))"
proof (induction cs arbitrary: pgno n out)
  case Nil
  then show ?case by (simp add: fetch_end)
next
  case (Cons c cs)
  obtain view where v: "pgno \<noteq> P_INVALID" "length c = ppp" "db_view h d pgno = Ok view" "pv_is_overflow view"
      "pv_overflow_payload view = Ok c" "overflow_chain h d ppp (pv_next_pg view) cs"
    using Cons.prems(1) by auto
  show ?case
  proof (cases "n = 0")
    case True
    then show ?thesis using Cons.prems(2) by (simp add: fetch_end)
  next
    case False
    have ch: "overflow_chunk h d start (min n ppp) pgno = Ok (take (min n ppp) c, pv_next_pg view)"
      using v by (simp add: overflow_chunk_def)
    have "n - min n ppp \<le> length cs * ppp" using Cons.prems(3) by (auto simp: min_def)
    from Cons.IH [OF v(6) Cons.prems(2) this]
    have "fetch_overflow_loop h d start ppp pgno n out =
        Ok ((out @ take (min n ppp) c) @ take (n - min n ppp) (concat cs))"
      using fetch_round [OF Cons.prems(2)] False ch by simp
    moreover have "take (min n ppp) c @ take (n - min n ppp) (concat cs) = take n (concat (c # cs))"
      using v(2) by (simp add: min_def)
    ultimately show ?thesis by simp
  qed
qed

text \<open>
  C20: an overflow item of a sound file. When the overflow pages that start at the item's page
  number are linked in order and together hold at least as many bytes as the item has,
  \<open>materialise\<close> returns the first bytes of their payloads, exactly as many as the item says.
\<close>

theorem materialise_overflow_chain:
  assumes "20 < db_psize d" "overflow_chain h d (db_psize d - 20) pgno cs"
    and "unat sz \<le> length cs * (db_psize d - 20)"
  shows "materialise h d view (Overflow pgno sz) = Ok (take (unat sz) (concat cs)) \<and>
    length (take (unat sz) (concat cs)) = unat sz"
proof
  show "materialise h d view (Overflow pgno sz) = Ok (take (unat sz) (concat cs))"
    using fetch_loop_chain [OF assms(2) _ assms(3), of pgno "[]"] assms(1)
    by (simp add: materialise_def fetch_overflow_def)
  have "length (concat cs) = length cs * (db_psize d - 20)"
    using assms(2) by (induction cs arbitrary: pgno) auto
  then show "length (take (unat sz) (concat cs)) = unat sz" using assms(3) by simp
qed

text \<open>A file of two pages whose second page is an overflow page of a big-endian host.\<close>

definition overflow_db :: db where
  "overflow_db = \<lparr>db_mmap = replicate 512 0 @
     [0, 0, 0, 1, 0, 0, 0, 0, 0, 0, 0, 0, 0, 0, 0, 4, 0, 20, 2, 0] @ replicate 492 7,
     db_psize = 512, db_swap = True\<rparr>"

lemma overflow_db_page:
  "db_page overflow_db 1 =
     Ok ([0, 0, 0, 1, 0, 0, 0, 0, 0, 0, 0, 0, 0, 0, 0, 4, 0, 20, 2, 0] @ replicate 492 7)"
  by (simp add: db_page_def overflow_db_def get_range_def sub_def ok_or_def)

lemma overflow_db_chain: "overflow_chain Little overflow_db 492 1 [replicate 492 7]"
proof -
  let ?b = "[0, 0, 0, 1, 0, 0, 0, 0, 0, 0, 0, 0, 0, 0, 0, 4, 0, 20, 2, 0] @ replicate 492 (7 :: u8)"
  have h: "hd_lower Big ?b = 20" "hd_upper Big ?b = 512" "hd_flags Big ?b = P_OVERFLOW"
    by (simp_all add: hd_defs sub_def u32_from_ne_bytes_def u16_from_ne_bytes_def in_order_def
        u32_of_be_def u16_of_be_def P_OVERFLOW_def)
  have sw: "db_swap overflow_db" "db_psize overflow_db = 512" by (simp_all add: overflow_db_def)
  have "db_view Little overflow_db 1 = Ok (view_of Little 1 ?b True)"
    using h by (simp add: db_view_def overflow_db_page sw pv_parse_eq page_bounds_ok_def page_type_ok_def
        P_OVERFLOW_def P_TYPE_def)
  then show ?thesis using h
    by (simp add: P_INVALID_def pv_is_overflow_def pv_overflow_payload_def index_range_def sub_def P_OVERFLOW_def)
qed

lemma materialise_overflow_chain_witness:
  "\<forall>view. materialise Little overflow_db view (Overflow 1 300) = Ok (replicate 300 7)"
proof
  fix view
  show "materialise Little overflow_db view (Overflow 1 300) = Ok (replicate 300 7)"
    using materialise_overflow_chain [of overflow_db Little 1 "[replicate 492 7]" 300 view] overflow_db_chain
    by (simp add: overflow_db_def)
qed

end
