(* ===== verification/Byte_Order.thy ===== *)
theory Byte_Order
  imports Iter File_Image
begin

text \<open>
  The byte order of the host of a reader does not matter: on any bytes, a host of the other
  byte order that takes the bytes for swapped reads the same. A handle, a page view, a state
  of the iterator on one host correspond to the one on the other host with the swap flag
  inverted.
\<close>

section \<open>Views and handles of the other host\<close>

definition other_view :: "page_view \<Rightarrow> page_view" where
  "other_view v = v\<lparr>pv_swap := \<not> pv_swap v\<rparr>"

definition other_db :: "db \<Rightarrow> db" where
  "other_db d = d\<lparr>db_swap := \<not> db_swap d\<rparr>"

lemma other_view_simps [simp]:
  "pv_pgno (other_view v) = pv_pgno v" "pv_prev_pg (other_view v) = pv_prev_pg v"
  "pv_next_pg (other_view v) = pv_next_pg v" "pv_bytes (other_view v) = pv_bytes v"
  "pv_flags (other_view v) = pv_flags v" "pv_nentries (other_view v) = pv_nentries v"
  "pv_swap (other_view v) = (\<not> pv_swap v)" "other_view (other_view v) = v"
  "pv_is_leaf (other_view v) = pv_is_leaf v" "pv_is_internal (other_view v) = pv_is_internal v"
  "pv_is_overflow (other_view v) = pv_is_overflow v" "pv_corrupt (other_view v) = pv_corrupt v"
  "pv_overflow_payload (other_view v) = pv_overflow_payload v"
  by (simp_all add: other_view_def pv_is_leaf_def pv_is_internal_def pv_is_overflow_def pv_corrupt_def
      pv_overflow_payload_def fun_eq_iff)

lemma other_db_simps [simp]:
  "db_mmap (other_db d) = db_mmap d" "db_psize (other_db d) = db_psize d"
  "db_swap (other_db d) = (\<not> db_swap d)" "other_db (other_db d) = d" "db_page (other_db d) = db_page d"
  by (simp_all add: other_db_def db_page_def fun_eq_iff)

lemma eff_flip [simp]: "eff (flip h) (\<not> s) = eff h s"
  by (cases h; cases s) (simp_all add: eff_def)

section \<open>Decoding a page\<close>

lemma read_bytes_flip [simp]:
  "length b = 2 \<Longrightarrow> read_u16_bytes (flip h) b (\<not> s) = read_u16_bytes h b s"
  "length b = 4 \<Longrightarrow> read_u32_bytes (flip h) b (\<not> s) = read_u32_bytes h b s"
  by (simp_all add: read_u16_bytes_eq read_u32_bytes_eq)

lemma map_and_then: "map_outcome f (and_then m g) = and_then m (\<lambda>a. map_outcome f (g a))"
  by (cases m) simp_all

lemma and_then_map: "and_then (map_outcome f m) g = and_then m (\<lambda>a. g (f a))"
  by (cases m) simp_all

lemma pv_parse_flip: "pv_parse (flip h) pgno buf (\<not> s) = map_outcome other_view (pv_parse h pgno buf s)"
  unfolding pv_parse_def read_u16_def read_u32_def
  by (simp add: map_and_then and_then_assoc Let_def if_distrib [of "map_outcome other_view"] other_view_def
      cong: if_cong)

lemma get_range_length: "get_range xs a b = Some ys \<Longrightarrow> length ys = b - a"
  by (auto simp: get_range_def split: if_splits)

lemma pv_at_flip [simp]:
  "pv_u16_at (flip h) (other_view v) off = pv_u16_at h v off"
  "pv_u32_at (flip h) (other_view v) off = pv_u32_at h v off"
  "pv_byte_at (other_view v) off = pv_byte_at v off"
  "pv_inline (other_view v) item = pv_inline v item"
  by (auto simp: pv_u16_at_def pv_u32_at_def pv_byte_at_def pv_inline_def ok_or_eq_Ok checked_add_def
      dest!: get_range_length intro!: and_then_cong split: item_ref.split if_splits)

lemma pv_entry_flip [simp]:
  "pv_entry_offset (flip h) (other_view v) i = pv_entry_offset h v i"
  "pv_decode_item (flip h) (other_view v) off len big = pv_decode_item h v off len big"
  by (simp_all add: pv_entry_offset_def pv_decode_item_def Let_def cong: if_cong)

lemma pv_entries_flip [simp]:
  "pv_leaf_entry (flip h) (other_view v) i = pv_leaf_entry h v i"
  "pv_internal_entry (flip h) (other_view v) i = pv_internal_entry h v i"
  by (simp_all add: pv_leaf_entry_def pv_internal_entry_def Let_def cong: if_cong)

section \<open>Reading the file\<close>

lemma db_view_flip: "db_view (flip h) (other_db d) p = map_outcome other_view (db_view h d p)"
  by (simp add: db_view_def pv_parse_flip map_and_then)

lemma compare_loop_flip [simp]:
  "compare_overflow_loop (flip h) (other_db d) key start ppp tot pgno consumed =
   compare_overflow_loop h d key start ppp tot pgno consumed"
proof (induction "tot - consumed" arbitrary: pgno consumed rule: less_induct)
  case less
  note round = compare_overflow_loop.simps [of "flip h" "other_db d" key start ppp tot pgno consumed]
    compare_overflow_loop.simps [of h d key start ppp tot pgno consumed]
  show ?case
  proof (cases "ppp \<noteq> 0 \<and> consumed < tot")
    case True
    then have rec: "compare_overflow_loop (flip h) (other_db d) key start ppp tot p (consumed + min (tot - consumed) ppp) =
        compare_overflow_loop h d key start ppp tot p (consumed + min (tot - consumed) ppp)" for p
      using less.hyps overflow_progress [of ppp consumed tot] by blast
    show ?thesis
    proof (cases "db_view h d pgno")
      case (Ok view)
      then show ?thesis unfolding round
        by (cases "pv_overflow_payload view") (simp_all add: db_view_flip rec Let_def cong: if_cong ordering.case_cong)
    qed (simp_all add: round db_view_flip)
  qed (auto simp: round)
qed

lemma fetch_loop_flip [simp]:
  "fetch_overflow_loop (flip h) (other_db d) start ppp pgno remaining out =
   fetch_overflow_loop h d start ppp pgno remaining out"
proof (induction remaining arbitrary: pgno out rule: less_induct)
  case (less remaining)
  note round = fetch_overflow_loop.simps [of "flip h" "other_db d" start ppp pgno remaining out]
    fetch_overflow_loop.simps [of h d start ppp pgno remaining out]
  show ?case
  proof (cases "ppp \<noteq> 0 \<and> 0 < remaining")
    case True
    then have rec: "fetch_overflow_loop (flip h) (other_db d) start ppp p (remaining - min remaining ppp) bs =
        fetch_overflow_loop h d start ppp p (remaining - min remaining ppp) bs" for p bs
      by (intro less) auto
    show ?thesis
    proof (cases "db_view h d pgno")
      case (Ok view)
      then show ?thesis unfolding round
        by (cases "pv_overflow_payload view") (auto simp: db_view_flip rec Let_def)
    qed (simp_all add: round db_view_flip)
  qed (auto simp: round)
qed

lemma items_flip [simp]:
  "materialise (flip h) (other_db d) (other_view v) item = materialise h d v item"
  "compare_item (flip h) (other_db d) key (other_view v) item = compare_item h d key v item"
  by (simp_all add: materialise_def compare_item_def fetch_overflow_def compare_overflow_def split: item_ref.split)

lemma probes_flip [simp]:
  "leaf_probe (flip h) (other_db d) (other_view v) key = leaf_probe h d v key"
  "internal_probe (flip h) (other_db d) (other_view v) spine key = internal_probe h d v spine key"
  by (simp_all add: leaf_probe_def internal_probe_def fun_eq_iff cong: if_cong)

lemma searches_flip [simp]:
  "search_leaf (flip h) (other_db d) (other_view v) key = search_leaf h d v key"
  "descend_internal (flip h) (other_db d) (other_view v) key = descend_internal h d v key"
  by (simp_all add: search_leaf_def descend_internal_def split_def cong: if_cong)

section \<open>Lookup\<close>

lemma search_from_flip_Some:
  assumes "search_from h d key p = Some r"
  shows "search_from (flip h) (other_db d) key p = Some r"
proof (rule search_from.raw_induct [where P = "\<lambda>h d key p r. search_from (flip h) (other_db d) key p = Some r", OF _ assms])
  fix f h d key p r
  assume IH: "\<And>h d key p r. f h d key p = Some r \<Longrightarrow> search_from (flip h) (other_db d) key p = Some r"
    and step: "(case db_view h d p of
        Ok view \<Rightarrow>
          if pv_is_leaf view then Some (search_leaf h d view key)
          else if \<not> pv_is_internal view then
            Some (Err (CorruptPage p ''non-internal page during descent''))
          else
            (case descend_internal h d view key of
               Ok child \<Rightarrow> f h d key child
             | Err e \<Rightarrow> Some (Err e)
             | Panic \<Rightarrow> Some Panic)
      | Err e \<Rightarrow> Some (Err e)
      | Panic \<Rightarrow> Some Panic) = Some r"
  show "search_from (flip h) (other_db d) key p = Some r"
    using step by (subst search_from.simps)
      (auto simp: db_view_flip IH split: outcome.splits if_splits)
qed

lemma option_eqI: "(\<And>r. x = Some r \<Longrightarrow> y = Some r) \<Longrightarrow> (\<And>r. y = Some r \<Longrightarrow> x = Some r) \<Longrightarrow> x = y"
  by (cases x; cases y) auto

lemma search_from_flip: "search_from (flip h) (other_db d) key p = search_from h d key p"
proof (rule option_eqI)
  fix r assume "search_from (flip h) (other_db d) key p = Some r"
  from search_from_flip_Some [OF this] show "search_from h d key p = Some r" by simp
qed (rule search_from_flip_Some)

lemma db_get_flip: "db_get (flip h) (other_db d) key = db_get h d key"
  unfolding db_get_def search_def search_from_flip
  by (auto simp: db_view_flip and_then_map intro!: and_then_cong split: option.split)

section \<open>Iteration\<close>

definition other_cursor :: "cursor \<Rightarrow> cursor" where
  "other_cursor c = c\<lparr>cur_view := other_view (cur_view c)\<rparr>"

fun other_state :: "iter_state \<Rightarrow> iter_state" where
  "other_state (Active c) = Active (other_cursor c)"
| "other_state Pristine = Pristine"
| "other_state Done = Done"

definition other_iter :: "iter \<Rightarrow> iter" where
  "other_iter it = \<lparr>it_db = other_db (it_db it), it_state = other_state (it_state it)\<rparr>"

lemma other_cursor_simps [simp]:
  "cur_view (other_cursor c) = other_view (cur_view c)" "cur_index (other_cursor c) = cur_index c"
  "other_cursor (other_cursor c) = c" "other_cursor (c\<lparr>cur_index := i\<rparr>) = (other_cursor c)\<lparr>cur_index := i\<rparr>"
  "other_cursor \<lparr>cur_view = v, cur_index = i\<rparr> = \<lparr>cur_view = other_view v, cur_index = i\<rparr>"
  by (simp_all add: other_cursor_def)

lemma other_state_twice [simp]: "other_state (other_state st) = st"
  by (cases st) simp_all

lemma other_iter_simps [simp]:
  "it_db (other_iter it) = other_db (it_db it)" "it_state (other_iter it) = other_state (it_state it)"
  "other_iter (other_iter it) = it" "other_iter (iter_new d) = iter_new (other_db d)"
  "(other_iter it)\<lparr>it_state := other_state st\<rparr> = other_iter (it\<lparr>it_state := st\<rparr>)"
  by (simp_all add: other_iter_def iter_new_def)

lemma map_outcome_twice [simp]: "map_outcome other_state (map_outcome other_state r) = r"
  by (cases r) simp_all

lemma initial_state_flip_Some:
  assumes "initial_state_from h d p = Some r"
  shows "initial_state_from (flip h) (other_db d) p = Some (map_outcome other_state r)"
proof (rule initial_state_from.raw_induct
    [where P = "\<lambda>h d p r. initial_state_from (flip h) (other_db d) p = Some (map_outcome other_state r)", OF _ assms])
  fix f h d p r
  assume IH: "\<And>h d p r. f h d p = Some r \<Longrightarrow>
      initial_state_from (flip h) (other_db d) p = Some (map_outcome other_state r)"
    and step: "(case db_view h d p of
        Ok view \<Rightarrow> if pv_nentries view = 0 then Some (Ok Done)
          else if pv_is_leaf view then Some (Ok (Active \<lparr>cur_view = view, cur_index = 0\<rparr>))
          else if \<not> pv_is_internal view
          then Some (Err (CorruptPage p ''non-internal page during seq descent''))
          else (case pv_internal_entry h view 0 of Ok entry \<Rightarrow> f h d (ie_child entry)
               | Err e \<Rightarrow> Some (Err e) | Panic \<Rightarrow> Some Panic)
      | Err e \<Rightarrow> Some (Err e) | Panic \<Rightarrow> Some Panic) = Some r"
  show "initial_state_from (flip h) (other_db d) p = Some (map_outcome other_state r)"
    using step by (subst initial_state_from.simps)
      (auto simp: db_view_flip IH split: outcome.splits if_splits)
qed

lemma advance_flip_Some:
  assumes "advance_leaf h d p = Some r"
  shows "advance_leaf (flip h) (other_db d) p = Some (map_outcome other_state r)"
proof (rule advance_leaf.raw_induct
    [where P = "\<lambda>h d p r. advance_leaf (flip h) (other_db d) p = Some (map_outcome other_state r)", OF _ assms])
  fix f h d p r
  assume IH: "\<And>h d p r. f h d p = Some r \<Longrightarrow>
      advance_leaf (flip h) (other_db d) p = Some (map_outcome other_state r)"
    and step: "(if p \<noteq> P_INVALID then
        (case db_view h d p of
           Ok view \<Rightarrow>
             if \<not> pv_is_leaf view then Some (Err (CorruptPage p ''seq sibling is not a leaf''))
             else if pv_nentries view > 0 then Some (Ok (Active \<lparr>cur_view = view, cur_index = 0\<rparr>))
             else f h d (pv_next_pg view)
         | Err e \<Rightarrow> Some (Err e) | Panic \<Rightarrow> Some Panic)
      else Some (Ok Done)) = Some r"
  show "advance_leaf (flip h) (other_db d) p = Some (map_outcome other_state r)"
    using step by (subst advance_leaf.simps)
      (auto simp: db_view_flip IH split: outcome.splits if_splits)
qed

lemma option_mapI:
  assumes "\<And>r. x = Some r \<Longrightarrow> y = Some (f r)" "\<And>r. y = Some r \<Longrightarrow> x = Some (f r)"
  shows "y = map_option f x"
  using assms by (cases x; cases y) auto

lemma walk_flip:
  "initial_state_from (flip h) (other_db d) p = map_option (map_outcome other_state) (initial_state_from h d p)"
  "advance_leaf (flip h) (other_db d) p = map_option (map_outcome other_state) (advance_leaf h d p)"
proof -
  show "initial_state_from (flip h) (other_db d) p = map_option (map_outcome other_state) (initial_state_from h d p)"
  proof (rule option_mapI)
    fix r assume "initial_state_from (flip h) (other_db d) p = Some r"
    from initial_state_flip_Some [OF this] show "initial_state_from h d p = Some (map_outcome other_state r)" by simp
  qed (rule initial_state_flip_Some)
  show "advance_leaf (flip h) (other_db d) p = map_option (map_outcome other_state) (advance_leaf h d p)"
  proof (rule option_mapI)
    fix r assume "advance_leaf (flip h) (other_db d) p = Some r"
    from advance_flip_Some [OF this] show "advance_leaf h d p = Some (map_outcome other_state r)" by simp
  qed (rule advance_flip_Some)
qed

lemma yield_flip:
  "yield_current (flip h) (other_db d) (other_cursor c) =
   map_option (\<lambda>(r, st). (r, other_state st)) (yield_current h d c)"
proof -
  define m where "m = and_then (pv_leaf_entry h (cur_view c) (cur_index c)) (\<lambda>leaf.
           and_then (materialise h d (cur_view c) (le_key leaf)) (\<lambda>key.
           and_then (materialise h d (cur_view c) (le_data leaf)) (\<lambda>value.
           Ok \<lparr>entry_key = key, entry_value = value\<rparr>)))"
  show ?thesis unfolding yield_current_def other_cursor_simps pv_entries_flip items_flip m_def [symmetric]
    by (cases m) (auto simp: walk_flip split: option.split outcome.split)
qed

lemma iter_next_flip_Some:
  assumes "iter_next h it = Some r"
  shows "iter_next (flip h) (other_iter it) = Some (fst r, other_iter (snd r))"
proof (rule iter_next.raw_induct
    [where P = "\<lambda>h it r. iter_next (flip h) (other_iter it) = Some (fst r, other_iter (snd r))", OF _ assms])
  fix f h it and r :: "entry outcome option \<times> iter"
  assume IH: "\<And>h it r. f h it = Some r \<Longrightarrow> iter_next (flip h) (other_iter it) = Some (fst r, other_iter (snd r))"
    and step: "(case it_state it of
        Pristine \<Rightarrow>
          (case initial_state h it of
             None \<Rightarrow> None
           | Some (Ok st) \<Rightarrow> f h (it\<lparr>it_state := st\<rparr>)
           | Some (Err e) \<Rightarrow> Some (Some (Err e), it\<lparr>it_state := Done\<rparr>)
           | Some Panic \<Rightarrow> Some (Some Panic, it\<lparr>it_state := Done\<rparr>))
      | Active cur \<Rightarrow>
          (case yield_current h (it_db it) cur of
             None \<Rightarrow> None
           | Some (r, st) \<Rightarrow> Some (Some r, it\<lparr>it_state := st\<rparr>))
      | Done \<Rightarrow> Some (None, it)) = Some r"
  have done_state: "(other_iter it)\<lparr>it_state := Done\<rparr> = other_iter (it\<lparr>it_state := Done\<rparr>)"
    by (simp add: other_iter_def)
  show "iter_next (flip h) (other_iter it) = Some (fst r, other_iter (snd r))"
    using step by (subst iter_next.simps)
      (auto simp: walk_flip yield_flip initial_state_def done_state IH split: iter_state.splits option.splits outcome.splits)
qed

lemma iter_next_flip:
  "iter_next (flip h) (other_iter it) = map_option (\<lambda>r. (fst r, other_iter (snd r))) (iter_next h it)"
proof (rule option_mapI)
  fix r assume "iter_next (flip h) (other_iter it) = Some r"
  from iter_next_flip_Some [OF this] show "iter_next h it = Some (fst r, other_iter (snd r))" by simp
qed (rule iter_next_flip_Some)

lemma iter_collect_flip: "iter_collect n (flip h) (other_iter it) = iter_collect n h it"
proof (induction n arbitrary: it)
  case (Suc n)
  show ?case
    by (auto simp: iter_next_flip Suc split: option.split prod.split)
qed simp

section \<open>Opening\<close>

text \<open>The first 24 bytes, as a host of byte order \<open>e\<close> reads them.\<close>

lemma meta_parse_words:
  assumes "24 \<le> length b"
  defines "word \<equiv> \<lambda>e off. u32_from_ne_bytes e (sub b off 4)"
  shows "meta_parse h (sub b 0 24) =
    (let e = (if word h 0 = BTREE_MAGIC then h else flip h)
     in (\<lparr>m_magic = word e 0, m_version = word e 4, m_psize = word e 8, m_flags = word e 20\<rparr>,
         word h 0 \<noteq> BTREE_MAGIC))"
proof -
  let ?c = "sub b 0 24"
  have len: "length ?c = 24" using assms by simp
  have s: "sub ?c off 4 = sub b off 4" if "off + 4 \<le> 24" for off using that assms by (simp add: sub_simps)
  have m: "[?c ! 0, ?c ! 1, ?c ! 2, ?c ! 3] = sub b 0 4"
    using four_bytes [of 0 ?c] len s [of 0] by (simp add: numeral_2_eq_2)
  have "meta_word h ?c sw off = word (eff h sw) off" if "off + 4 \<le> 24" for sw off
    using that len s by (subst meta_word_eq) (simp_all add: word_def)
  then show ?thesis unfolding meta_parse_def Let_def m by (simp add: eff_def word_def)
qed

lemma open_flip:
  "open_mapped (flip h) bs =
     (case open_mapped h bs of
        Ok d \<Rightarrow> Ok (other_db d)
      | Err e \<Rightarrow>
          (case e of BadMagic m \<Rightarrow> Err (BadMagic (u32_from_ne_bytes h (sub bs 0 4))) | _ \<Rightarrow> Err e)
      | Panic \<Rightarrow> Panic)"
proof (cases "length bs < 24")
  case False
  let ?w = "\<lambda>e. u32_from_ne_bytes e (sub bs 0 4)"
  have "?w (flip h) = u32_swap_bytes (?w h)" using False by (simp add: u32c.swap_dec [symmetric])
  then have one: "?w h = BTREE_MAGIC \<Longrightarrow> ?w (flip h) \<noteq> BTREE_MAGIC" using magic_not_symmetric by simp
  have len: "24 \<le> length bs" using False by simp
  show ?thesis
    using one False unfolding open_mapped_def sizes meta_parse_words [OF len] Let_def
    by (auto simp: other_db_def)
qed (simp add: open_mapped_def)

text \<open>
  C16: the host of the reader does not matter. For any bytes, a host of the other byte order
  accepts them as a file exactly when this host does, with the same error otherwise (but for
  the value in \<open>BadMagic\<close>); on a file that is accepted, \<open>get\<close> of any key and any number of
  calls of the iterator return the same on both hosts, errors and loops without end included.
\<close>

theorem host_order_irrelevant:
  "case open_mapped h bs of
     Ok d \<Rightarrow> \<exists>d'. open_mapped (flip h) bs = Ok d' \<and> (\<forall>key. db_get (flip h) d' key = db_get h d key) \<and>
       (\<forall>n. iter_collect n (flip h) (iter_new d') = iter_collect n h (iter_new d))
   | Err e \<Rightarrow> (if \<exists>m. e = BadMagic m then \<exists>m. open_mapped (flip h) bs = Err (BadMagic m)
       else open_mapped (flip h) bs = Err e)
   | Panic \<Rightarrow> open_mapped (flip h) bs = Panic"
proof (cases "open_mapped h bs")
  case (Ok d)
  have "iter_collect n (flip h) (iter_new (other_db d)) = iter_collect n h (iter_new d)" for n
    using iter_collect_flip [of n h "iter_new d"] by simp
  then show ?thesis using Ok by (auto simp: open_flip [of h] db_get_flip intro!: exI [of _ "other_db d"])
next
  case (Err e)
  then show ?thesis by (cases e) (simp_all add: open_flip [of h])
next
  case Panic
  then show ?thesis by (simp add: open_flip [of h])
qed

end
