(* ===== verification/Decode_Bounds.thy ===== *)
theory Decode_Bounds
  imports Reader_Safety
begin

text \<open>
  What a decoded page promises. The comments of src/src/page.rs rest the casts to \<open>u32\<close> and
  the infallible use of \<open>inline\<close> on an invariant of \<open>PageView\<close>: an item that was decoded
  from a page lies within that page. Here it is a type of the values: \<open>item_typed\<close> says when
  an item reference belongs to a view.
\<close>

definition item_typed :: "page_view \<Rightarrow> item_ref \<Rightarrow> bool" where
  "item_typed v item = (case item of
      Inline off len \<Rightarrow> unat off + unat len \<le> length (pv_bytes v) \<and>
        pv_inline v item = Ok (sub (pv_bytes v) (unat off) (unat len))
    | Overflow pgno sz \<Rightarrow>
        pv_inline v item = Err (pv_corrupt v ''expected inline item, found overflow''))"

text \<open>A result is typed when its value is and when its error names the page of the view.\<close>

definition typed :: "page_view \<Rightarrow> ('a \<Rightarrow> bool) \<Rightarrow> 'a outcome \<Rightarrow> bool" where
  "typed v P r = (case r of Ok a \<Rightarrow> P a | Err e \<Rightarrow> (\<exists>reason. e = pv_corrupt v reason) | Panic \<Rightarrow> False)"

lemma typed_simps [simp]:
  "typed v P (Ok a) \<longleftrightarrow> P a" "typed v P (Err (pv_corrupt v reason))" "\<not> typed v P Panic"
  by (auto simp: typed_def)

lemma typed_and_then:
  "typed v (\<lambda>a. typed v Q (f a)) m \<Longrightarrow> typed v Q (and_then m f)"
  by (cases m) (auto simp: typed_def)

lemma typed_ok_or [simp]:
  "typed v P (ok_or x (pv_corrupt v reason)) \<longleftrightarrow> (case x of Some a \<Rightarrow> P a | None \<Rightarrow> True)"
  by (cases x) simp_all

lemma typed_reads:
  "typed v (\<lambda>x. True) (pv_u16_at h v off)" "typed v (\<lambda>x. True) (pv_u32_at h v off)"
  "typed v (\<lambda>x. True) (pv_byte_at v off)"
  by (auto simp: pv_u16_at_def pv_u32_at_def pv_byte_at_def intro!: typed_and_then split: option.split)

lemma typed_mono: "typed v P m \<Longrightarrow> (\<And>a. m = Ok a \<Longrightarrow> P a \<Longrightarrow> Q a) \<Longrightarrow> typed v Q m"
  by (cases m) (auto simp: typed_def)

lemma typed_decode_item:
  assumes "off + len \<le> length (pv_bytes v)" "length (pv_bytes v) \<le> MAX_PSIZE"
  shows "typed v (item_typed v) (pv_decode_item h v off len big)"
proof -
  have u: "unat (of_nat off :: u32) = off" "unat (of_nat len :: u32) = len"
    using assms by (simp_all add: MAX_PSIZE_def)
  have "pv_inline v (Inline (of_nat off) (of_nat len)) = Ok (sub (pv_bytes v) off len)"
    using assms pv_inline_eq [of "of_nat off" "of_nat len" v] u by (simp add: MAX_PSIZE_def)
  moreover have "item_typed v (Overflow p s)" for p s by (simp add: item_typed_def pv_inline_def)
  ultimately show ?thesis
    using assms(1) u unfolding pv_decode_item_def
    by (auto simp: item_typed_def intro!: typed_and_then typed_mono [OF typed_reads(2)])
qed

lemma typed_entry_offset: "typed v (\<lambda>off. i < pv_nentries v) (pv_entry_offset h v i)"
  unfolding pv_entry_offset_def
  by (auto intro!: typed_and_then typed_mono [OF typed_reads(1)])

lemma typed_leaf_entry:
  assumes "length (pv_bytes v) \<le> MAX_PSIZE"
  shows "typed v (\<lambda>e. i < pv_nentries v \<and> item_typed v (le_key e) \<and> item_typed v (le_data e))
    (pv_leaf_entry h v i)"
  unfolding pv_leaf_entry_def Let_def
  using assms
  by (intro typed_and_then typed_mono [OF typed_entry_offset] typed_mono [OF typed_reads(2)]
      typed_mono [OF typed_reads(3)])
    (auto split: option.split Option.bind_split dest!: checked_add_eq_Some
      intro!: typed_and_then typed_mono [OF typed_decode_item])

lemma typed_internal_entry:
  assumes "length (pv_bytes v) \<le> MAX_PSIZE"
  shows "typed v (\<lambda>e. i < pv_nentries v \<and> item_typed v (ie_key e)) (pv_internal_entry h v i)"
  unfolding pv_internal_entry_def Let_def
  using assms
  by (intro typed_and_then typed_mono [OF typed_entry_offset] typed_mono [OF typed_reads(2)]
      typed_mono [OF typed_reads(3)])
    (auto split: option.split dest!: checked_add_eq_Some
      intro!: typed_and_then typed_mono [OF typed_decode_item])

section \<open>The kinds of a page\<close>

lemma page_type_kind:
  assumes "page_type_ok (pv_flags v)"
  shows "[pv_is_leaf v, pv_is_internal v, pv_is_overflow v]
    \<in> {[True, False, False], [False, True, False], [False, False, True]}"
proof -
  let ?t = "pv_flags v AND P_TYPE"
  have mask: "pv_flags v AND c = ?t AND c" if "P_TYPE AND c = c" for c using that by (simp add: and.assoc)
  have "P_TYPE AND P_BLEAF = P_BLEAF" "P_TYPE AND P_BINTERNAL = P_BINTERNAL" "P_TYPE AND P_OVERFLOW = P_OVERFLOW"
    by (simp_all add: format_defs)
  note kinds = mask [OF this(1)] mask [OF this(2)] mask [OF this(3)]
  have "pv_is_leaf v \<longleftrightarrow> ?t AND P_BLEAF \<noteq> 0" "pv_is_internal v \<longleftrightarrow> ?t AND P_BINTERNAL \<noteq> 0"
    "pv_is_overflow v \<longleftrightarrow> ?t AND P_OVERFLOW \<noteq> 0"
    unfolding pv_is_leaf_def pv_is_internal_def pv_is_overflow_def by (fact kinds [THEN arg_cong, of "\<lambda>x. x \<noteq> 0"])+
  moreover have "?t = P_BINTERNAL \<or> ?t = P_BLEAF \<or> ?t = P_OVERFLOW"
    using assms by (simp add: page_type_ok_def)
  ultimately show ?thesis by (elim disjE) (simp_all add: format_defs)
qed

text \<open>
  C15: decoded values are well typed. For any bytes that \<open>Db::open\<close> accepts and any page
  number, either the page is rejected with an error that names it, or its view has one of the
  three kinds, its slot array lies in the page, and every entry that \<open>leaf_entry\<close> or
  \<open>internal_entry\<close> decodes comes from a slot of the page and refers to bytes of the page:
  the casts to \<open>u32\<close> lose nothing and \<open>inline\<close> returns exactly those bytes. An entry that
  cannot be decoded is a \<open>CorruptPage\<close> error with the page's number.
\<close>

theorem decoded_values_typed:
  "case open_mapped h bs of
     Ok d \<Rightarrow>
       (case db_view h d p of
          Ok v \<Rightarrow> pv_pgno v = p \<and> length (pv_bytes v) = db_psize d \<and>
            PAGE_HEADER_SIZE + 2 * pv_nentries v \<le> db_psize d \<and>
            [pv_is_leaf v, pv_is_internal v, pv_is_overflow v]
              \<in> {[True, False, False], [False, True, False], [False, False, True]} \<and>
            typed v (\<lambda>e. i < pv_nentries v \<and> item_typed v (le_key e) \<and> item_typed v (le_data e))
              (pv_leaf_entry h v i) \<and>
            typed v (\<lambda>e. i < pv_nentries v \<and> item_typed v (ie_key e)) (pv_internal_entry h v i)
        | Err e \<Rightarrow> e = PageOutOfBounds p \<or> (\<exists>reason. e = CorruptPage p reason)
        | Panic \<Rightarrow> False)
   | Err e \<Rightarrow> True
   | Panic \<Rightarrow> False"
proof (cases "open_mapped h bs")
  case (Ok d)
  note d = open_mapped_ok [OF Ok]
  show ?thesis
  proof (cases "db_view h d p")
    case v: (Ok v)
    then obtain b where b: "v = view_of h p b (db_swap d)" "length b = db_psize d"
      and parse: "pv_parse h p b (db_swap d) = Ok v"
      by (auto simp: db_view_def and_then_eq_Ok dest: pv_parse_OkD(1) db_page_OkD)
    note p = pv_parse_OkD [OF parse]
    have len: "length (pv_bytes v) \<le> MAX_PSIZE" using b d(5) by simp
    have "pv_pgno v = p" "length (pv_bytes v) = db_psize d" using b by simp_all
    moreover have "PAGE_HEADER_SIZE + 2 * pv_nentries v \<le> db_psize d"
      using p(3) b by (auto simp: page_bounds_ok_def elim!: evenE)
    moreover have "page_type_ok (pv_flags v)" using p(4) b(1) by simp
    note page_type_kind [OF this]
    ultimately show ?thesis
      using typed_leaf_entry [OF len, of i h] typed_internal_entry [OF len, of i h]
      unfolding Ok v outcome.case by blast
  next
    case (Err e)
    then show ?thesis using Ok
      by (auto simp: db_view_def db_page_def Let_def and_then_eq_Err ok_or_def pv_parse_eq
          split: option.splits if_splits)
  next
    case Panic
    then show ?thesis using db_view_no_panic [of h d p] by simp
  qed
qed (use open_mapped_no_panic [of h bs] in simp_all)

end
