(* ===== verification/Spec2Isabelle.thy ===== *)
theory Spec2Isabelle
  imports Display Dump_Theorems Leaf_Chain Cyclic_File Large_Entries Overflow Byte_Order Decode_Bounds
begin

text \<open>
  A verification development for the crate \<open>db185\<close>: a reader and a builder of Berkeley DB
  1.85 btree files.

  \<^bold>\<open>The program.\<close> A file is an array of pages of equal size. Page 0 is the meta page, page 1
  the root of a B+ tree; leaf pages hold the entries in key order and are linked to their right
  neighbour, internal pages hold separator keys with the page of the subtree whose keys are
  not below them. The reader (\<open>db.rs\<close>, \<open>iter.rs\<close>, \<open>page.rs\<close>, \<open>format.rs\<close>) maps the file,
  checks the meta page, descends from the root for \<open>get\<close>, and scans the chain of leaves for
  the iterator; it accepts files of either byte order. The builder (\<open>writer/mod.rs\<close>,
  \<open>writer/page_buf.rs\<close>) keeps all pages in one arena in memory, in the byte order of its host,
  inserts and deletes entries, splits full pages up to the root, and writes the arena once in
  \<open>finish\<close>. The example \<open>dump.rs\<close> prints a file.

  \<^bold>\<open>The model, by theory.\<close> Every definition keeps the name of the function it translates,
  with a prefix where two modules share a name (\<open>pv_\<close> for \<open>PageView\<close>, \<open>pb_\<close> for
  \<open>PageBufRef\<close> and \<open>PageBufMut\<close>, \<open>w_\<close> for the probes of the writer's searches).
  \<^item> \<open>Prelude\<close>: bytes as a list of 8-bit words and their order (\<open><[u8] as Ord>::cmp\<close>),
    slices (\<open>sub\<close>, \<open>splice\<close>), words in the two byte orders; the locale \<open>int_codec\<close>.
  \<^item> \<open>Errors\<close>, \<open>Display\<close>: \<open>error.rs\<close> and the result type; a Rust panic is the third value of
    \<open>outcome\<close>, \<open>and_then\<close> is the \<open>?\<close> operator; the messages of the errors.
  \<^item> \<open>Format\<close>, \<open>Page\<close>, \<open>Page_Buf\<close>: \<open>format.rs\<close>, \<open>page.rs\<close>, \<open>writer/page_buf.rs\<close>.
  \<^item> \<open>Search\<close>, \<open>Db\<close>, \<open>Iter\<close>: the binary search that four functions share, with the locale
    \<open>ordered_probe\<close> of what it needs, \<open>db.rs\<close> and \<open>iter.rs\<close>.
  \<^item> \<open>Split_Plan\<close>, \<open>Entries\<close>, \<open>Writer\<close>: \<open>writer/mod.rs\<close>, in the order decisions of a split,
    operations on one page, operations on the arena. The state of a builder is the record
    \<open>writer\<close>; an operation returns its outcome and the new state, also when it fails.
  \<^item> \<open>Dump\<close>: \<open>examples/dump.rs\<close>.

  \<^bold>\<open>The proofs, by theory.\<close> They relate three levels.
  \<^item> Bytes and pages: \<open>Page_Facts\<close> and \<open>Slots\<close> read the fields of a page, \<open>Encodings\<close> the
    entries; \<open>page_holds\<close> says that a page holds a list of encoded entries in disjoint parts.
    \<open>Page_Edit\<close>, \<open>Page_Insert\<close>, \<open>Page_Delete\<close>, \<open>Page_Split\<close> (with the locale \<open>page_kind\<close>,
    interpreted for leaf and internal pages in \<open>Page_Kinds\<close>) and \<open>Root_Page\<close> show that every
    editing function of the writer is the list operation on the entries; \<open>Balance\<close> shows that
    the chosen split point makes both halves fit; \<open>Page_Ops\<close> collects this as facts about
    \<open>leaf_page\<close> and \<open>int_page\<close>. \<open>Page_Theorems\<close> holds the properties of this level.
  \<^item> Pages and trees: \<open>Tree\<close> has the abstract B+ tree with contexts (\<open>plug\<close>), \<open>Store\<close> and
    \<open>Well_Formed\<close> the relation \<open>store_ok\<close> between an arena and a tree: every page represents
    its node, the page numbers of the nodes are distinct and are all the numbers from 1 on
    that are in use (so no split leaves a page behind that nothing links to), the leaf links
    follow the order of the leaves, the keys are ordered, and every entry takes at most half
    of a page. \<open>Leaf_Update\<close>,
    \<open>Pending\<close>, \<open>Leaf_Split\<close>, \<open>Node_Split\<close>, \<open>Node_Steps\<close>, \<open>Root_Split\<close>, \<open>Propagate\<close> and
    \<open>Put_Del\<close> show that a descent ends in the right leaf and that every case of \<open>put\<close> and
    \<open>del\<close> leads from a related pair to a related pair; a split is a tree with one pending
    separator until a page takes it. \<open>Shape\<close> and \<open>Shape_Steps\<close> follow the form of the tree
    through the same steps: all leaves at one depth, and the number of children of each
    internal page (\<open>bushy\<close>, \<open>right_spine\<close>); a split of a page that fills in ascending order
    leaves a page with one child, but only on the right edge.
  \<^item> Trees and maps: \<open>Map_Store\<close> has the specification, a finite map with counted operations,
    as the locales \<open>counted_insert\<close> and \<open>counted_map\<close>, interpreted on \<open>put\<close> and \<open>del\<close>.
    \<open>Reader_Store\<close>, \<open>Scan\<close> and \<open>Scan_Gap\<close> show the same of \<open>get\<close> and of the iterator on
    the image that \<open>File_Image\<close> relates to the arena.
  \<^item> Properties: \<open>Writer_Theorems\<close>, \<open>Leaf_Chain\<close>, \<open>Reader_Theorems\<close>, \<open>Dump_Theorems\<close> and this
    theory state what the operations and their composition promise. \<open>Reader_Safety\<close>,
    \<open>Decode_Bounds\<close>, \<open>Overflow\<close> and \<open>Byte_Order\<close> are about arbitrary bytes: no operation of
    the reader panics on a file that \<open>open\<close> accepts, what it decodes from a page lies within
    the page (\<open>item_typed\<close>), overflow chains are read and compared consistently, and
    hosts of both byte orders read the same. \<open>Walks\<close> has the loops that follow page numbers,
    with the locale \<open>page_walk\<close> interpreted on the three of the reader: a call runs for ever
    exactly when its pages lead back to one that it has read.

  \<^bold>\<open>What the proofs found.\<close> \<open>Large_Entries\<close>: two entries that each pass the size check of
  \<open>put\<close> but together take more bytes than a page make the second \<open>put\<close> panic. When they
  take at most the bytes of a page, but leave no room for its header and their slots (4076 to
  4096 bytes on a page of 4096), the second one is written over the header of the new page;
  depending on its bytes \<open>put\<close> then reports a corrupt page, or succeeds and leaves a file in
  which entries are lost. No theorem is about that case. This is why the other theorems
  about the builder ask for entries of at most half of a page (\<open>fits\<close>), which \<open>put\<close> does not.
  \<open>scan_misses_entries\<close> in this theory: the iterator shows nothing when the leftmost leaf is
  empty. \<open>Cyclic_File\<close>: on a page that names itself as its child the reader does not return.

  \<^bold>\<open>Bounds.\<close> \<open>usize\<close> is \<open>nat\<close>, with 64 bits where the code uses checked arithmetic and a
  panic where a subtraction would go below zero, as in a build with overflow checks and debug
  assertions; page numbers, page fields and on-disk words
  are words of their width. A run of operations on a new file is \<open>manageable\<close> when every
  entry takes at most half of a page and it has at most \<open>capacity\<close> operations, so that fewer
  than 2 to the power of 31 pages are in use and no page number wraps. A put adds at most as
  many pages as the tree has levels and one more. For any keys, no tree has more levels than
  puts, which allows 46000 operations. For keys of at most 1007 bytes every internal page
  that is not on the right edge of the tree keeps two children or more, the height is a
  logarithm of the number of leaves, and 1073741724 operations are allowed
  (\<open>tree_stays_shallow\<close>). Longer keys can leave internal pages with one child, because a
  split balances bytes and not entries. The step theorems and \<open>runs_until_full\<close> ask for no
  number of operations, only for fewer than 2 to the power of 31 pages before each.

  The loops of the code that need not end (the descents, the walk over empty
  leaves, the loop of \<open>next\<close>, the loop of the dump) are partial functions whose value \<open>None\<close>
  means that the loop runs forever; the theorems show that they return where they do. The
  only fuel is the argument of \<open>iter_collect\<close>, the number of calls of \<open>next\<close> that are made;
  one call more than there are entries reaches the end. The loops over overflow chains are
  total, because each round reads at least one byte on every handle that \<open>open\<close> returns.

  \<^bold>\<open>Not modelled.\<close> The file system is a map from paths to contents: \<open>create_new\<close>, the write of
  \<open>finish\<close> and \<open>Mmap::map\<close> can fail by an argument (\<open>io_env\<close>, \<open>mmap_map\<close>), and nothing else
  changes a file meanwhile. Borrowing (\<open>Cow\<close>) and buffering (\<open>BufWriter\<close>) are not visible in
  the results. The formatted text of the \<open>anyhow\<close> contexts in \<open>dump.rs\<close>, the tests, and the C
  programs and scripts under \<open>tools\<close> are left out: they drive the crate or the C library
  from outside.
\<close>

section \<open>A file from creation to lookup\<close>

text \<open>
  C1: a file from creation to lookup. On a path where there is no file yet, create a file,
  put and delete any entries in a manageable run (every entry within half a page, and at
  most 46000 operations, or 1073741724 if no key is longer than 1007 bytes) and finish: every
  operation succeeds with the result that the map of the entries gives; a reader on a host
  of either byte order opens the file, and \<open>get\<close> of any key returns exactly what the map
  holds.
\<close>

theorem build_and_read_back:
  assumes "fs path = None" "env_create env path = None" "\<And>img. env_write env img = None"
    and "\<And>bs. mmap_map bs = Inr bs"
    and "manageable ops"
  shows "\<exists>w0 fs1 w fs2 d.
    create_new hw env fs path = (Ok w0, fs1) \<and>
    run_ops (put hw) (del hw) w0 ops = Some (map Ok (fst (spec_run Map.empty ops)), w) \<and>
    finish hw env w fs1 = (Ok (), fs2) \<and>
    db_open hr mmap_map fs2 path = Ok d \<and>
    (\<forall>key. db_get hr d key = Some (Ok (snd (spec_run Map.empty ops) key)))"
proof -
  obtain w0 w t where w: "new_writer hw path = Ok w0"
      "run_ops (put hw) (del hw) w0 ops = Some (map Ok (fst (spec_run Map.empty ops)), w)"
      "stored hw (path, 4096, P_INVALID, 0, B_NODUPS) w (snd (spec_run Map.empty ops)) (length ops) t"
    by (rule built_store [OF assms(5)])
  have c: "create_new hw env fs path = (Ok w0, fs(path \<mapsto> []))" using assms(1,2) w(1) by (simp add: create_new_def)
  obtain fs2 d where f: "finish hw env w (fs(path \<mapsto> [])) = (Ok (), fs2)" "db_open hr mmap_map fs2 path = Ok d"
      "serves hr d hw w"
    by (rule finish_and_open [OF w(3) assms(3,4)])
  have "\<forall>key. db_get hr d key = Some (Ok (snd (spec_run Map.empty ops) key))"
    using get_store [OF stored_new_file(1) [OF w(3)] f(3)] stored_new_file(2) [OF w(3)] by simp
  with c f w(2) show ?thesis by blast
qed

lemma build_and_read_back_witness:
  defines "ops \<equiv> [Put_Op [1] [2], Put_Op [3] [4], Put_Op [1] [5], Del_Op [3]]"
  shows "\<exists>w0 fs1 w fs2 d.
    create_new Little \<lparr>env_create = \<lambda>_. None, env_write = \<lambda>_. None\<rparr> Map.empty ''f'' = (Ok w0, fs1) \<and>
    run_ops (put Little) (del Little) w0 ops = Some ([Ok True, Ok True, Ok False, Ok True], w) \<and>
    finish Little \<lparr>env_create = \<lambda>_. None, env_write = \<lambda>_. None\<rparr> w fs1 = (Ok (), fs2) \<and>
    db_open Big Inr fs2 ''f'' = Ok d \<and>
    (\<forall>key. db_get Big d key = Some (Ok (if key = [1] then Some [2] else None)))"
  using build_and_read_back [of Map.empty "''f''" "\<lparr>env_create = \<lambda>_. None, env_write = \<lambda>_. None\<rparr>" Inr ops Little Big]
  by (simp add: ops_def manageable_def fits_def leaf_bytes_def align_entry_eq fun_eq_iff if_distrib cong: if_cong)

section \<open>The scan of a file\<close>

text \<open>
  C2: a file from creation to iteration. Put a manageable list of entries into a new file
  (each within half a page, and at most 46000 of them, or 1073741724 if no key is longer
  than 1007 bytes), finish, and open the file on a host of either byte order: iteration
  yields, without an error, every entry of the map exactly once, in ascending order of the
  keys, and then ends.
\<close>

theorem build_and_scan:
  assumes "fs path = None" "env_create env path = None" "\<And>img. env_write env img = None"
    and "\<And>bs. mmap_map bs = Inr bs"
    and "manageable (map (\<lambda>(k, v). Put_Op k v) kvs)" "length kvs + 1 < n"
  defines "ops \<equiv> map (\<lambda>(k, v). Put_Op k v) kvs"
  shows "\<exists>w0 fs1 w fs2 d xs.
    create_new hw env fs path = (Ok w0, fs1) \<and>
    run_ops (put hw) (del hw) w0 ops = Some (map Ok (fst (spec_run Map.empty ops)), w) \<and>
    finish hw env w fs1 = (Ok (), fs2) \<and>
    db_open hr mmap_map fs2 path = Ok d \<and>
    iter_collect n hr (iter_new d) = Some (map (\<lambda>x. Ok (entry_of x)) xs, True) \<and>
    sorted_wrt (\<lambda>x y. fst x < fst y) xs \<and> map_of xs = snd (spec_run Map.empty ops)"
proof -
  obtain w0 w t where w: "new_writer hw path = Ok w0"
      "run_ops (put hw) (del hw) w0 ops = Some (map Ok (fst (spec_run Map.empty ops)), w)"
      "stored hw (path, 4096, P_INVALID, 0, B_NODUPS) w (snd (spec_run Map.empty ops)) (length ops) t" "filled t"
    unfolding ops_def by (rule built_filled_store [OF assms(5)])
  note s = stored_new_file [OF w(3)]
  have c: "create_new hw env fs path = (Ok w0, fs(path \<mapsto> []))" using assms(1,2) w(1) by (simp add: create_new_def)
  obtain fs2 d where f: "finish hw env w (fs(path \<mapsto> [])) = (Ok (), fs2)" "db_open hr mmap_map fs2 path = Ok d"
      "serves hr d hw w"
    by (rule finish_and_open [OF w(3) assms(3,4)])
  have "length (flat t) + 1 < n" using s(6) assms(6) by (simp add: ops_def)
  note scan = filled_scan [OF s(1) w(4) f(3) this]
  have "tree_ok [] None t" using s(1) by (simp add: store_ok_def)
  then have "sorted_wrt (\<lambda>x y. fst x < fst y) (flat t)"
    using flat_bounds(1) by (simp add: ascending_def)
  moreover have "map_of (flat t) = snd (spec_run Map.empty ops)" using s(2) by (simp add: contents_def)
  ultimately show ?thesis using c w(2) f scan by blast
qed

lemma build_and_scan_witness:
  defines "kvs \<equiv> [([3], [4]), ([1], [2])] :: (bytes \<times> bytes) list"
  shows "\<exists>w0 fs1 w fs2 d xs.
    create_new Big \<lparr>env_create = \<lambda>_. None, env_write = \<lambda>_. None\<rparr> Map.empty ''f'' = (Ok w0, fs1) \<and>
    run_ops (put Big) (del Big) w0 (map (\<lambda>(k, v). Put_Op k v) kvs) = Some ([Ok True, Ok True], w) \<and>
    finish Big \<lparr>env_create = \<lambda>_. None, env_write = \<lambda>_. None\<rparr> w fs1 = (Ok (), fs2) \<and>
    db_open Little Inr fs2 ''f'' = Ok d \<and>
    iter_collect 4 Little (iter_new d) = Some (map (\<lambda>x. Ok (entry_of x)) xs, True) \<and>
    sorted_wrt (\<lambda>x y. fst x < fst y) xs \<and> map_of xs = [[3] \<mapsto> [4], [1] \<mapsto> [2]]"
  using build_and_scan [of Map.empty "''f''" "\<lparr>env_create = \<lambda>_. None, env_write = \<lambda>_. None\<rparr>" Inr kvs 4 Big Little]
  by (simp add: kvs_def manageable_def fits_def leaf_bytes_def align_entry_eq)

text \<open>
  Three entries that do not fit on one page, and the keys of the first leaf deleted again:
  the file is then \<open>gap_file\<close>.
\<close>

definition gap_entries :: "(bytes \<times> bytes) list" where
  "gap_entries = map (\<lambda>k. ([k], replicate 1900 0)) [0, 1, 2]"

lemma gap_store:
  obtains w0 w t g gs where "new_writer h path = Ok w0"
    "run_ops (put h) (del h) w0 (map (\<lambda>(k, v). Put_Op k v) gap_entries) = Some ([Ok True, Ok True, Ok True], w)"
    "stored h (path, 4096, P_INVALID, 0, B_NODUPS) w (map_of gap_entries) 3 t" "groups t = g # gs"
    "[] \<notin> set (groups t)" "gs \<noteq> []"
proof -
  let ?ops = "map (\<lambda>(k, v). Put_Op k v) gap_entries"
  have spec: "spec_run Map.empty ?ops = ([True, True, True], map_of gap_entries)"
    by (auto simp: gap_entries_def fun_eq_iff)
  have fit: "manageable ?ops"
    by (simp add: gap_entries_def manageable_def fits_def leaf_bytes_def align_entry_eq)
  obtain w0 w t where w: "new_writer h path = Ok w0"
      "run_ops (put h) (del h) w0 ?ops = Some (map Ok (fst (spec_run Map.empty ?ops)), w)"
      "stored h (path, 4096, P_INVALID, 0, B_NODUPS) w (snd (spec_run Map.empty ?ops)) (length ?ops) t" "filled t"
    by (rule built_filled_store [OF fit])
  have len: "length ?ops = 3" by (simp add: gap_entries_def)
  note s = stored_new_file [OF w(3)]
  have m: "map_of (flat t) = map_of gap_entries" using s(2) spec by (simp add: contents_def)
  have "([k], replicate 1900 0) \<in> set (flat t)" if "k \<in> {0, 1, 2}" for k
    by (rule map_of_SomeD) (use that in \<open>auto simp: m gap_entries_def\<close>)
  then have "{([0], replicate 1900 0), ([1], replicate 1900 0), ([2], replicate 1900 0)} \<subseteq> set (flat t)" by simp
  from card_mono [OF _ this] have three: "3 \<le> length (flat t)"
    using card_length [of "flat t"] by simp
  have big: "1912 \<le> leaf_bytes kv" if "kv \<in> set (flat t)" for kv
  proof -
    have "map_of (flat t) (fst kv) = Some (snd kv)"
      using that store_distinct [OF s(1)] by (simp add: map_of_is_SomeI)
    then have "length (fst kv) = 1 \<and> length (snd kv) = 1900"
      unfolding m by (auto simp: gap_entries_def split: if_splits dest!: arg_cong [where f = length])
    then show ?thesis by (simp add: leaf_bytes_def align_entry_eq)
  qed
  have "3 * (1912 + 2) \<le> length (flat t) * (1912 + 2)" using three by (rule mult_le_mono1)
  then have many: "w_psize w < 20 + length (flat t) * (1912 + 2)" using s(4) by simp
  have ne: "flat t \<noteq> []" using three by auto
  obtain g gs where "groups t = g # gs" "[] \<notin> set (groups t)" "gs \<noteq> []"
    by (rule store_two_leaves [OF s(1) w(4) big many ne])
  then show ?thesis using that [OF w(1)] w(2,3) spec len by simp
qed

text \<open>
  C18: entries that the iteration does not show. There is a file, built with puts and deletes
  that all succeed, in which a key is found by \<open>get\<close> while the iteration ends at once
  without an item: when the leftmost leaf has been emptied by deletions,
  \<open>initial_state\<close> stops there, although its comment says that it walks to the leftmost
  leaf that is not empty.
\<close>

theorem scan_misses_entries:
  "\<exists>ops w0 w fs2 d key val.
    new_writer hw path = Ok w0 \<and>
    run_ops (put hw) (del hw) w0 ops = Some (map Ok (fst (spec_run Map.empty ops)), w) \<and>
    finish hw \<lparr>env_create = \<lambda>_. None, env_write = \<lambda>_. None\<rparr> w fs = (Ok (), fs2) \<and>
    db_open hr Inr fs2 path = Ok d \<and>
    db_get hr d key = Some (Ok (Some val)) \<and>
    (\<forall>n. iter_collect (Suc n) hr (iter_new d) = Some ([], True))"
proof -
  obtain w0 w t g gs where w: "new_writer hw path = Ok w0"
    "run_ops (put hw) (del hw) w0 (map (\<lambda>(k, v). Put_Op k v) gap_entries) = Some ([Ok True, Ok True, Ok True], w)"
    "stored hw (path, 4096, P_INVALID, 0, B_NODUPS) w (map_of gap_entries) 3 t" "groups t = g # gs"
    "[] \<notin> set (groups t)" "gs \<noteq> []"
    by (rule gap_store)
  let ?puts = "map (\<lambda>(k, v). Put_Op k v) gap_entries" and ?dels = "map Del_Op (map fst g)"
  have puts: "spec_run Map.empty ?puts = ([True, True, True], map_of gap_entries)"
    by (auto simp: gap_entries_def fun_eq_iff)
  obtain w' t' where w': "run_ops (put hw) (del hw) w ?dels = Some (map Ok (fst (spec_run (map_of gap_entries) ?dels)), w')"
      "stored hw (path, 4096, P_INVALID, 0, B_NODUPS) w' (snd (spec_run (map_of gap_entries) ?dels)) (3 + length g) t'"
      "groups t' = [] # gs"
    using empty_first_leaf [OF w(3,4)] by blast
  have run: "run_ops (put hw) (del hw) w0 (?puts @ ?dels) =
      Some (map Ok (fst (spec_run Map.empty (?puts @ ?dels))), w')"
    using run_ops_append [OF w(2) w'(1)] puts by (simp add: spec_run_append)
  obtain fs2 d where f: "finish hw \<lparr>env_create = \<lambda>_. None, env_write = \<lambda>_. None\<rparr> w' fs = (Ok (), fs2)"
      "db_open hr Inr fs2 path = Ok d" "serves hr d hw w'"
    by (rule finish_and_open [OF w'(2), where env = "\<lparr>env_create = \<lambda>_. None, env_write = \<lambda>_. None\<rparr>"
          and mmap_map = Inr], simp, simp, rule that)
  note s' = stored_new_file [OF w'(2)]
  obtain k v xs gs' where k: "gs = ((k, v) # xs) # gs'"
    using w(4-6) by (cases gs; cases "hd gs") auto
  have "distinct (map fst (flat t'))" by (rule store_distinct [OF s'(1)])
  moreover have "(k, v) \<in> set (flat t')" unfolding concat_groups(1) [symmetric] w'(3) k by simp
  ultimately have "contents t' k = Some v" by (simp add: contents_def)
  then have "db_get hr d k = Some (Ok (Some v))" using get_store [OF s'(1) f(3)] by simp
  moreover have "\<forall>n. iter_collect (Suc n) hr (iter_new d) = Some ([], True)"
    using empty_first_scan [OF s'(1) w'(3) f(3)] by blast
  ultimately show ?thesis using w(1) run f(1,2) by blast
qed

end
